(* ===== verification/Ngx_Prelude.thy ===== *)
theory Ngx_Prelude
  imports Main "HOL-Library.Word" "HOL-Library.Monad_Syntax"
begin

text \<open>
  Shared ground of the development: the machine types and constants of
  \<^verbatim>\<open>src/core/ngx_config.h\<close> and \<^verbatim>\<open>src/core/ngx_core.h\<close> on the 64-bit Linux
  configuration of \<^verbatim>\<open>objs/ngx_auto_config.h\<close> (\<^verbatim>\<open>NGX_PTR_SIZE\<close> is 8), the byte
  objects that C strings and buffers are read from and written to, and the generic lemmas
  on words, lists and patchs that the component theories share.

  Undefined behaviour (a write or read outside its object, a dereference of a pointer that
  is not valid, a double free) is the value \<open>None\<close> of an option; every error code that the
  C code returns is an ordinary value.
\<close>

unbundle bit_operations_syntax

subsection \<open>Machine types\<close>

type_synonym u32 = "32 word"
type_synonym u64 = "64 word"

text \<open>A pointer into the typed heap is its address; \<open>0\<close> is \<open>NULL\<close>.\<close>

type_synonym addr = "64 word"

abbreviation NULL :: addr where "NULL \<equiv> 0"

definition NGX_OK :: u64 where "NGX_OK = 0"
definition NGX_ERROR :: u64 where "NGX_ERROR = -1"
definition NGX_DECLINED :: u64 where "NGX_DECLINED = -5"

definition NGX_INT32_LEN :: nat where "NGX_INT32_LEN = length ''-2147483648''"
definition NGX_INT64_LEN :: nat where "NGX_INT64_LEN = length ''-9223372036854775808''"
definition NGX_INT_T_LEN :: u64 where "NGX_INT_T_LEN = of_nat NGX_INT64_LEN"
definition NGX_ALIGMENT :: u64 where "NGX_ALIGMENT = 8"
definition NGX_MAX_UINT32_VALUE :: u32 where "NGX_MAX_UINT32_VALUE = 0xffffffff"

definition ngx_align :: "u64 \<Rightarrow> u64 \<Rightarrow> u64" where
  "ngx_align d a = (d + (a - 1)) AND NOT (a - 1)"

definition ngx_align_ptr :: "addr \<Rightarrow> u64 \<Rightarrow> addr" where
  "ngx_align_ptr p a = (p + (a - 1)) AND NOT (a - 1)"

definition ngx_min :: "u64 \<Rightarrow> u64 \<Rightarrow> u64" where
  "ngx_min val1 val2 = (if val1 > val2 then val2 else val1)"

named_theorems ngx_consts \<open>values of the configuration constants\<close>

lemma ngx_lens [ngx_consts]:
  "NGX_INT32_LEN = 11" "NGX_INT64_LEN = 20" "NGX_INT_T_LEN = 20"
  by (simp_all add: NGX_INT32_LEN_def NGX_INT64_LEN_def NGX_INT_T_LEN_def)

lemma unat_ngx_min [simp]: "unat (ngx_min a b) = min (unat a) (unat b)"
  by (simp add: ngx_min_def word_less_nat_alt min_def)

subsection \<open>Words\<close>

lemma and_not_mask_shift:
  fixes x :: "'a::len word"
  shows "x AND NOT (mask n) = push_bit n (drop_bit n x)"
  by (rule bit_eqI) (auto simp: bit_simps)

lemma unat_and_not_mask:
  fixes x :: "'a::len word"
  assumes "n < LENGTH('a)"
  shows "unat (x AND NOT (mask n)) = unat x div 2 ^ n * 2 ^ n"
proof -
  have "unat (push_bit n (drop_bit n x)) = take_bit LENGTH('a) (push_bit n (drop_bit n (unat x)))"
    using assms by (simp add: unsigned_push_bit_eq unsigned_drop_bit_eq take_bit_nat_eq_self)
  also have "\<dots> = take_bit LENGTH('a) (unat x div 2 ^ n * 2 ^ n)"
    by (simp add: drop_bit_eq_div push_bit_eq_mult)
  also have "\<dots> = unat x div 2 ^ n * 2 ^ n"
    by (metis div_times_less_eq_dividend order_le_less_trans take_bit_nat_eq_self unsigned_less)
  finally show ?thesis by (simp add: and_not_mask_shift)
qed

lemma unat_plus_no_wrap:
  fixes x y :: "'a::len word"
  shows "unat x + unat y < 2 ^ LENGTH('a) \<Longrightarrow> unat (x + y) = unat x + unat y"
  by (simp add: unat_word_ariths)

lemma unat_minus_le:
  fixes x y :: "'a::len word"
  shows "unat y \<le> unat x \<Longrightarrow> unat (x - y) = unat x - unat y"
  by (simp add: unat_sub word_le_nat_alt)

lemma unat_align_8:
  assumes "unat p + 7 < 2 ^ 64"
  shows "unat (ngx_align_ptr p 8) = (unat p + 7) div 8 * 8"
proof -
  have m: "(8::u64) - 1 = mask 3" by (simp add: mask_eq_decr_exp)
  have "unat (ngx_align_ptr p 8) = unat (p + mask 3) div 2 ^ 3 * 2 ^ 3"
    unfolding ngx_align_ptr_def m by (rule unat_and_not_mask) simp
  moreover have "unat (p + mask 3) = unat p + 7"
    using assms by (subst unat_plus_no_wrap) (simp_all add: mask_eq_decr_exp)
  ultimately show ?thesis by simp
qed

lemma unat_lt_64 [simp]: "unat (x :: u64) < 18446744073709551616"
  using unsigned_less [of x, where ?'a = nat] by simp

lemma sint_64_bounds: "- (2 ^ 63) \<le> sint (w :: u64)" "sint (w :: u64) < 2 ^ 63"
  using sint_greater_eq [of w] sint_less [of w] by simp_all

lemma unat_word_of_int_64: "0 \<le> k \<Longrightarrow> k < 2 ^ 64 \<Longrightarrow> unat (word_of_int k :: u64) = nat k"
  by (simp add: unsigned_of_int take_bit_int_eq_self)

lemma unat_uminus_sint:
  assumes "sint (w :: u64) < 0"
  shows "unat (- w) = nat \<bar>sint w\<bar>"
proof -
  have "- w = word_of_int (- sint w)" by simp
  then show ?thesis
    using assms sint_64_bounds [of w] unat_word_of_int_64 [of "- sint w"] by simp
qed

lemma unat_sint:
  assumes "\<not> sint (w :: u64) < 0"
  shows "unat w = nat \<bar>sint w\<bar>"
proof -
  have "w = word_of_int (sint w)" by simp
  then show ?thesis
    using assms sint_64_bounds [of w] unat_word_of_int_64 [of "sint w"] by simp
qed

lemma sint_nonpos_small:
  assumes "sint (w :: u64) \<le> 0" "unat w < 2 ^ 63"
  shows "w = 0"
proof (cases "sint w < 0")
  case True
  define k where "k = sint w + 2 ^ 64"
  have "w = word_of_int k" by (simp add: k_def)
  moreover have "unat (word_of_int k :: u64) = nat k" "2 ^ 63 \<le> k"
    using True sint_64_bounds [of w] unat_word_of_int_64 [of k] by (simp_all add: k_def)
  ultimately show ?thesis using assms(2) by simp
next
  case False
  then have "sint w = 0" using assms(1) by simp
  then show ?thesis using unat_sint [of w] by (simp add: unat_eq_zero)
qed

lemma sint_scast_64: "sint (scast (w :: u32) :: u64) = sint w"
  by (rule sint_up_scast) (simp add: is_up)

lemma uint_ucast_64: "uint (ucast (w :: u32) :: u64) = uint w"
  by (rule uint_up_ucast) (simp add: is_up)

lemma unat_of_nat_64: "n < 2 ^ 64 \<Longrightarrow> unat (of_nat n :: u64) = n"
  by (simp add: unsigned_of_nat take_bit_nat_eq_self)

lemma unat_plus_1:
  fixes x y :: u64
  assumes "x < y"
  shows "unat (x + 1) = unat x + 1"
proof -
  have "unat x + 1 < 18446744073709551616"
    using assms unat_lt_64 [of y] unfolding word_less_nat_alt by linarith
  then show ?thesis by (subst unat_plus_no_wrap) simp_all
qed

lemma unat_minus_1: "(x :: u64) \<noteq> 0 \<Longrightarrow> unat (x - 1) = unat x - 1"
  by (rule unat_minus_one)

subsection \<open>Byte objects\<close>

text \<open>
  The destination of a copy is an object of fixed length, a \<open>char list\<close> indexed from 0;
  \<open>poke\<close> is the store \<^verbatim>\<open>*p = c\<close> and \<open>cpymem\<close> is \<^verbatim>\<open>ngx_cpymem(dst, src, n)\<close>.
  A source pointer is the rest of its object from the byte it points at, so advancing it
  drops a byte and reading past the end of the object is the empty list.
\<close>

abbreviation NUL :: char where "NUL \<equiv> CHR 0x00"
abbreviation LF :: char where "LF \<equiv> CHR 0x0A"

definition poke :: "char list \<Rightarrow> nat \<Rightarrow> char \<Rightarrow> char list option" where
  "poke mem i c = (if i < length mem then Some (mem[i := c]) else None)"

definition patch :: "char list \<Rightarrow> nat \<Rightarrow> char list \<Rightarrow> char list" where
  "patch mem i xs = take i mem @ xs @ drop (i + length xs) mem"

definition ngx_cpymem :: "char list \<Rightarrow> nat \<Rightarrow> char list \<Rightarrow> u64 \<Rightarrow> (char list \<times> nat) option" where
  "ngx_cpymem mem dst src n =
     (if unat n \<le> length src \<and> dst + unat n \<le> length mem
      then Some (patch mem dst (take (unat n) src), dst + unat n) else None)"

text \<open>
  A buffer: positions \<open>buf\<close> (next byte) and \<open>lst\<close> (limit) of an object that fits the address
  space.
\<close>

definition span :: "char list \<Rightarrow> nat \<Rightarrow> nat \<Rightarrow> bool" where
  "span mem buf lst \<longleftrightarrow> buf \<le> lst \<and> lst \<le> length mem \<and> length mem < 2 ^ 64"

lemma length_patch [simp]: "i + length xs \<le> length mem \<Longrightarrow> length (patch mem i xs) = length mem"
  by (simp add: patch_def)

lemma span_advance:
  assumes "span mem buf lst" "length out \<le> lst - buf"
  shows "span (patch mem buf out) (buf + length out) lst"
proof -
  have "buf + length out \<le> lst" using assms unfolding span_def by arith
  with assms show ?thesis by (simp add: span_def)
qed

lemma patch_Nil [simp]: "patch mem i [] = mem"
  by (simp add: patch_def)

lemma patch_append:
  "i + length xs + length ys \<le> length mem \<Longrightarrow>
   patch (patch mem i xs) (i + length xs) ys = patch mem i (xs @ ys)"
  by (simp add: patch_def add.commute add.left_commute)

lemma poke_patch: "i < length mem \<Longrightarrow> poke mem i c = Some (patch mem i [c])"
  by (simp add: poke_def patch_def upd_conv_take_nth_drop)

lemma patch_Cons:
  "i + Suc (length xs) \<le> length mem \<Longrightarrow>
   patch (patch mem i [c]) (Suc i) xs = patch mem i (c # xs)"
  using patch_append [of i "[c]" xs mem] by simp

lemma nth_patch_outside:
  "j < i \<or> i + length xs \<le> j \<Longrightarrow> i + length xs \<le> length mem \<Longrightarrow> patch mem i xs ! j = mem ! j"
  by (auto simp: patch_def nth_append)

lemma take_patch [simp]: "i \<le> length mem \<Longrightarrow> take i (patch mem i xs) = take i mem"
  by (simp add: patch_def)

lemma patch_read:
  "i + length xs \<le> length mem \<Longrightarrow> take (length xs) (drop i (patch mem i xs)) = xs"
  by (simp add: patch_def)

lemma takeWhile_NUL: "NUL \<notin> set s \<Longrightarrow> takeWhile (\<lambda>c. c \<noteq> NUL) (s @ NUL # rest) = s"
  by (induction s) auto

subsection \<open>Filling a bounded buffer with indivisible pieces\<close>

text \<open>
  The formatting routines emit pieces (a character, or the two digits of a byte in hex) and
  drop a piece that does not fit into what is left of the buffer. \<open>fill r ps\<close> is what a room of
  \<open>r\<close> bytes receives of the pieces \<open>ps\<close>. When every piece is a single byte it is plain
  truncation.
\<close>

fun fill :: "nat \<Rightarrow> 'a list list \<Rightarrow> 'a list" where
  "fill r [] = []"
| "fill r (p # ps) = (if length p \<le> r then p @ fill (r - length p) ps else fill r ps)"

abbreviation singles :: "'a list \<Rightarrow> 'a list list" where
  "singles xs \<equiv> map (\<lambda>x. [x]) xs"

lemma fill_0 [simp]: "fill 0 ps = []"
  by (induction ps) auto

lemma length_fill: "length (fill r ps) \<le> r"
proof (induction ps arbitrary: r)
  case (Cons p ps)
  from Cons [of "r - length p"] Cons [of r] show ?case by auto
qed simp

lemma fill_append: "fill r (ps @ qs) = fill r ps @ fill (r - length (fill r ps)) qs"
  by (induction ps arbitrary: r) (auto simp: diff_diff_left)

lemma fill_singles [simp]: "fill r (singles xs) = take r xs"
  by (induction xs arbitrary: r) (auto simp: take_Cons split: nat.split)

lemma fill_none: "\<forall>p \<in> set ps. r < length p \<Longrightarrow> fill r ps = []"
  by (induction ps) auto

lemma fill_all: "length (concat ps) \<le> r \<Longrightarrow> fill r ps = concat ps"
  by (induction ps arbitrary: r) auto

lemma fill_single_pieces: "\<forall>p \<in> set ps. length p = 1 \<Longrightarrow> fill r ps = take r (concat ps)"
proof (induction ps arbitrary: r)
  case (Cons p ps)
  then obtain c where p: "p = [c]" by (cases p) auto
  then show ?case using Cons by (cases r) auto
qed simp

subsection \<open>Chains of records linked by a next pointer\<close>

text \<open>
  \<open>linked nx p xs\<close>: following \<open>nx\<close> from \<open>p\<close> visits exactly the addresses \<open>xs\<close> and ends at
  \<open>NULL\<close>. The pools, their large allocations and cleanups and the parts of a list are such
  chains.
\<close>

fun linked :: "(addr \<Rightarrow> addr option) \<Rightarrow> addr \<Rightarrow> addr list \<Rightarrow> bool" where
  "linked nx p [] \<longleftrightarrow> p = NULL"
| "linked nx p (a # as) \<longleftrightarrow> p = a \<and> a \<noteq> NULL
     \<and> (\<exists>q. nx a = Some q \<and> linked nx q as)"

lemma linked_NULL [simp]: "linked nx NULL xs \<longleftrightarrow> xs = []"
  by (cases xs) auto

lemma linked_unique: "linked nx p xs \<Longrightarrow> linked nx p ys \<Longrightarrow> xs = ys"
proof (induction xs arbitrary: p ys)
  case (Cons a xs)
  then show ?case by (cases ys) auto
qed auto

lemma linked_suffix: "linked nx p (xs @ y # ys) \<Longrightarrow> linked nx y (y # ys)"
  by (induction xs arbitrary: p) auto

lemma linked_not_NULL: "linked nx p xs \<Longrightarrow> NULL \<notin> set xs"
  by (induction xs arbitrary: p) auto

lemma linked_distinct: "linked nx p xs \<Longrightarrow> distinct xs"
proof (induction xs arbitrary: p)
  case (Cons a xs)
  have "a \<notin> set xs"
  proof
    assume "a \<in> set xs"
    then obtain ys zs where xs: "xs = ys @ a # zs" by (meson split_list)
    then have "linked nx a (a # zs)"
      using linked_suffix [of nx p "a # ys" a zs] Cons.prems by simp
    moreover have "linked nx a (a # xs)" using Cons.prems by simp
    ultimately have "a # zs = a # xs" by (rule linked_unique)
    then show False by (simp add: xs)
  qed
  with Cons show ?case by auto
qed simp

lemma linked_frame: "linked nx p xs \<Longrightarrow> \<forall>a \<in> set xs. nx' a = nx a \<Longrightarrow> linked nx' p xs"
  by (induction xs arbitrary: p) auto

lemma linked_head: "linked nx p xs \<Longrightarrow> p \<noteq> NULL \<Longrightarrow> \<exists>ys. xs = p # ys"
  by (cases xs) auto

text \<open>Appending at the tail: the last record's next pointer is redirected.\<close>

lemma linked_snoc:
  assumes "linked nx p (xs @ [a])" "\<forall>b \<in> set xs. nx' b = nx b" "nx' a = Some q" "nx' q = Some NULL"
    "q \<noteq> NULL"
  shows "linked nx' p (xs @ [a, q])"
  using assms by (induction xs arbitrary: p) auto

end
