(* ===== verification/Ngx_String.thy ===== *)
theory Ngx_String
  imports Ngx_Prelude
begin

text \<open>
  \<^verbatim>\<open>src/core/ngx_string.h\<close> and the copying and number-printing routines of
  \<^verbatim>\<open>src/core/ngx_string.c\<close>: \<open>ngx_cpystrn\<close>, \<open>ngx_sprintf_num\<close> and \<open>ngx_sprintf_str\<close>.
  The locale \<open>bounded_writer\<close> is the contract all of the formatting code shares: a writer
  given a buffer position and a limit emits its pieces, never passes the limit and touches
  nothing else. The reference printers (\<open>nat_digits\<close>, \<open>num_string\<close>, \<open>str_pieces\<close>) say what is
  emitted.
\<close>

subsection \<open>Data\<close>

record ngx_str_t =
  str_len :: u64
  str_data :: "char list"

record ngx_variable_value_t =
  vv_len :: "28 word"
  vv_valid :: "1 word"
  vv_no_cacheable :: "1 word"
  vv_not_found :: "1 word"
  vv_escape :: "1 word"
  vv_data :: "char list"

definition ngx_string :: "char list \<Rightarrow> ngx_str_t" where
  "ngx_string s = \<lparr>str_len = of_nat (length s), str_data = s @ [NUL]\<rparr>"

definition ngx_null_string :: ngx_str_t where
  "ngx_null_string = \<lparr>str_len = 0, str_data = []\<rparr>"

text \<open>\<open>strlen\<close>: undefined (\<open>None\<close>) when the object has no terminator.\<close>

fun ngx_strlen :: "char list \<Rightarrow> u64 option" where
  "ngx_strlen [] = None"
| "ngx_strlen (c # cs) =
     (if c = NUL then Some 0 else map_option (\<lambda>n. n + 1) (ngx_strlen cs))"

subsection \<open>ngx_cpystrn\<close>

text \<open>
  The loop \<^verbatim>\<open>while (--n)\<close> of \<open>ngx_cpystrn\<close>; \<open>n\<close> is the value before the decrement.
\<close>

fun cpystrn_loop :: "char list \<Rightarrow> nat \<Rightarrow> char list \<Rightarrow> u64 \<Rightarrow> (char list \<times> nat) option" where
  "cpystrn_loop mem dst [] n =
     (if n - 1 = 0 then do { mem \<leftarrow> poke mem dst NUL; Some (mem, dst) } else None)"
| "cpystrn_loop mem dst (c # src) n =
     (if n - 1 = 0 then do { mem \<leftarrow> poke mem dst NUL; Some (mem, dst) }
      else do {
        mem \<leftarrow> poke mem dst c;
        if c = NUL then Some (mem, dst) else cpystrn_loop mem (dst + 1) src (n - 1) })"

definition ngx_cpystrn :: "char list \<Rightarrow> nat \<Rightarrow> char list \<Rightarrow> u64 \<Rightarrow> (char list \<times> nat) option" where
  "ngx_cpystrn mem dst src n =
     (if n = 0 then Some (mem, dst) else cpystrn_loop mem dst src n)"

subsection \<open>ngx_sprintf_num\<close>

text \<open>
  The digits are stored backwards into \<open>temp[NGX_INT64_LEN + 1]\<close> from
  \<open>temp + NGX_INT64_LEN\<close>; the accumulator holds the bytes from \<open>p\<close> up to that point, and a
  store below \<open>temp\<close> is undefined. The two decimal loops (on the 32-bit copy and on the
  64-bit number) are this one at two widths.
\<close>

function sprintf_dec :: "'a::len word \<Rightarrow> char list \<Rightarrow> char list option" where
  "sprintf_dec ui p =
     (if NGX_INT64_LEN \<le> length p then None
      else let p = char_of (unat (ui mod 10) + of_char (CHR ''0'')) # p; ui = ui div 10
           in if ui = 0 then Some p else sprintf_dec ui p)"
  by pat_completeness auto
termination
  by (relation "measure (\<lambda>(ui, p). NGX_INT64_LEN - length p)") auto

definition hex_lower :: "char list" where "hex_lower = ''0123456789abcdef''"
definition hex_upper :: "char list" where "hex_upper = ''0123456789ABCDEF''"

function sprintf_hex :: "char list \<Rightarrow> u64 \<Rightarrow> char list \<Rightarrow> char list option" where
  "sprintf_hex tab ui64 p =
     (if NGX_INT64_LEN \<le> length p then None
      else let p = tab ! unat (ui64 AND 0xf) # p; ui64 = drop_bit 4 ui64
           in if ui64 = 0 then Some p else sprintf_hex tab ui64 p)"
  by pat_completeness auto
termination
  by (relation "measure (\<lambda>(tab, ui, p). NGX_INT64_LEN - length p)") auto

text \<open>\<^verbatim>\<open>while (len++ < width && buf < last) *buf++ = zero;\<close>\<close>

function sprintf_pad ::
  "char list \<Rightarrow> nat \<Rightarrow> nat \<Rightarrow> u64 \<Rightarrow> u64 \<Rightarrow> char \<Rightarrow> (char list \<times> nat) option" where
  "sprintf_pad mem buf lst len width zero =
     (if len < width \<and> buf < lst
      then do { mem \<leftarrow> poke mem buf zero; sprintf_pad mem (buf + 1) lst (len + 1) width zero }
      else Some (mem, buf))"
  by pat_completeness auto
termination
  by (relation "measure (\<lambda>(mem, buf, lst, len, width, zero). lst - buf)") auto

declare sprintf_dec.simps [simp del] sprintf_hex.simps [simp del] sprintf_pad.simps [simp del]

definition ngx_sprintf_num ::
  "char list \<Rightarrow> nat \<Rightarrow> nat \<Rightarrow> u64 \<Rightarrow> char \<Rightarrow> u64 \<Rightarrow> u64 \<Rightarrow> (char list \<times> nat) option" where
  "ngx_sprintf_num mem buf lst ui64 zero hexadecimal width = do {
     p \<leftarrow> (if hexadecimal = 0 then
            (if ui64 \<le> ucast NGX_MAX_UINT32_VALUE then sprintf_dec (ucast ui64 :: u32) []
             else sprintf_dec ui64 [])
          else if hexadecimal = 1 then sprintf_hex hex_lower ui64 []
          else sprintf_hex hex_upper ui64 []);
     (mem, buf) \<leftarrow> sprintf_pad mem buf lst (of_nat (length p)) width zero;
     let len = (if lst < buf + length p then of_nat lst - of_nat buf else of_nat (length p));
     ngx_cpymem mem buf p len }"

subsection \<open>ngx_sprintf_str\<close>

fun sprintf_str_z :: "char list \<Rightarrow> nat \<Rightarrow> nat \<Rightarrow> char list \<Rightarrow> (char list \<times> nat) option" where
  "sprintf_str_z mem buf lst [] = None"
| "sprintf_str_z mem buf lst (c # src) =
     (if c \<noteq> NUL \<and> buf < lst
      then do { mem \<leftarrow> poke mem buf c; sprintf_str_z mem (buf + 1) lst src }
      else Some (mem, buf))"

definition hex_pair :: "char list \<Rightarrow> char \<Rightarrow> char list" where
  "hex_pair tab c = [tab ! drop_bit 4 (of_char c), tab ! (of_char c AND 0xf)]"

definition put_hex :: "char list \<Rightarrow> char list \<Rightarrow> nat \<Rightarrow> char \<Rightarrow> (char list \<times> nat) option" where
  "put_hex tab mem buf c = do {
     mem \<leftarrow> poke mem buf (tab ! drop_bit 4 (of_char c));
     mem \<leftarrow> poke mem (buf + 1) (tab ! (of_char c AND 0xf));
     Some (mem, buf + 2) }"

fun sprintf_hex_z ::
  "char list \<Rightarrow> char list \<Rightarrow> nat \<Rightarrow> nat \<Rightarrow> char list \<Rightarrow> (char list \<times> nat) option" where
  "sprintf_hex_z tab mem buf lst [] = None"
| "sprintf_hex_z tab mem buf lst (c # src) =
     (if c \<noteq> NUL \<and> buf < lst - 1
      then do { (mem, buf) \<leftarrow> put_hex tab mem buf c; sprintf_hex_z tab mem buf lst src }
      else Some (mem, buf))"

text \<open>\<^verbatim>\<open>while (len-- && buf < last - 1)\<close>: reads a byte only when both tests pass.\<close>

fun sprintf_hex_n ::
  "char list \<Rightarrow> char list \<Rightarrow> nat \<Rightarrow> nat \<Rightarrow> char list \<Rightarrow> u64 \<Rightarrow> (char list \<times> nat) option" where
  "sprintf_hex_n tab mem buf lst [] len =
     (if len \<noteq> 0 \<and> buf < lst - 1 then None else Some (mem, buf))"
| "sprintf_hex_n tab mem buf lst (c # src) len =
     (if len \<noteq> 0 \<and> buf < lst - 1
      then do { (mem, buf) \<leftarrow> put_hex tab mem buf c;
                sprintf_hex_n tab mem buf lst src (len - 1) }
      else Some (mem, buf))"

definition ngx_sprintf_str ::
  "char list \<Rightarrow> nat \<Rightarrow> nat \<Rightarrow> char list \<Rightarrow> u64 \<Rightarrow> u64 \<Rightarrow> (char list \<times> nat) option" where
  "ngx_sprintf_str mem buf lst src len hexadecimal =
     (if hexadecimal = 0 then
        (if len = -1 then sprintf_str_z mem buf lst src
         else ngx_cpymem mem buf src (ngx_min (of_nat lst - of_nat buf) len))
      else let tab = (if hexadecimal = 1 then hex_lower else hex_upper)
           in if len = -1 then sprintf_hex_z tab mem buf lst src
              else sprintf_hex_n tab mem buf lst src len)"

subsection \<open>Reference printers\<close>

text \<open>The digits of a number, most significant first, and the number they denote.\<close>

function nat_digits :: "nat \<Rightarrow> nat \<Rightarrow> nat list" where
  "nat_digits b n = (if b < 2 \<or> n < b then [n] else nat_digits b (n div b) @ [n mod b])"
  by pat_completeness auto
termination
  by (relation "measure (\<lambda>(b, n). n)") auto

declare nat_digits.simps [simp del]

definition digits_value :: "nat \<Rightarrow> nat list \<Rightarrow> nat" where
  "digits_value b = foldl (\<lambda>a d. a * b + d) 0"

definition dec_char :: "nat \<Rightarrow> char" where
  "dec_char d = char_of (d + of_char (CHR ''0''))"

definition dec_string :: "nat \<Rightarrow> char list" where
  "dec_string n = map dec_char (nat_digits 10 n)"

definition hex_string :: "char list \<Rightarrow> nat \<Rightarrow> char list" where
  "hex_string tab n = map (\<lambda>d. tab ! d) (nat_digits 16 n)"

definition num_digits :: "nat \<Rightarrow> u64 \<Rightarrow> char list" where
  "num_digits n hexadecimal =
     (if hexadecimal = 0 then dec_string n
      else hex_string (if hexadecimal = 1 then hex_lower else hex_upper) n)"

definition pad_left :: "char \<Rightarrow> nat \<Rightarrow> char list \<Rightarrow> char list" where
  "pad_left z w ds = replicate (w - length ds) z @ ds"

definition num_string :: "nat \<Rightarrow> char \<Rightarrow> u64 \<Rightarrow> u64 \<Rightarrow> char list" where
  "num_string n zero hexadecimal width = pad_left zero (unat width) (num_digits n hexadecimal)"

definition str_ok :: "char list \<Rightarrow> u64 \<Rightarrow> bool" where
  "str_ok src len = (if len = -1 then NUL \<in> set src else unat len \<le> length src)"

definition str_content :: "char list \<Rightarrow> u64 \<Rightarrow> char list" where
  "str_content src len =
     (if len = -1 then takeWhile (\<lambda>c. c \<noteq> NUL) src else take (unat len) src)"

definition str_pieces :: "char list \<Rightarrow> u64 \<Rightarrow> u64 \<Rightarrow> char list list" where
  "str_pieces src len hexadecimal =
     (if hexadecimal = 0 then singles (str_content src len)
      else map (hex_pair (if hexadecimal = 1 then hex_lower else hex_upper)) (str_content src len))"

lemma nat_digits_nonempty [simp]: "nat_digits b n \<noteq> []"
  by (subst nat_digits.simps) simp

lemma digits_value_snoc [simp]: "digits_value b (ds @ [d]) = digits_value b ds * b + d"
  by (simp add: digits_value_def)

lemma digits_value_nat_digits: "2 \<le> b \<Longrightarrow> digits_value b (nat_digits b n) = n"
proof (induction b n rule: nat_digits.induct)
  case (1 b n)
  show ?case
  proof (cases "n < b")
    case True
    then show ?thesis by (subst nat_digits.simps) (simp add: digits_value_def)
  next
    case False
    with 1 have "digits_value b (nat_digits b (n div b)) = n div b" by simp
    with False "1.prems" show ?thesis by (subst nat_digits.simps) simp
  qed
qed

lemma nat_digits_less: "2 \<le> b \<Longrightarrow> d \<in> set (nat_digits b n) \<Longrightarrow> d < b"
proof (induction b n rule: nat_digits.induct)
  case (1 b n)
  then show ?case by (subst (asm) nat_digits.simps) (auto split: if_splits)
qed

lemma length_nat_digits: "2 \<le> b \<Longrightarrow> n < b ^ Suc k \<Longrightarrow> length (nat_digits b n) \<le> Suc k"
proof (induction k arbitrary: n)
  case 0
  then show ?case by (subst nat_digits.simps) simp
next
  case (Suc k)
  show ?case
  proof (cases "n < b")
    case True
    then show ?thesis by (subst nat_digits.simps) simp
  next
    case False
    have "n div b < b ^ Suc k"
      using Suc.prems by (simp add: less_mult_imp_div_less mult.commute)
    with Suc.IH [of "n div b"] Suc.prems False show ?thesis
      by (subst nat_digits.simps) simp
  qed
qed

lemma length_dec_64: "n < 2 ^ 64 \<Longrightarrow> length (nat_digits 10 n) \<le> 20"
  using length_nat_digits [of 10 n 19] by simp

lemma length_hex_64: "n < 2 ^ 64 \<Longrightarrow> length (nat_digits 16 n) \<le> 16"
  using length_nat_digits [of 16 n 15] by simp

subsection \<open>The printing loops against the reference\<close>

lemma unat_10:
  "4 \<le> LENGTH('a::len) \<Longrightarrow> unat (10 :: 'a word) = 10"
proof -
  assume "4 \<le> LENGTH('a)"
  then have "(2::nat) ^ 4 \<le> 2 ^ LENGTH('a)" by (rule power_increasing) simp
  then show ?thesis by (simp add: take_bit_eq_mod unsigned_numeral)
qed

lemma unat_div_10: "4 \<le> LENGTH('a::len) \<Longrightarrow> unat (ui div 10 :: 'a word) = unat ui div 10"
  by (simp only: unat_div_distrib unat_10)

lemma unat_mod_10: "4 \<le> LENGTH('a::len) \<Longrightarrow> unat (ui mod 10 :: 'a word) = unat ui mod 10"
  by (simp only: unat_mod_distrib unat_10)

lemma sprintf_dec_eq:
  fixes ui :: "'a::len word"
  assumes "4 \<le> LENGTH('a)" and "length p + length (nat_digits 10 (unat ui)) \<le> 20"
  shows "sprintf_dec ui p = Some (dec_string (unat ui) @ p)"
  using assms
proof (induction ui p rule: sprintf_dec.induct)
  case (1 ui p)
  let ?c = "dec_char (unat (ui mod 10))"
  have m: "unat (ui mod 10) = unat ui mod 10" and d: "unat (ui div 10) = unat ui div 10"
    using "1.prems"(1) by (rule unat_mod_10, rule unat_div_10)
  have room: "\<not> 20 \<le> length p"
    using "1.prems"(2) nat_digits_nonempty [of 10 "unat ui"]
    by (cases "nat_digits 10 (unat ui)") auto
  show ?case
  proof (cases "ui div 10 = 0")
    case True
    then have "unat ui div 10 = 0" using d by simp
    then have small: "unat ui < 10" by simp
    with True room m show ?thesis
      by (subst sprintf_dec.simps, subst nat_digits.simps [of 10 "unat ui"] | simp add: Let_def ngx_consts dec_string_def dec_char_def)+
  next
    case False
    then have nz: "unat ui div 10 \<noteq> 0" using d by (metis unat_eq_zero)
    then have big: "nat_digits 10 (unat ui) = nat_digits 10 (unat ui div 10) @ [unat ui mod 10]"
      by (subst nat_digits.simps) auto
    from False room have step: "sprintf_dec ui p = sprintf_dec (ui div 10) (?c # p)"
      by (subst sprintf_dec.simps) (simp add: Let_def ngx_consts dec_char_def)
    have "sprintf_dec (ui div 10) (?c # p) = Some (dec_string (unat (ui div 10)) @ ?c # p)"
      using "1.IH" [OF _ refl refl False] "1.prems" room big
      by (simp add: ngx_consts dec_char_def d)
    then show ?thesis using step big by (simp add: dec_string_def d m)
  qed
qed

lemma unat_nibble: "unat (ui AND 0xf :: u64) = unat ui mod 16"
proof -
  have "ui AND 0xf = take_bit 4 ui" by (simp add: take_bit_eq_mask mask_eq_decr_exp)
  then show ?thesis by (simp add: take_bit_eq_mod unat_mod_distrib)
qed

lemma unat_shift_4: "unat (drop_bit 4 ui :: u64) = unat ui div 16"
  by (simp add: drop_bit_eq_div unat_div_distrib)

lemma sprintf_hex_eq:
  assumes "length p + length (nat_digits 16 (unat ui)) \<le> 20"
  shows "sprintf_hex tab ui p = Some (hex_string tab (unat ui) @ p)"
  using assms
proof (induction tab ui p rule: sprintf_hex.induct)
  case (1 tab ui p)
  let ?c = "tab ! (unat ui mod 16)"
  have room: "\<not> 20 \<le> length p"
    using "1.prems" nat_digits_nonempty [of 16 "unat ui"]
    by (cases "nat_digits 16 (unat ui)") auto
  show ?case
  proof (cases "drop_bit 4 ui = 0")
    case True
    then have "unat ui div 16 = 0" by (metis unat_shift_4 unat_0)
    then have "nat_digits 16 (unat ui) = [unat ui]" and "unat ui mod 16 = unat ui"
      by (subst nat_digits.simps, simp_all)
    with True room show ?thesis
      by (simp add: sprintf_hex.simps [of tab ui] Let_def ngx_consts hex_string_def unat_nibble)
  next
    case False
    then have nz: "unat ui div 16 \<noteq> 0" by (metis unat_shift_4 unat_eq_zero)
    then have big: "nat_digits 16 (unat ui) = nat_digits 16 (unat ui div 16) @ [unat ui mod 16]"
      by (subst nat_digits.simps) auto
    from False room have step: "sprintf_hex tab ui p = sprintf_hex tab (drop_bit 4 ui) (?c # p)"
      by (subst sprintf_hex.simps) (simp add: Let_def ngx_consts unat_nibble)
    have "sprintf_hex tab (drop_bit 4 ui) (?c # p)
        = Some (hex_string tab (unat ui div 16) @ ?c # p)"
      using "1.IH" [OF _ refl refl False] "1.prems" room big
      by (simp add: ngx_consts unat_nibble unat_shift_4)
    then show ?thesis using step big by (simp add: hex_string_def)
  qed
qed

text \<open>The two decimal branches and the two hex branches print the reference digits.\<close>

lemma sprintf_digits:
  "(if hexadecimal = 0 then
      (if ui64 \<le> ucast NGX_MAX_UINT32_VALUE then sprintf_dec (ucast ui64 :: u32) []
       else sprintf_dec ui64 [])
    else if hexadecimal = 1 then sprintf_hex hex_lower ui64 []
    else sprintf_hex hex_upper ui64 []) = Some (num_digits (unat ui64) hexadecimal)"
proof -
  have d64: "sprintf_dec ui64 [] = Some (dec_string (unat ui64))"
    using sprintf_dec_eq [of "[]" ui64] length_dec_64 [of "unat ui64"]
    by simp
  have hex: "sprintf_hex tab ui64 [] = Some (hex_string tab (unat ui64))" for tab
    using sprintf_hex_eq [of "[]" ui64 tab] length_hex_64 [of "unat ui64"]
    by simp
  have d32: "sprintf_dec (ucast ui64 :: u32) [] = Some (dec_string (unat ui64))"
    if "ui64 \<le> ucast NGX_MAX_UINT32_VALUE"
  proof -
    have "unat ui64 \<le> 0xffffffff"
      using that by (simp add: NGX_MAX_UINT32_VALUE_def word_le_nat_alt)
    then have u: "unat (ucast ui64 :: u32) = unat ui64"
      by (simp add: unsigned_ucast_eq take_bit_nat_eq_self_iff)
    then show ?thesis
      using sprintf_dec_eq [of "[]" "ucast ui64 :: u32"] length_dec_64 [of "unat ui64"] by simp
  qed
  show ?thesis using d64 hex d32 by (simp add: num_digits_def)
qed

lemma length_num_digits: "n < 2 ^ 64 \<Longrightarrow> length (num_digits n h) \<le> 20"
  using length_dec_64 [of n] length_hex_64 [of n]
  by (auto simp: num_digits_def dec_string_def hex_string_def)

lemma sprintf_pad_eq:
  "buf \<le> lst \<Longrightarrow> lst \<le> length mem \<Longrightarrow>
   sprintf_pad mem buf lst len width zero =
     (let k = min (unat width - unat len) (lst - buf)
      in Some (patch mem buf (replicate k zero), buf + k))"
proof (induction mem buf lst len width zero rule: sprintf_pad.induct)
  case (1 mem buf lst len width zero)
  show ?case
  proof (cases "len < width \<and> buf < lst")
    case True
    then have b: "buf < length mem" and lw: "unat len < unat width"
      using "1.prems" by (auto simp: word_less_nat_alt)
    then have l1: "unat (len + 1) = unat len + 1"
      using True unat_plus_1 [of len width] by simp
    define k where "k = min (unat width - unat (len + 1)) (lst - (buf + 1))"
    have k: "min (unat width - unat len) (lst - buf) = Suc k"
      using True lw l1 by (auto simp: k_def min_def)
    have "k \<le> lst - (buf + 1)" by (simp add: k_def)
    then have kb: "buf + Suc k \<le> length mem" using True "1.prems" by arith
    have "sprintf_pad mem buf lst len width zero =
        sprintf_pad (patch mem buf [zero]) (buf + 1) lst (len + 1) width zero"
      using True b by (subst sprintf_pad.simps) (simp add: poke_patch)
    also have "\<dots> = Some (patch (patch mem buf [zero]) (buf + 1) (replicate k zero), buf + 1 + k)"
      using "1.IH" [of "patch mem buf [zero]"] True b "1.prems"
      by (simp add: Let_def k_def poke_patch)
    also have "\<dots> = Some (patch mem buf (replicate (Suc k) zero), buf + Suc k)"
      using patch_Cons [of buf "replicate k zero" mem zero] kb by simp
    finally show ?thesis by (simp only: k Let_def)
  next
    case False
    then have "min (unat width - unat len) (lst - buf) = 0"
      using "1.prems" by (auto simp: word_less_nat_alt)
    with False show ?thesis by (subst sprintf_pad.simps) auto
  qed
qed

subsection \<open>The contract of a bounded writer\<close>

text \<open>
  \<open>w mem buf lst\<close> writes at \<open>buf\<close> and stops at \<open>lst\<close>, both positions of the object \<open>mem\<close>;
  provided its sources are readable (\<open>ok\<close>) it is defined and leaves exactly those of its
  \<open>pieces\<close> that fit.
\<close>

locale bounded_writer =
  fixes ok :: bool
    and w :: "char list \<Rightarrow> nat \<Rightarrow> nat \<Rightarrow> (char list \<times> nat) option"
    and pieces :: "char list list"
  assumes writes: "ok \<Longrightarrow> span mem buf lst \<Longrightarrow>
    w mem buf lst = Some (patch mem buf (fill (lst - buf) pieces),
                          buf + length (fill (lst - buf) pieces))"
begin

lemma returns:
  assumes "ok" "span mem buf lst"
  obtains mem' buf' where "w mem buf lst = Some (mem', buf')"
  using writes [OF assms] by blast

lemma pointer_bounds:
  assumes "ok" "span mem buf lst" "w mem buf lst = Some (mem', buf')"
  shows "buf \<le> buf' \<and> buf' \<le> lst"
  using writes [OF assms(1,2)] assms(2,3) length_fill [of "lst - buf" pieces]
  by (auto simp: span_def)

lemma frame:
  assumes "ok" "span mem buf lst" "w mem buf lst = Some (mem', buf')"
  shows "length mem' = length mem \<and> (\<forall>j. j < buf \<or> buf' \<le> j \<longrightarrow> mem' ! j = mem ! j)"
  using writes [OF assms(1,2)] assms(2,3) length_fill [of "lst - buf" pieces]
  by (auto simp: span_def intro: nth_patch_outside)

lemma emitted:
  assumes "ok" "span mem buf lst" "w mem buf lst = Some (mem', buf')"
  shows "take (buf' - buf) (drop buf mem') = fill (lst - buf) pieces"
  using writes [OF assms(1,2)] assms(2,3) length_fill [of "lst - buf" pieces]
  by (auto simp: span_def intro: patch_read)

end

text \<open>Two writers one after the other are a writer of the pieces of both.\<close>

locale writer_pair = fst: bounded_writer ok1 w1 pieces1 + snd: bounded_writer ok2 w2 pieces2
  for ok1 w1 pieces1 ok2 w2 pieces2
begin

lemma pair_writes:
  assumes "ok1 \<and> ok2" "span mem buf lst"
  shows "do { (mem, buf) \<leftarrow> w1 mem buf lst; w2 mem buf lst } =
    Some (patch mem buf (fill (lst - buf) (pieces1 @ pieces2)),
          buf + length (fill (lst - buf) (pieces1 @ pieces2)))"
proof -
  let ?f = "fill (lst - buf) pieces1"
  let ?g = "fill (lst - (buf + length ?f)) pieces2"
  have f: "length ?f \<le> lst - buf" by (rule length_fill)
  have g: "length ?g \<le> lst - (buf + length ?f)" by (rule length_fill)
  have app: "fill (lst - buf) (pieces1 @ pieces2) = ?f @ ?g"
    by (simp add: fill_append diff_diff_left)
  have "w2 (patch mem buf ?f) (buf + length ?f) lst =
      Some (patch (patch mem buf ?f) (buf + length ?f) ?g, buf + length ?f + length ?g)"
    using assms f by (intro snd.writes span_advance) auto
  moreover have "buf + length ?f + length ?g \<le> length mem"
    using assms(2) f g unfolding span_def by arith
  ultimately show ?thesis
    using assms fst.writes [of mem buf lst] by (simp add: app patch_append)
qed

end

sublocale writer_pair \<subseteq> pair: bounded_writer "ok1 \<and> ok2"
  "\<lambda>mem buf lst. do { (mem, buf) \<leftarrow> w1 mem buf lst; w2 mem buf lst }" "pieces1 @ pieces2"
  by unfold_locales (rule pair_writes)

text \<open>\<open>ngx_sprintf_num\<close> is a bounded writer of the padded digits.\<close>

lemma cpymem_take:
  "buf + unat n \<le> length mem \<Longrightarrow> unat n \<le> length src \<Longrightarrow>
   ngx_cpymem mem buf src n = Some (patch mem buf (take (unat n) src), buf + unat n)"
  by (simp add: ngx_cpymem_def)

lemma unat_ptr_diff:
  assumes "buf \<le> lst" "lst - buf < 2 ^ 64"
  shows "unat (of_nat lst - of_nat buf :: u64) = lst - buf"
proof -
  have "of_nat lst - of_nat buf = (of_nat (lst - buf) :: u64)"
    using assms(1) by (simp add: of_nat_diff)
  then show ?thesis using assms(2) by (simp add: unat_of_nat_64)
qed

lemma sprintf_num_writes:
  assumes "buf \<le> lst" "lst \<le> length mem"
  shows "ngx_sprintf_num mem buf lst ui64 zero hexadecimal width =
    (let out = take (lst - buf) (num_string (unat ui64) zero hexadecimal width)
     in Some (patch mem buf out, buf + length out))"
proof -
  define ds where "ds = num_digits (unat ui64) hexadecimal"
  define k where "k = min (unat width - length ds) (lst - buf)"
  define m where "m = min (length ds) (lst - (buf + k))"
  define n :: u64 where
    "n = (if lst < buf + k + length ds then of_nat lst - of_nat (buf + k) else of_nat (length ds))"
  have ds20: "length ds \<le> 20" unfolding ds_def by (rule length_num_digits) simp
  then have uds: "unat (of_nat (length ds) :: u64) = length ds" by (simp add: unat_of_nat_64)
  have kl: "buf + k \<le> lst" using assms by (simp add: k_def)
  have n: "unat n = m"
    using kl ds20 uds unat_ptr_diff [of "buf + k" lst] by (auto simp: n_def m_def)
  have pad: "sprintf_pad mem buf lst (of_nat (length ds)) width zero =
      Some (patch mem buf (replicate k zero), buf + k)"
    using assms by (simp add: sprintf_pad_eq uds k_def Let_def)
  have out: "take (lst - buf) (num_string (unat ui64) zero hexadecimal width) =
      replicate k zero @ take m ds"
    using kl by (auto simp: num_string_def pad_left_def ds_def [symmetric] k_def m_def min_def)
  have "ngx_sprintf_num mem buf lst ui64 zero hexadecimal width =
      ngx_cpymem (patch mem buf (replicate k zero)) (buf + k) ds n"
    by (simp add: ngx_sprintf_num_def sprintf_digits ds_def [symmetric] pad n_def Let_def)
  also have "\<dots> = Some (patch (patch mem buf (replicate k zero)) (buf + k) (take m ds), buf + k + m)"
    using kl assms by (subst cpymem_take) (auto simp: n m_def)
  also have "\<dots> = Some (patch mem buf (replicate k zero @ take m ds), buf + k + m)"
    using patch_append [of buf "replicate k zero" "take m ds" mem] kl assms by (simp add: m_def)
  finally show ?thesis by (simp add: out m_def)
qed

interpretation num: bounded_writer True
  "\<lambda>mem buf lst. ngx_sprintf_num mem buf lst ui64 zero hexadecimal width"
  "singles (num_string (unat ui64) zero hexadecimal width)"
  for ui64 zero hexadecimal width
  by unfold_locales (simp add: sprintf_num_writes Let_def span_def)

text \<open>\<open>ngx_sprintf_str\<close> is a bounded writer of the bytes, or of the hex pairs, of its source.\<close>

lemma length_hex_pair [simp]: "length (hex_pair tab c) = 2"
  by (simp add: hex_pair_def)

lemma put_hex_patch:
  "buf + 2 \<le> length mem \<Longrightarrow> put_hex tab mem buf c = Some (patch mem buf (hex_pair tab c), buf + 2)"
  by (simp add: put_hex_def poke_patch hex_pair_def patch_Cons)

lemma fill_hex_full: "r \<le> 1 \<Longrightarrow> fill r (map (hex_pair tab) cs) = []"
  by (rule fill_none) auto

lemma sprintf_str_z_writes:
  "NUL \<in> set src \<Longrightarrow> buf \<le> lst \<Longrightarrow> lst \<le> length mem \<Longrightarrow>
   sprintf_str_z mem buf lst src =
     (let out = take (lst - buf) (takeWhile (\<lambda>c. c \<noteq> NUL) src)
      in Some (patch mem buf out, buf + length out))"
proof (induction mem buf lst src rule: sprintf_str_z.induct)
  case (2 mem buf lst c src)
  show ?case
  proof (cases "c \<noteq> NUL \<and> buf < lst")
    case True
    have nul: "NUL \<in> set src" using True "2.prems" by auto
    define out where "out = take (lst - (buf + 1)) (takeWhile (\<lambda>c. c \<noteq> NUL) src)"
    have "length out \<le> lst - (buf + 1)" by (simp add: out_def)
    then have fits: "buf + Suc (length out) \<le> length mem" using True "2.prems" by arith
    have diff: "lst - buf = Suc (lst - (buf + 1))" using True by arith
    have out: "take (lst - buf) (takeWhile (\<lambda>c. c \<noteq> NUL) (c # src)) = c # out"
      using True diff by (simp add: out_def)
    have "sprintf_str_z (patch mem buf [c]) (buf + 1) lst src =
        Some (patch (patch mem buf [c]) (buf + 1) out, buf + 1 + length out)"
      using "2.IH" [of "patch mem buf [c]"] True nul "2.prems" by (simp add: poke_patch out_def Let_def)
    then show ?thesis using True "2.prems" fits
      by (simp add: poke_patch out patch_Cons Let_def del: takeWhile.simps)
  next
    case False
    then show ?thesis by (auto simp: Let_def)
  qed
qed simp

lemma sprintf_hex_z_writes:
  "NUL \<in> set src \<Longrightarrow> buf \<le> lst \<Longrightarrow> lst \<le> length mem \<Longrightarrow>
   sprintf_hex_z tab mem buf lst src =
     (let out = fill (lst - buf) (map (hex_pair tab) (takeWhile (\<lambda>c. c \<noteq> NUL) src))
      in Some (patch mem buf out, buf + length out))"
proof (induction tab mem buf lst src rule: sprintf_hex_z.induct)
  case (2 tab mem buf lst c src)
  show ?case
  proof (cases "c \<noteq> NUL \<and> buf < lst - 1")
    case True
    define out where
      "out = fill (lst - (buf + 2)) (map (hex_pair tab) (takeWhile (\<lambda>c. c \<noteq> NUL) src))"
    let ?m = "patch mem buf (hex_pair tab c)"
    have nul: "NUL \<in> set src" using True "2.prems" by auto
    have b2: "buf + 2 \<le> lst" using True by arith
    have "length out \<le> lst - (buf + 2)" unfolding out_def by (rule length_fill)
    then have fits: "buf + 2 + length out \<le> length mem" using True "2.prems" by arith
    have out: "fill (lst - buf) (map (hex_pair tab) (takeWhile (\<lambda>c. c \<noteq> NUL) (c # src)))
        = hex_pair tab c @ out"
      using True by (auto simp: out_def)
    have put: "put_hex tab mem buf c = Some (?m, buf + 2)" using fits by (simp add: put_hex_patch)
    have "sprintf_hex_z tab ?m (buf + 2) lst src = Some (patch ?m (buf + 2) out, buf + 2 + length out)"
      using "2.IH" [OF True put refl] nul "2.prems" fits b2 by (simp add: out_def Let_def)
    also have "\<dots> = Some (patch mem buf (hex_pair tab c @ out), buf + 2 + length out)"
      using patch_append [of buf "hex_pair tab c" out mem] fits by simp
    finally show ?thesis using True by (simp add: put out Let_def del: takeWhile.simps)
  next
    case False
    then have "fill (lst - buf) (map (hex_pair tab) (takeWhile (\<lambda>c. c \<noteq> NUL) (c # src))) = []"
      by (cases "c = NUL") (simp, rule fill_hex_full, arith)
    with False show ?thesis by (auto simp add: Let_def simp del: takeWhile.simps list.map fill.simps)
  qed
qed simp

lemma sprintf_hex_n_writes:
  "unat len \<le> length src \<Longrightarrow> buf \<le> lst \<Longrightarrow> lst \<le> length mem \<Longrightarrow>
   sprintf_hex_n tab mem buf lst src len =
     (let out = fill (lst - buf) (map (hex_pair tab) (take (unat len) src))
      in Some (patch mem buf out, buf + length out))"
proof (induction tab mem buf lst src len rule: sprintf_hex_n.induct)
  case (1 tab mem buf lst len)
  then show ?case by (simp add: unat_eq_zero)
next
  case (2 tab mem buf lst c src len)
  show ?case
  proof (cases "len \<noteq> 0 \<and> buf < lst - 1")
    case True
    define out where
      "out = fill (lst - (buf + 2)) (map (hex_pair tab) (take (unat (len - 1)) src))"
    let ?m = "patch mem buf (hex_pair tab c)"
    obtain n where n: "unat len = Suc n" using True by (cases "unat len") (auto simp: unat_eq_zero)
    then have n1: "unat (len - 1) = n" using True by (simp add: unat_minus_1)
    have b2: "buf + 2 \<le> lst" using True by arith
    have "length out \<le> lst - (buf + 2)" unfolding out_def by (rule length_fill)
    then have fits: "buf + 2 + length out \<le> length mem" using True "2.prems" by arith
    have out: "fill (lst - buf) (map (hex_pair tab) (take (unat len) (c # src)))
        = hex_pair tab c @ out"
      using True by (auto simp: out_def n n1)
    have put: "put_hex tab mem buf c = Some (?m, buf + 2)" using fits by (simp add: put_hex_patch)
    have "sprintf_hex_n tab ?m (buf + 2) lst src (len - 1) =
        Some (patch ?m (buf + 2) out, buf + 2 + length out)"
      using "2.IH" [OF True put refl] True "2.prems" fits n n1 b2 by (simp add: out_def Let_def)
    also have "\<dots> = Some (patch mem buf (hex_pair tab c @ out), buf + 2 + length out)"
      using patch_append [of buf "hex_pair tab c" out mem] fits by simp
    finally show ?thesis using True by (simp add: put out Let_def del: take_Cons)
  next
    case False
    then have "fill (lst - buf) (map (hex_pair tab) (take (unat len) (c # src))) = []"
      by (cases "len = 0") (simp, rule fill_hex_full, arith)
    with False show ?thesis by (auto simp add: Let_def simp del: list.map fill.simps)
  qed
qed

lemma sprintf_str_writes:
  assumes ok: "str_ok src len" and sp: "span mem buf lst"
  shows "ngx_sprintf_str mem buf lst src len hexadecimal =
    (let out = fill (lst - buf) (str_pieces src len hexadecimal)
     in Some (patch mem buf out, buf + length out))"
proof -
  note s = sp [unfolded span_def]
  show ?thesis
  proof (cases "len = -1")
    case True
    with ok s show ?thesis
      by (simp add: ngx_sprintf_str_def str_ok_def str_pieces_def str_content_def
          sprintf_str_z_writes sprintf_hex_z_writes Let_def)
  next
    case False
    define n where "n = ngx_min (of_nat lst - of_nat buf) len"
    have "lst - buf < 2 ^ 64" using s by arith
    then have n: "unat n = min (lst - buf) (unat len)"
      using s by (simp add: n_def unat_ptr_diff)
    have "ngx_cpymem mem buf src n = Some (patch mem buf (take (unat n) src), buf + unat n)"
      using ok False s by (intro cpymem_take) (auto simp: str_ok_def n)
    with False ok s show ?thesis
      by (simp add: ngx_sprintf_str_def str_ok_def str_pieces_def str_content_def
          sprintf_hex_n_writes Let_def n_def [symmetric] n take_take min.commute min.left_commute)
  qed
qed

interpretation str: bounded_writer "str_ok src len"
  "\<lambda>mem buf lst. ngx_sprintf_str mem buf lst src len hexadecimal"
  "str_pieces src len hexadecimal"
  for src len hexadecimal
  by unfold_locales (simp add: sprintf_str_writes Let_def)

subsection \<open>ngx_cpystrn copies at most n - 1 bytes and always terminates\<close>

lemma cpystrn_loop_eq:
  "n \<noteq> 0 \<Longrightarrow> NUL \<notin> set s \<Longrightarrow> dst + min (length s) (unat n - 1) < length mem \<Longrightarrow>
   cpystrn_loop mem dst (s @ NUL # rest) n =
     (let out = take (unat n - 1) s
      in Some (patch mem dst (out @ [NUL]), dst + length out))"
proof (induction s arbitrary: mem dst n)
  case Nil
  then show ?case by (simp add: poke_patch)
next
  case (Cons c s)
  show ?case
  proof (cases "n - 1 = 0")
    case True
    then have "unat n - 1 = 0" using Cons.prems(1) by (metis unat_minus_1 unat_0)
    with True Cons.prems show ?thesis by (simp add: poke_patch)
  next
    case False
    obtain k where k: "unat n = Suc (Suc k)"
      using False Cons.prems(1) unat_minus_1 [of n]
      by (cases "unat n"; cases "unat n - 1") (auto simp: unat_eq_zero)
    have k1: "unat (n - 1) = Suc k" using k Cons.prems(1) by (simp add: unat_minus_1)
    have fits: "dst + Suc (length (take k s @ [NUL])) \<le> length mem"
      using Cons.prems(3) k by simp
    have "cpystrn_loop (patch mem dst [c]) (dst + 1) (s @ NUL # rest) (n - 1) =
        Some (patch (patch mem dst [c]) (dst + 1) (take k s @ [NUL]), dst + 1 + length (take k s))"
      using Cons.IH [of "n - 1" "dst + 1" "patch mem dst [c]"] False Cons.prems k k1
      by (simp add: Let_def)
    then show ?thesis
      using False Cons.prems k fits patch_Cons [of dst "take k s @ [NUL]" mem c]
      by (auto simp: poke_patch)
  qed
qed

subsection \<open>Properties\<close>

definition dec_value :: "char list \<Rightarrow> nat" where
  "dec_value s = digits_value 10 (map (\<lambda>c. of_char c - of_char (CHR ''0'')) s)"

lemma of_char_dec_char: "d < 10 \<Longrightarrow> of_char (dec_char d) = (d + 48 :: nat)"
  by (simp add: dec_char_def of_char_of)

lemma dec_value_dec_string [simp]: "dec_value (dec_string n) = n"
proof -
  have "map (\<lambda>d. of_char (dec_char d) - (48::nat)) (nat_digits 10 n) = map (\<lambda>d. d) (nat_digits 10 n)"
    using nat_digits_less [of 10] by (intro map_cong) (simp_all add: of_char_dec_char)
  then show ?thesis
    by (simp add: dec_value_def dec_string_def comp_def digits_value_nat_digits)
qed

text \<open>
  \<open>ngx_sprintf_num\<close> writes, at the buffer position, the decimal or hex digits of the
  number padded on the left with the fill character to the requested width, cut at the end of
  the buffer; it is defined for every number, width and radix, changes nothing else and
  returns the position after what it wrote.
\<close>

theorem ngx_sprintf_num_correct:
  assumes "span mem buf lst"
  shows "ngx_sprintf_num mem buf lst ui64 zero hexadecimal width =
    (let out = take (lst - buf) (pad_left zero (unat width) (num_digits (unat ui64) hexadecimal))
     in Some (patch mem buf out, buf + length out))"
  using num.writes [OF TrueI assms] by (simp add: num_string_def Let_def)

theorem ngx_sprintf_num_correct_witness:
  "ngx_sprintf_num ''........'' 1 7 42 (CHR ''0'') 0 4 = Some (''.0042...'', 5)
   \<and> ngx_sprintf_num ''........'' 1 4 42 (CHR ''0'') 0 4 = Some (''.004....'', 4)"
proof -
  have "dec_string 42 = ''42''"
    by code_simp
  moreover have "replicate 2 (CHR ''0'') = ''00''" by (simp add: numeral_2_eq_2)
  ultimately show ?thesis
    using ngx_sprintf_num_correct [of "''........''" 1 7 42 "CHR ''0''" 0 4]
      ngx_sprintf_num_correct [of "''........''" 1 4 42 "CHR ''0''" 0 4]
    by (simp add: span_def num_digits_def pad_left_def patch_def)
qed

text \<open>
  The decimal loop never stores below the 20-byte scratch array, and reading its output
  back as a decimal number gives the number printed.
\<close>

theorem sprintf_dec_roundtrip:
  "\<exists>s. sprintf_dec (ui :: u64) [] = Some s \<and> length s \<le> NGX_INT64_LEN \<and> dec_value s = unat ui"
proof -
  have l: "length (nat_digits 10 (unat ui)) \<le> 20" by (rule length_dec_64) simp
  then have "sprintf_dec ui [] = Some (dec_string (unat ui))"
    using sprintf_dec_eq [of "[]" ui] by simp
  moreover have "length (dec_string (unat ui)) \<le> NGX_INT64_LEN"
    using l by (simp add: dec_string_def ngx_consts)
  ultimately show ?thesis by (metis dec_value_dec_string)
qed

text \<open>
  The 32-bit fast path of \<open>ngx_sprintf_num\<close> prints the same digits as the 64-bit loop for
  every number it is chosen for.
\<close>

theorem sprintf_dec_fast_path:
  assumes "ui64 \<le> ucast NGX_MAX_UINT32_VALUE"
  shows "sprintf_dec (ucast ui64 :: u32) [] = sprintf_dec (ui64 :: u64) []"
  using sprintf_digits [of 0 ui64] assms sprintf_dec_eq [of "[]" ui64] length_dec_64 [of "unat ui64"]
  by (simp add: num_digits_def)

theorem sprintf_dec_fast_path_witness:
  "sprintf_dec (ucast (4294967295 :: u64) :: u32) [] = sprintf_dec (4294967295 :: u64) []"
  by (rule sprintf_dec_fast_path) (simp add: NGX_MAX_UINT32_VALUE_def)

text \<open>
  The writer \<open>ngx_sprintf_str\<close>, for a counted or a NUL-terminated source and for all three output
  forms, emits the source bytes (or their two-digit hex forms, never half of one) as far as
  they fit, stays inside the buffer and changes no byte outside what it emitted.
\<close>

theorem ngx_sprintf_str_correct:
  assumes "str_ok src len" and "span mem buf lst"
  shows "\<exists>mem' buf'. ngx_sprintf_str mem buf lst src len hexadecimal = Some (mem', buf')
    \<and> buf \<le> buf' \<and> buf' \<le> lst \<and> length mem' = length mem
    \<and> take (buf' - buf) (drop buf mem') = fill (lst - buf) (str_pieces src len hexadecimal)
    \<and> (\<forall>j. j < buf \<or> buf' \<le> j \<longrightarrow> mem' ! j = mem ! j)"
proof -
  obtain mem' buf' where r: "ngx_sprintf_str mem buf lst src len hexadecimal = Some (mem', buf')"
    using str.returns [OF assms] .
  then show ?thesis
    using str.pointer_bounds [OF assms r] str.frame [OF assms r] str.emitted [OF assms r] by auto
qed

theorem ngx_sprintf_str_correct_witness:
  "\<exists>mem' buf'. ngx_sprintf_str ''.....'' 1 4 (''ab'' @ [NUL]) (-1) 1 = Some (mem', buf') \<and> buf' \<le> 4"
  using ngx_sprintf_str_correct [of "''ab'' @ [NUL]" "-1" "''.....''" 1 4 1]
  by (auto simp: str_ok_def span_def)

text \<open>
  \<open>ngx_cpystrn\<close> with a non-zero size copies at most one byte less than the size from a
  NUL-terminated source, always stores a terminator, writes nothing past it and returns a
  pointer to it.
\<close>

theorem ngx_cpystrn_correct:
  assumes "n \<noteq> 0" "NUL \<notin> set s" "dst + min (length s) (unat n - 1) < length mem"
  shows "ngx_cpystrn mem dst (s @ NUL # rest) n =
    (let out = take (unat n - 1) s in Some (patch mem dst (out @ [NUL]), dst + length out))"
  using cpystrn_loop_eq [OF assms] assms(1) by (simp add: ngx_cpystrn_def)

theorem ngx_cpystrn_correct_witness:
  "ngx_cpystrn ''........'' 2 (''abc'' @ NUL # []) 3 = Some (''..ab'' @ [NUL] @ ''...'', 4)"
  using ngx_cpystrn_correct [of 3 "''abc''" 2 "''........''" "[]"]
  by (simp add: patch_def)

end
