(* ===== verification/Ngx_Double.thy ===== *)
theory Ngx_Double
  imports Ngx_Prelude
begin

text \<open>
  The binary64 arithmetic that \<open>ngx_vslprintf\<close> uses for \<^verbatim>\<open>%f\<close>, as an executable model: a finite
  double is \<open>m * 2 ^ e\<close> with integer \<open>m\<close> and \<open>e\<close>, every operation computes exactly and then
  rounds to 53 significant bits, ties to even (the default rounding mode). The conversions
  to 64-bit integers truncate, and are undefined (\<open>None\<close>) outside the range of the type, as
  for infinities and NaN. The operations used here multiply by at least 1 and never leave
  the exponent range, so overflow to infinity and gradual underflow play no part.
\<close>

datatype double = Fin int int | Inf bool | NaN

fun bit_length :: "nat \<Rightarrow> nat" where
  "bit_length n = (if n = 0 then 0 else Suc (bit_length (n div 2)))"

declare bit_length.simps [simp del]

definition round_even :: "nat \<Rightarrow> nat \<Rightarrow> nat" where
  "round_even n k =
     (let q = n div 2 ^ k; r = n mod 2 ^ k; h = 2 ^ k div 2
      in if h < r \<or> (r = h \<and> 0 < k \<and> odd q) then q + 1 else q)"

definition d_round :: "int \<Rightarrow> int \<Rightarrow> double" where
  "d_round m e =
     (let k = bit_length (nat \<bar>m\<bar>) - 53
      in Fin (sgn m * int (round_even (nat \<bar>m\<bar>) k)) (e + int k))"

fun d_neg :: "double \<Rightarrow> double" where
  "d_neg (Fin m e) = Fin (- m) e"
| "d_neg (Inf s) = Inf (\<not> s)"
| "d_neg NaN = NaN"

text \<open>\<open>Inf True\<close> is minus infinity; a comparison with NaN is false.\<close>

fun d_less_0 :: "double \<Rightarrow> bool" where
  "d_less_0 (Fin m e) = (m < 0)"
| "d_less_0 (Inf s) = s"
| "d_less_0 NaN = False"

fun d_add :: "double \<Rightarrow> double \<Rightarrow> double" where
  "d_add (Fin m e) (Fin n f) =
     (let g = min e f in d_round (m * 2 ^ nat (e - g) + n * 2 ^ nat (f - g)) g)"
| "d_add (Inf s) (Inf t) = (if s = t then Inf s else NaN)"
| "d_add (Inf s) (Fin n f) = Inf s"
| "d_add (Fin m e) (Inf t) = Inf t"
| "d_add NaN y = NaN"
| "d_add x NaN = NaN"

fun d_mul :: "double \<Rightarrow> double \<Rightarrow> double" where
  "d_mul (Fin m e) (Fin n f) = d_round (m * n) (e + f)"
| "d_mul (Inf s) (Inf t) = Inf (s \<noteq> t)"
| "d_mul (Inf s) (Fin n f) = (if n = 0 then NaN else Inf (s \<noteq> (n < 0)))"
| "d_mul (Fin m e) (Inf t) = (if m = 0 then NaN else Inf (t \<noteq> (m < 0)))"
| "d_mul NaN y = NaN"
| "d_mul x NaN = NaN"

definition d_sub :: "double \<Rightarrow> double \<Rightarrow> double" where
  "d_sub x y = d_add x (d_neg y)"

definition d_of_u64 :: "u64 \<Rightarrow> double" where
  "d_of_u64 u = d_round (uint u) 0"

definition d_half :: double where "d_half = Fin 1 (-1)"

text \<open>Truncation towards zero of a finite value.\<close>

definition d_trunc :: "int \<Rightarrow> int \<Rightarrow> int" where
  "d_trunc m e = (if 0 \<le> e then m * 2 ^ nat e else sgn m * (\<bar>m\<bar> div 2 ^ nat (- e)))"

fun d_to_i64 :: "double \<Rightarrow> u64 option" where
  "d_to_i64 (Fin m e) =
     (let t = d_trunc m e in if - (2 ^ 63) \<le> t \<and> t < 2 ^ 63 then Some (word_of_int t) else None)"
| "d_to_i64 (Inf s) = None"
| "d_to_i64 NaN = None"

fun d_to_u64 :: "double \<Rightarrow> u64 option" where
  "d_to_u64 (Fin m e) =
     (let t = d_trunc m e in if 0 \<le> t \<and> t < 2 ^ 64 then Some (word_of_int t) else None)"
| "d_to_u64 (Inf s) = None"
| "d_to_u64 NaN = None"

end
