(* ===== verification/Ngx_Format.thy ===== *)
theory Ngx_Format
  imports Ngx_String Ngx_Double
begin

text \<open>
  \<open>ngx_vslprintf\<close> and \<open>ngx_slprintf\<close> of \<^verbatim>\<open>src/core/ngx_string.c\<close>: the parser of a format
  specification, the fetch of each argument kind, the printing of each directive and the
  main loop. \<open>fmt_pieces\<close> is the reference semantics of a format: the pieces of text it
  denotes, with numbers as mathematical integers; the main result is that the code is a
  bounded writer of these pieces.

  A format is the rest of a C string object (its last byte is the terminator); a variable
  argument list is a list of typed arguments, and fetching an argument of the wrong type or
  past the end is undefined.
\<close>

subsection \<open>Variable arguments\<close>

datatype varg =
    VInt u32                       \<comment> \<open>int, unsigned int, int32_t, pid_t\<close>
  | VLong u64                      \<comment> \<open>long, size_t, off_t, time_t, the 64-bit types\<close>
  | VDouble double
  | VPtr u64                       \<comment> \<open>void *\<close>
  | VCStr "char list"              \<comment> \<open>u_char *\<close>
  | VStr ngx_str_t                 \<comment> \<open>ngx_str_t *\<close>
  | VVar ngx_variable_value_t      \<comment> \<open>ngx_variable_value_t *\<close>

fun va_int :: "varg list \<Rightarrow> (u32 \<times> varg list) option" where
  "va_int (VInt a # args) = Some (a, args)"
| "va_int args = None"

fun va_long :: "varg list \<Rightarrow> (u64 \<times> varg list) option" where
  "va_long (VLong a # args) = Some (a, args)"
| "va_long args = None"

fun va_double :: "varg list \<Rightarrow> (double \<times> varg list) option" where
  "va_double (VDouble a # args) = Some (a, args)"
| "va_double args = None"

fun va_ptr :: "varg list \<Rightarrow> (u64 \<times> varg list) option" where
  "va_ptr (VPtr a # args) = Some (a, args)"
| "va_ptr args = None"

fun va_cstr :: "varg list \<Rightarrow> (char list \<times> varg list) option" where
  "va_cstr (VCStr a # args) = Some (a, args)"
| "va_cstr args = None"

fun va_str :: "varg list \<Rightarrow> (ngx_str_t \<times> varg list) option" where
  "va_str (VStr a # args) = Some (a, args)"
| "va_str args = None"

fun va_var :: "varg list \<Rightarrow> (ngx_variable_value_t \<times> varg list) option" where
  "va_var (VVar a # args) = Some (a, args)"
| "va_var args = None"

subsection \<open>Parsing a format specification\<close>

record fmt_spec =
  fs_zero :: char
  fs_width :: u64
  fs_sign :: bool
  fs_hex :: u64
  fs_max_width :: bool
  fs_frac_width :: u64
  fs_slen :: u64

definition is_digit :: "char \<Rightarrow> bool" where
  "is_digit c \<longleftrightarrow> (of_char (CHR ''0'') :: nat) \<le> of_char c \<and> (of_char c :: nat) \<le> of_char (CHR ''9'')"

fun parse_digits :: "u64 \<Rightarrow> char list \<Rightarrow> (u64 \<times> char list) option" where
  "parse_digits width [] = None"
| "parse_digits width (c # fmt) =
     (if is_digit c
      then parse_digits (width * 10 + of_nat (of_char c - of_char (CHR ''0''))) fmt
      else Some (width, c # fmt))"

fun parse_mods ::
  "fmt_spec \<Rightarrow> char list \<Rightarrow> varg list \<Rightarrow> (fmt_spec \<times> char list \<times> varg list) option" where
  "parse_mods s [] args = None"
| "parse_mods s (c # fmt) args =
     (if c = CHR ''u'' then parse_mods (s\<lparr>fs_sign := False\<rparr>) fmt args
      else if c = CHR ''m'' then parse_mods (s\<lparr>fs_max_width := True\<rparr>) fmt args
      else if c = CHR ''X'' then parse_mods (s\<lparr>fs_hex := 2, fs_sign := False\<rparr>) fmt args
      else if c = CHR ''x'' then parse_mods (s\<lparr>fs_hex := 1, fs_sign := False\<rparr>) fmt args
      else if c = CHR ''.'' then do {
        (n, fmt) \<leftarrow> parse_digits (fs_frac_width s) fmt;
        Some (s\<lparr>fs_frac_width := n\<rparr>, fmt, args) }
      else if c = CHR ''*'' then
        (case va_long args of None \<Rightarrow> None
         | Some (n, args) \<Rightarrow> parse_mods (s\<lparr>fs_slen := n\<rparr>) fmt args)
      else Some (s, c # fmt, args))"

text \<open>\<open>fmt\<close> is what follows the \<^verbatim>\<open>%\<close>.\<close>

definition parse_spec ::
  "char list \<Rightarrow> varg list \<Rightarrow> (fmt_spec \<times> char list \<times> varg list) option" where
  "parse_spec fmt args = (case fmt of [] \<Rightarrow> None | c # _ \<Rightarrow> do {
     let zero = (if c = CHR ''0'' then CHR ''0'' else CHR '' '');
     (width, fmt) \<leftarrow> parse_digits 0 fmt;
     parse_mods \<lparr>fs_zero = zero, fs_width = width, fs_sign = True, fs_hex = 0,
       fs_max_width = False, fs_frac_width = 0, fs_slen = -1\<rparr> fmt args })"

subsection \<open>Numbers\<close>

definition NGX_ATOMIC_T_LEN :: u64 where
  "NGX_ATOMIC_T_LEN = of_nat (length ''-9223372036854775808'')"

definition is_number :: "char \<Rightarrow> bool" where
  "is_number c \<longleftrightarrow> c \<in> set ''OPTMzidlDLArp''"

text \<open>The 64-bit directives whose argument is signed or unsigned by the \<^verbatim>\<open>u\<close> modifier.\<close>

definition fetch_long :: "fmt_spec \<Rightarrow> varg list \<Rightarrow> (u64 \<times> u64 \<times> varg list) option" where
  "fetch_long s args = do {
     (a, args) \<leftarrow> va_long args;
     Some (if fs_sign s then (a, 0, args) else (0, a, args)) }"

definition fetch_int :: "fmt_spec \<Rightarrow> varg list \<Rightarrow> (u64 \<times> u64 \<times> varg list) option" where
  "fetch_int s args = do {
     (a, args) \<leftarrow> va_int args;
     Some (if fs_sign s then (scast a, 0, args) else (0, ucast a, args)) }"

text \<open>The result is the updated specification, \<open>i64\<close>, \<open>ui64\<close> and the remaining arguments.\<close>

definition vsl_number ::
  "fmt_spec \<Rightarrow> char \<Rightarrow> varg list \<Rightarrow> (fmt_spec \<times> u64 \<times> u64 \<times> varg list) option" where
  "vsl_number s c args =
     (if c = CHR ''O'' \<or> c = CHR ''T'' \<or> c = CHR ''r'' then do {
        (a, args) \<leftarrow> va_long args;
        Some (s\<lparr>fs_sign := True\<rparr>, a, 0, args) }
      else if c = CHR ''P'' then do {
        (a, args) \<leftarrow> va_int args;
        Some (s\<lparr>fs_sign := True\<rparr>, scast a, 0, args) }
      else if c = CHR ''M'' then do {
        (ms, args) \<leftarrow> va_long args;
        Some (if sint ms = -1 then (s\<lparr>fs_sign := True\<rparr>, -1, 0, args)
              else (s\<lparr>fs_sign := False\<rparr>, 0, ms, args)) }
      else if c = CHR ''z'' \<or> c = CHR ''l'' \<or> c = CHR ''L'' then do {
        (i64, ui64, args) \<leftarrow> fetch_long s args;
        Some (s, i64, ui64, args) }
      else if c = CHR ''i'' then do {
        (i64, ui64, args) \<leftarrow> fetch_long s args;
        Some (if fs_max_width s then s\<lparr>fs_width := NGX_INT_T_LEN\<rparr> else s, i64, ui64, args) }
      else if c = CHR ''A'' then do {
        (i64, ui64, args) \<leftarrow> fetch_long s args;
        Some (if fs_max_width s then s\<lparr>fs_width := NGX_ATOMIC_T_LEN\<rparr> else s, i64, ui64, args) }
      else if c = CHR ''d'' \<or> c = CHR ''D'' then do {
        (i64, ui64, args) \<leftarrow> fetch_int s args;
        Some (s, i64, ui64, args) }
      else if c = CHR ''p'' then do {
        (a, args) \<leftarrow> va_ptr args;
        Some (s\<lparr>fs_hex := 2, fs_sign := False, fs_zero := CHR ''0'', fs_width := 2 * 8\<rparr>,
              0, a, args) }
      else None)"

text \<open>
  A negative number is negated before its digits are written. The negation of \<^verbatim>\<open>INT64_MIN\<close> overflows, which C leaves
  undefined; the definition has the two's complement wrap-around, whose digits are the right ones.
\<close>

definition vsl_print_num ::
  "fmt_spec \<Rightarrow> u64 \<Rightarrow> u64 \<Rightarrow> char list \<Rightarrow> nat \<Rightarrow> nat \<Rightarrow> (char list \<times> nat) option" where
  "vsl_print_num s i64 ui64 mem buf lst = do {
     (mem, buf, ui64) \<leftarrow>
       (if fs_sign s then
          (if sint i64 < 0 then do { mem \<leftarrow> poke mem buf (CHR ''-''); Some (mem, buf + 1, - i64) }
           else Some (mem, buf, i64))
        else Some (mem, buf, ui64));
     ngx_sprintf_num mem buf lst ui64 (fs_zero s) (fs_hex s) (fs_width s) }"

subsection \<open>Doubles\<close>

text \<open>\<^verbatim>\<open>for (n = frac_width; n; n--) scale *= 10;\<close>\<close>

fun scale_loop :: "nat \<Rightarrow> u64 \<Rightarrow> u64" where
  "scale_loop 0 scale = scale"
| "scale_loop (Suc n) scale = scale_loop n (scale * 10)"

text \<open>The integer part and the rounded fraction of a non-negative double.\<close>

definition vsl_double_parts :: "u64 \<Rightarrow> double \<Rightarrow> (u64 \<times> u64) option" where
  "vsl_double_parts frac_width f = do {
     ui64 \<leftarrow> d_to_i64 f;
     if frac_width \<noteq> 0 then do {
       let scale = scale_loop (unat frac_width) 1;
       frac \<leftarrow> d_to_u64 (d_add (d_mul (d_sub f (d_of_u64 ui64)) (d_of_u64 scale)) d_half);
       Some (if frac = scale then (ui64 + 1, 0) else (ui64, frac)) }
     else Some (ui64, 0) }"

definition vsl_double ::
  "fmt_spec \<Rightarrow> double \<Rightarrow> char list \<Rightarrow> nat \<Rightarrow> nat \<Rightarrow> (char list \<times> nat) option" where
  "vsl_double s f mem buf lst = do {
     (mem, buf, f) \<leftarrow>
       (if d_less_0 f then do { mem \<leftarrow> poke mem buf (CHR ''-''); Some (mem, buf + 1, d_neg f) }
        else Some (mem, buf, f));
     (ui64, frac) \<leftarrow> vsl_double_parts (fs_frac_width s) f;
     (mem, buf) \<leftarrow> ngx_sprintf_num mem buf lst ui64 (fs_zero s) 0 (fs_width s);
     if fs_frac_width s \<noteq> 0 then do {
       (mem, buf) \<leftarrow>
         (if buf < lst then do { mem \<leftarrow> poke mem buf (CHR ''.''); Some (mem, buf + 1) }
          else Some (mem, buf));
       ngx_sprintf_num mem buf lst frac (CHR ''0'') 0 (fs_frac_width s) }
     else Some (mem, buf) }"

subsection \<open>Directives and the main loop\<close>

text \<open>The letters that write one byte without a look at \<open>lst\<close>, and those that are not directives.\<close>

definition vsl_char :: "char \<Rightarrow> varg list \<Rightarrow> char list \<Rightarrow> nat \<Rightarrow> (char list \<times> nat \<times> varg list) option" where
  "vsl_char c args mem buf =
     (if c = CHR ''c'' then do {
        (d, args) \<leftarrow> va_int args;
        mem \<leftarrow> poke mem buf (char_of (unat (d AND 0xff)));
        Some (mem, buf + 1, args) }
      else if c = CHR ''Z'' then do { mem \<leftarrow> poke mem buf NUL; Some (mem, buf + 1, args) }
      else if c = CHR ''N'' then do { mem \<leftarrow> poke mem buf LF; Some (mem, buf + 1, args) }
      else if c = CHR ''%'' then do { mem \<leftarrow> poke mem buf (CHR ''%''); Some (mem, buf + 1, args) }
      else do { mem \<leftarrow> poke mem buf c; Some (mem, buf + 1, args) })"

text \<open>One type letter: the buffer and the position after it, the rest of format and arguments.\<close>

definition vsl_directive ::
  "fmt_spec \<Rightarrow> char list \<Rightarrow> varg list \<Rightarrow> char list \<Rightarrow> nat \<Rightarrow> nat \<Rightarrow>
   (char list \<times> nat \<times> char list \<times> varg list) option" where
  "vsl_directive s fmt args mem buf lst = (case fmt of [] \<Rightarrow> None | c # rest \<Rightarrow>
     (if c = CHR ''V'' then do {
        (v, args) \<leftarrow> va_str args;
        (mem, buf) \<leftarrow> ngx_sprintf_str mem buf lst (str_data v) (str_len v) (fs_hex s);
        Some (mem, buf, rest, args) }
      else if c = CHR ''v'' then do {
        (vv, args) \<leftarrow> va_var args;
        (mem, buf) \<leftarrow> ngx_sprintf_str mem buf lst (vv_data vv) (ucast (vv_len vv)) (fs_hex s);
        Some (mem, buf, rest, args) }
      else if c = CHR ''s'' then do {
        (p, args) \<leftarrow> va_cstr args;
        (mem, buf) \<leftarrow> ngx_sprintf_str mem buf lst p (fs_slen s) (fs_hex s);
        Some (mem, buf, rest, args) }
      else if is_number c then do {
        (s, i64, ui64, args) \<leftarrow> vsl_number s c args;
        (mem, buf) \<leftarrow> vsl_print_num s i64 ui64 mem buf lst;
        Some (mem, buf, rest, args) }
      else if c = CHR ''f'' then do {
        (f, args) \<leftarrow> va_double args;
        (mem, buf) \<leftarrow> vsl_double s f mem buf lst;
        Some (mem, buf, rest, args) }
      else do {
        (mem, buf, args) \<leftarrow> vsl_char c args mem buf;
        Some (mem, buf, rest, args) }))"

lemma parse_digits_shorter: "parse_digits w fmt = Some (w', fmt') \<Longrightarrow> length fmt' \<le> length fmt"
  by (induction w fmt rule: parse_digits.induct) (auto split: if_splits)

lemma parse_mods_shorter:
  "parse_mods s fmt args = Some (s', fmt', args') \<Longrightarrow> length fmt' \<le> length fmt"
proof (induction s fmt args rule: parse_mods.induct)
  case (2 s c fmt args)
  then show ?case
    by (auto split: if_splits option.splits Option.bind_splits
        dest!: parse_digits_shorter intro: le_SucI)
qed simp

lemma parse_spec_shorter:
  assumes "parse_spec fmt args = Some (s, fmt', args')"
  shows "length fmt' \<le> length fmt"
proof -
  obtain width fmt1 s0 where "parse_digits 0 fmt = Some (width, fmt1)"
    and "parse_mods s0 fmt1 args = Some (s, fmt', args')"
    using assms
    by (auto simp: parse_spec_def Let_def simp del: parse_digits.simps
        split: list.splits Option.bind_splits)
  then show ?thesis by (meson order_trans parse_digits_shorter parse_mods_shorter)
qed

lemma vsl_directive_shorter:
  "vsl_directive s fmt args mem buf lst = Some (mem', buf', fmt', args') \<Longrightarrow>
   length fmt' < length fmt"
  by (auto simp: vsl_directive_def vsl_char_def split: list.splits if_splits Option.bind_splits prod.splits)

function ngx_vslprintf ::
  "char list \<Rightarrow> nat \<Rightarrow> nat \<Rightarrow> char list \<Rightarrow> varg list \<Rightarrow> (char list \<times> nat) option" where
  "ngx_vslprintf mem buf lst fmt args = (case fmt of [] \<Rightarrow> None | c # rest \<Rightarrow>
     (if c \<noteq> NUL \<and> buf < lst then
        (if c = CHR ''%'' then
           (case parse_spec rest args of None \<Rightarrow> None
            | Some (s, fmt1, args1) \<Rightarrow>
                (case vsl_directive s fmt1 args1 mem buf lst of None \<Rightarrow> None
                 | Some (mem2, buf2, fmt2, args2) \<Rightarrow> ngx_vslprintf mem2 buf2 lst fmt2 args2))
         else
           (case poke mem buf c of None \<Rightarrow> None
            | Some mem1 \<Rightarrow> ngx_vslprintf mem1 (buf + 1) lst rest args))
      else Some (mem, buf)))"
  by pat_completeness auto
termination
  by (relation "measure (\<lambda>(mem, buf, lst, fmt, args). length fmt)")
    (auto dest!: parse_spec_shorter vsl_directive_shorter)

declare ngx_vslprintf.simps [simp del]

text \<open>\<open>ngx_slprintf\<close> collects its variable arguments and calls \<open>ngx_vslprintf\<close>.\<close>

definition ngx_slprintf ::
  "char list \<Rightarrow> nat \<Rightarrow> nat \<Rightarrow> char list \<Rightarrow> varg list \<Rightarrow> (char list \<times> nat) option" where
  "ngx_slprintf mem buf lst fmt args = ngx_vslprintf mem buf lst fmt args"

subsection \<open>Reference semantics\<close>

text \<open>
  A numeric directive denotes an integer and a layout; a negative integer is a minus sign
  followed by the padded digits of its absolute value.
\<close>

definition signed_long :: "fmt_spec \<Rightarrow> u64 \<Rightarrow> int" where
  "signed_long s a = (if fs_sign s then sint a else uint a)"

definition signed_int :: "fmt_spec \<Rightarrow> u32 \<Rightarrow> int" where
  "signed_int s a = (if fs_sign s then sint a else uint a)"

definition number_value ::
  "fmt_spec \<Rightarrow> char \<Rightarrow> varg list \<Rightarrow> (int \<times> char \<times> u64 \<times> u64 \<times> varg list) option" where
  "number_value s c args =
     (case args of [] \<Rightarrow> None | a # rest \<Rightarrow>
      (case a of
         VLong w \<Rightarrow>
           (if c \<in> set ''OTr'' then Some (sint w, fs_zero s, fs_hex s, fs_width s, rest)
            else if c = CHR ''M'' then
              Some (if w = -1 then -1 else uint w, fs_zero s, fs_hex s, fs_width s, rest)
            else if c \<in> set ''zlL'' then
              Some (signed_long s w, fs_zero s, fs_hex s, fs_width s, rest)
            else if c \<in> set ''iA'' then
              Some (signed_long s w, fs_zero s, fs_hex s,
                    if fs_max_width s then 20 else fs_width s, rest)
            else None)
       | VInt w \<Rightarrow>
           (if c = CHR ''P'' then Some (sint w, fs_zero s, fs_hex s, fs_width s, rest)
            else if c \<in> set ''dD'' then
              Some (signed_int s w, fs_zero s, fs_hex s, fs_width s, rest)
            else None)
       | VPtr w \<Rightarrow> (if c = CHR ''p'' then Some (uint w, CHR ''0'', 2, 16, rest) else None)
       | _ \<Rightarrow> None))"

definition number_text :: "int \<Rightarrow> char \<Rightarrow> u64 \<Rightarrow> u64 \<Rightarrow> char list" where
  "number_text v zero hex width =
     (if v < 0 then ''-'' else []) @ num_string (nat \<bar>v\<bar>) zero hex width"

definition double_text :: "fmt_spec \<Rightarrow> double \<Rightarrow> char list option" where
  "double_text s f = do {
     let neg = d_less_0 f;
     (n, frac) \<leftarrow> vsl_double_parts (fs_frac_width s) (if neg then d_neg f else f);
     Some ((if neg then ''-'' else []) @ num_string (unat n) (fs_zero s) 0 (fs_width s)
       @ (if fs_frac_width s \<noteq> 0
          then CHR ''.'' # num_string (unat frac) (CHR ''0'') 0 (fs_frac_width s) else [])) }"

definition string_pieces :: "char list \<Rightarrow> u64 \<Rightarrow> u64 \<Rightarrow> char list list option" where
  "string_pieces src len hex = (if str_ok src len then Some (str_pieces src len hex) else None)"

definition directive_pieces ::
  "fmt_spec \<Rightarrow> char list \<Rightarrow> varg list \<Rightarrow> (char list list \<times> char list \<times> varg list) option" where
  "directive_pieces s fmt args = (case fmt of [] \<Rightarrow> None | c # rest \<Rightarrow>
     (if c = CHR ''V'' then do {
        (v, args) \<leftarrow> va_str args;
        ps \<leftarrow> string_pieces (str_data v) (str_len v) (fs_hex s);
        Some (ps, rest, args) }
      else if c = CHR ''v'' then do {
        (vv, args) \<leftarrow> va_var args;
        ps \<leftarrow> string_pieces (vv_data vv) (ucast (vv_len vv)) (fs_hex s);
        Some (ps, rest, args) }
      else if c = CHR ''s'' then do {
        (p, args) \<leftarrow> va_cstr args;
        ps \<leftarrow> string_pieces p (fs_slen s) (fs_hex s);
        Some (ps, rest, args) }
      else if is_number c then do {
        (v, zero, hex, width, args) \<leftarrow> number_value s c args;
        Some (singles (number_text v zero hex width), rest, args) }
      else if c = CHR ''f'' then do {
        (f, args) \<leftarrow> va_double args;
        t \<leftarrow> double_text s f;
        Some (singles t, rest, args) }
      else if c = CHR ''c'' then do {
        (d, args) \<leftarrow> va_int args;
        Some ([[char_of (unat d mod 256)]], rest, args) }
      else if c = CHR ''Z'' then Some ([[NUL]], rest, args)
      else if c = CHR ''N'' then Some ([[LF]], rest, args)
      else Some ([[c]], rest, args)))"

lemma directive_pieces_shorter:
  "directive_pieces s fmt args = Some (ps, fmt', args') \<Longrightarrow> length fmt' < length fmt"
  by (auto simp: directive_pieces_def split: list.splits if_splits Option.bind_splits prod.splits)

function fmt_pieces :: "char list \<Rightarrow> varg list \<Rightarrow> char list list option" where
  "fmt_pieces fmt args = (case fmt of [] \<Rightarrow> None | c # rest \<Rightarrow>
     (if c = NUL then Some []
      else if c = CHR ''%'' then
        (case parse_spec rest args of None \<Rightarrow> None
         | Some (s, fmt1, args1) \<Rightarrow>
             (case directive_pieces s fmt1 args1 of None \<Rightarrow> None
              | Some (ps, fmt2, args2) \<Rightarrow> map_option ((@) ps) (fmt_pieces fmt2 args2)))
      else map_option ((#) [c]) (fmt_pieces rest args)))"
  by pat_completeness auto
termination
  by (relation "measure (\<lambda>(fmt, args). length fmt)")
    (auto dest!: parse_spec_shorter directive_pieces_shorter)

declare fmt_pieces.simps [simp del]

subsection \<open>The code prints the reference pieces\<close>

lemma is_number_cases:
  "is_number c \<longleftrightarrow> c = CHR ''O'' \<or> c = CHR ''P'' \<or> c = CHR ''T'' \<or> c = CHR ''M'' \<or> c = CHR ''z''
    \<or> c = CHR ''i'' \<or> c = CHR ''d'' \<or> c = CHR ''l'' \<or> c = CHR ''D'' \<or> c = CHR ''L'' \<or> c = CHR ''A''
    \<or> c = CHR ''r'' \<or> c = CHR ''p''"
  by (simp add: is_number_def)

lemma sint_eq_minus_1: "sint (w :: u64) = -1 \<longleftrightarrow> w = -1"
proof
  assume "sint w = -1"
  then have "word_of_int (sint w) = (word_of_int (-1) :: u64)" by simp
  then show "w = -1" by simp
qed simp

text \<open>\<open>i64\<close> and \<open>ui64\<close> hold the integer \<open>v\<close>, by the sign flag.\<close>

definition holds_number :: "fmt_spec \<Rightarrow> u64 \<Rightarrow> u64 \<Rightarrow> int \<Rightarrow> bool" where
  "holds_number s i64 ui64 v \<longleftrightarrow> (if fs_sign s then sint i64 = v else uint ui64 = v)"

lemmas number_defs = number_value_def vsl_number_def fetch_int_def fetch_long_def signed_int_def
  signed_long_def holds_number_def NGX_ATOMIC_T_LEN_def ngx_consts

lemma vsl_number_correct:
  assumes "number_value s c args = Some (v, zero, hex, width, args')" and "is_number c"
  obtains s' i64 ui64 where "vsl_number s c args = Some (s', i64, ui64, args')"
    "fs_zero s' = zero" "fs_hex s' = hex" "fs_width s' = width" "holds_number s' i64 ui64 v"
proof -
  obtain a rest where args: "args = a # rest"
    using assms(1) by (cases args) (auto simp: number_value_def)
  have "\<exists>s' i64 ui64. vsl_number s c args = Some (s', i64, ui64, args') \<and> fs_zero s' = zero
      \<and> fs_hex s' = hex \<and> fs_width s' = width \<and> holds_number s' i64 ui64 v"
  proof (cases a)
    case (VInt w)
    with assms(2) show ?thesis
      using assms(1) unfolding args is_number_cases
      by (elim disjE) (simp_all add: number_defs sint_scast_64 uint_ucast_64 split: if_splits)
  next
    case (VLong w)
    with assms(2) show ?thesis
      using assms(1) unfolding args is_number_cases
      by (elim disjE) (simp_all add: number_defs sint_eq_minus_1 split: if_splits)
  next
    case (VPtr w)
    with assms(2) show ?thesis
      using assms(1) unfolding args is_number_cases
      by (elim disjE) (simp_all add: number_defs)
  qed (use assms(1) args in \<open>simp_all add: number_value_def\<close>)
  with that show thesis by blast
qed

text \<open>What a piece of code that emitted \<open>out\<close> at \<open>buf\<close> returns.\<close>

definition wrote :: "char list \<Rightarrow> nat \<Rightarrow> char list \<Rightarrow> char list \<times> nat" where
  "wrote mem buf out = (patch mem buf out, buf + length out)"

lemma wrote_then:
  assumes "span mem buf lst" "length xs + length ys \<le> lst - buf"
  shows "wrote (patch mem buf xs) (buf + length xs) ys = wrote mem buf (xs @ ys)"
proof -
  have "buf + length xs + length ys \<le> length mem" using assms unfolding span_def by arith
  then show ?thesis by (simp add: wrote_def patch_append)
qed

lemma sprintf_num_wrote:
  "span mem buf lst \<Longrightarrow> ngx_sprintf_num mem buf lst ui64 zero hex width =
   Some (wrote mem buf (take (lst - buf) (num_string (unat ui64) zero hex width)))"
  by (simp add: num.writes wrote_def)

lemma wrote_char:
  assumes "span mem buf lst" "buf < lst"
  shows "poke mem buf c = Some (patch mem buf [c])"
    and "span (patch mem buf [c]) (Suc buf) lst"
    and "length ys \<le> lst - Suc buf \<Longrightarrow> wrote (patch mem buf [c]) (Suc buf) ys = wrote mem buf (c # ys)"
proof -
  show "poke mem buf c = Some (patch mem buf [c])"
    using assms by (intro poke_patch) (simp add: span_def)
  show "span (patch mem buf [c]) (Suc buf) lst"
    using assms span_advance [of mem buf lst "[c]"] by simp
  show "wrote (patch mem buf [c]) (Suc buf) ys = wrote mem buf (c # ys)"
    if "length ys \<le> lst - Suc buf"
    using assms that wrote_then [of mem buf lst "[c]" ys] by simp
qed

lemma take_Suc_room: "buf < lst \<Longrightarrow> take (lst - buf) (c # xs) = c # take (lst - Suc buf) xs"
  by (metis Suc_diff_Suc take_Suc_Cons)

lemma vsl_print_num_wrote:
  assumes "span mem buf lst" "buf < lst" and v: "holds_number s i64 ui64 v"
  shows "vsl_print_num s i64 ui64 mem buf lst =
    Some (wrote mem buf (take (lst - buf) (number_text v (fs_zero s) (fs_hex s) (fs_width s))))"
proof (cases "fs_sign s \<and> sint i64 < 0")
  case True
  have "unat (- i64) = nat \<bar>v\<bar>" and "v < 0"
    using True v unat_uminus_sint [of i64] by (auto simp: holds_number_def)
  then show ?thesis
    using True assms(1,2)
    by (simp add: vsl_print_num_def wrote_char sprintf_num_wrote number_text_def take_Suc_room)
next
  case False
  have "\<not> v < 0" and "unat (if fs_sign s then i64 else ui64) = nat \<bar>v\<bar>"
    using False v unat_sint [of i64] by (auto simp: holds_number_def simp del: of_int_sint)
  then show ?thesis
    using False assms(1) by (auto simp: vsl_print_num_def sprintf_num_wrote number_text_def)
qed

text \<open>Two bounded texts one after the other are the bounded concatenation.\<close>

lemma take_then:
  fixes xs :: "char list"
  assumes "span mem buf lst"
  defines "xs' \<equiv> take (lst - buf) xs"
  defines "r \<equiv> lst - (buf + length xs')"
  shows "span (patch mem buf xs') (buf + length xs') lst"
    and "wrote (patch mem buf xs') (buf + length xs') (take r ys) =
      wrote mem buf (take (lst - buf) (xs @ ys))"
proof -
  have l: "length xs' \<le> lst - buf" by (simp add: xs'_def)
  then show "span (patch mem buf xs') (buf + length xs') lst"
    using assms(1) by (rule span_advance [rotated])
  have "length xs' + length (take r ys) \<le> lst - buf"
    using l by (simp add: r_def)
  moreover have "take (lst - buf) (xs @ ys) = xs' @ take r ys"
    by (simp add: xs'_def r_def min_def)
  ultimately show "wrote (patch mem buf xs') (buf + length xs') (take r ys) =
      wrote mem buf (take (lst - buf) (xs @ ys))"
    using assms(1) by (simp add: wrote_then)
qed

lemma vsl_fraction_wrote:
  assumes "span mem buf lst"
  shows "(if fw \<noteq> 0 then do {
       (mem, buf) \<leftarrow>
         (if buf < lst then do { mem \<leftarrow> poke mem buf (CHR ''.''); Some (mem, buf + 1) }
          else Some (mem, buf));
       ngx_sprintf_num mem buf lst frac (CHR ''0'') 0 fw }
     else Some (mem, buf)) = Some (wrote mem buf (take (lst - buf)
       (if fw \<noteq> 0 then CHR ''.'' # num_string (unat frac) (CHR ''0'') 0 fw else [])))"
  using assms by (cases "buf < lst")
    (auto simp: wrote_char sprintf_num_wrote take_Suc_room, auto simp: wrote_def)

lemma vsl_double_nonneg:
  assumes sp: "span mem buf lst" and p: "vsl_double_parts (fs_frac_width s) f = Some (n, frac)"
    and neg: "\<not> d_less_0 f"
  shows "vsl_double s f mem buf lst = Some (wrote mem buf (take (lst - buf)
    (num_string (unat n) (fs_zero s) 0 (fs_width s)
     @ (if fs_frac_width s \<noteq> 0
        then CHR ''.'' # num_string (unat frac) (CHR ''0'') 0 (fs_frac_width s) else []))))"
    (is "_ = Some (wrote mem buf (take _ (?i @ ?t)))")
proof -
  define m where "m = patch mem buf (take (lst - buf) ?i)"
  define b where "b = buf + length (take (lst - buf) ?i)"
  have sp2: "span m b lst" unfolding m_def b_def by (rule take_then(1) [OF sp])
  have "ngx_sprintf_num mem buf lst n (fs_zero s) 0 (fs_width s) = Some (m, b)"
    using sp by (simp add: sprintf_num_wrote wrote_def m_def b_def)
  then have "vsl_double s f mem buf lst = Some (wrote m b (take (lst - b) ?t))"
    using p neg vsl_fraction_wrote [OF sp2, of "fs_frac_width s" frac]
    by (simp add: vsl_double_def)
  then show ?thesis unfolding m_def b_def take_then(2) [OF sp] .
qed

lemma vsl_double_wrote:
  assumes sp: "span mem buf lst" and b: "buf < lst" and t: "double_text s f = Some t"
  shows "vsl_double s f mem buf lst = Some (wrote mem buf (take (lst - buf) t))"
proof (cases "d_less_0 f")
  case False
  with sp t show ?thesis
    by (auto simp: double_text_def Let_def vsl_double_nonneg split: Option.bind_splits)
next
  case True
  have pos: "\<not> d_less_0 (d_neg f)" using True by (cases f) auto
  obtain n frac where p: "vsl_double_parts (fs_frac_width s) (d_neg f) = Some (n, frac)"
    using t True by (auto simp: double_text_def Let_def split: Option.bind_splits)
  define u where "u = num_string (unat n) (fs_zero s) 0 (fs_width s)
     @ (if fs_frac_width s \<noteq> 0
        then CHR ''.'' # num_string (unat frac) (CHR ''0'') 0 (fs_frac_width s) else [])"
  have tu: "t = CHR ''-'' # u" using t True p by (simp add: double_text_def Let_def u_def)
  let ?m = "patch mem buf [CHR ''-'']"
  have "vsl_double s f mem buf lst = vsl_double s (d_neg f) ?m (Suc buf) lst"
    using True pos sp b by (simp add: vsl_double_def wrote_char)
  also have "\<dots> = Some (wrote ?m (Suc buf) (take (lst - Suc buf) u))"
    using wrote_char(2) [OF sp b] p pos by (simp add: vsl_double_nonneg u_def)
  also have "\<dots> = Some (wrote mem buf (take (lst - buf) t))"
    using sp b by (simp add: wrote_char(3) tu take_Suc_room)
  finally show ?thesis .
qed

lemma string_pieces_wrote:
  "string_pieces src len hex = Some ps \<Longrightarrow> span mem buf lst \<Longrightarrow>
   ngx_sprintf_str mem buf lst src len hex = Some (wrote mem buf (fill (lst - buf) ps))"
  by (auto simp: string_pieces_def str.writes wrote_def split: if_splits)

lemma unat_and_ff: "unat (d AND 0xff :: u32) = unat d mod 256"
proof -
  have "d AND 0xff = take_bit 8 d" by (simp add: take_bit_eq_mask mask_eq_decr_exp)
  then show ?thesis by (simp add: take_bit_eq_mod unat_mod_distrib)
qed

lemma fill_one: "buf < lst \<Longrightarrow> fill (lst - buf) [[c]] = [c]"
  by simp

lemma vsl_directive_wrote:
  assumes sp: "span mem buf lst" and b: "buf < lst"
    and d: "directive_pieces s fmt args = Some (ps, fmt', args')"
  shows "vsl_directive s fmt args mem buf lst =
    (let (m, n) = wrote mem buf (fill (lst - buf) ps) in Some (m, n, fmt', args'))"
proof -
  obtain c rest where fmt: "fmt = c # rest"
    using d by (cases fmt) (auto simp: directive_pieces_def)
  have one: "fill (lst - buf) [[x]] = [x]" for x :: char using b by simp
  have room1: "Suc 0 \<le> lst - buf" using b by arith
  consider (str) "c = CHR ''V'' \<or> c = CHR ''v'' \<or> c = CHR ''s''"
    | (num) "is_number c" | (dbl) "c = CHR ''f''" | (chr) "c = CHR ''c''"
    | (lit) "\<not> (c = CHR ''V'' \<or> c = CHR ''v'' \<or> c = CHR ''s'')" "\<not> is_number c"
        "c \<noteq> CHR ''f''" "c \<noteq> CHR ''c''"
    by blast
  then show ?thesis
  proof cases
    case str
    with d sp show ?thesis unfolding fmt
      by (elim disjE) (auto simp: directive_pieces_def vsl_directive_def vsl_char_def string_pieces_wrote
          wrote_def split: Option.bind_splits)
  next
    case num
    then have nc: "c \<noteq> CHR ''V''" "c \<noteq> CHR ''v''" "c \<noteq> CHR ''s''" by (auto simp: is_number_def)
    from d num nc obtain v zero hex width where
      nv: "number_value s c args = Some (v, zero, hex, width, args')"
      and ps: "ps = singles (number_text v zero hex width)" "fmt' = rest"
      by (auto simp: directive_pieces_def fmt split: Option.bind_splits)
    obtain s' i64 ui64 where "vsl_number s c args = Some (s', i64, ui64, args')"
      "fs_zero s' = zero" "fs_hex s' = hex" "fs_width s' = width" "holds_number s' i64 ui64 v"
      using nv num by (rule vsl_number_correct)
    then show ?thesis
      using num nc sp b vsl_print_num_wrote [of mem buf lst s' i64 ui64 v]
      by (simp add: vsl_directive_def vsl_char_def fmt ps wrote_def)
  next
    case dbl
    with d sp b show ?thesis unfolding fmt
      by (auto simp: directive_pieces_def vsl_directive_def vsl_char_def is_number_def vsl_double_wrote
          wrote_def split: Option.bind_splits)
  next
    case chr
    with d sp b show ?thesis unfolding fmt
      by (auto simp: directive_pieces_def vsl_directive_def vsl_char_def is_number_def wrote_char(1) one
          unat_and_ff wrote_def split: Option.bind_splits)
  next
    case lit
    then have nlit: "c \<noteq> CHR ''V''" "c \<noteq> CHR ''v''" "c \<noteq> CHR ''s''" "is_number c = False" by simp_all
    have nn: "\<not> is_number (CHR ''Z'')" "\<not> is_number (CHR ''N'')" "\<not> is_number (CHR ''%'')"
      by (simp_all add: is_number_def)
    show ?thesis
      using d unfolding fmt directive_pieces_def vsl_directive_def vsl_char_def
      by (cases "c = CHR ''Z''"; cases "c = CHR ''N''"; cases "c = CHR ''%''")
        (simp_all add: nlit nn lit(3,4) wrote_char(1) [OF sp b] wrote_def, auto simp: room1)
  qed
qed

lemma ngx_vslprintf_wrote:
  "fmt_pieces fmt args = Some ps \<Longrightarrow> span mem buf lst \<Longrightarrow>
   ngx_vslprintf mem buf lst fmt args = Some (wrote mem buf (fill (lst - buf) ps))"
proof (induction fmt args arbitrary: ps mem buf rule: fmt_pieces.induct)
  case (1 fmt args)
  obtain c rest where fmt: "fmt = c # rest"
    using "1.prems"(1) by (cases fmt) (auto simp: fmt_pieces.simps)
  note unf = ngx_vslprintf.simps [of mem buf lst fmt args, unfolded fmt, simplified]
  consider (stop) "c = NUL" | (full) "lst \<le> buf"
    | (dir) "c = CHR ''%''" "buf < lst" | (lit) "c \<noteq> NUL" "c \<noteq> CHR ''%''" "buf < lst"
    by (cases "buf < lst") auto
  then show ?case
  proof cases
    case stop
    then have "ps = []" using "1.prems"(1) by (simp add: fmt fmt_pieces.simps [of "NUL # rest"])
    with stop show ?thesis by (simp add: fmt ngx_vslprintf.simps [of _ _ _ "NUL # rest"] wrote_def)
  next
    case full
    then show ?thesis by (simp add: fmt unf wrote_def)
  next
    case lit
    then obtain qs where qs: "fmt_pieces rest args = Some qs" "ps = [c] # qs"
      using "1.prems"(1) by (auto simp: fmt fmt_pieces.simps [of "c # rest"])
    let ?m = "patch mem buf [c]"
    have "ngx_vslprintf ?m (Suc buf) lst rest args = Some (wrote ?m (Suc buf) (fill (lst - Suc buf) qs))"
      using "1.IH"(2) [OF fmt _ _ qs(1)] lit wrote_char(2) [OF "1.prems"(2)] by simp
    moreover have "fill (lst - buf) ps = c # fill (lst - Suc buf) qs"
      using lit by (simp add: qs)
    ultimately show ?thesis
      using lit "1.prems"(2) by (simp add: fmt unf wrote_char(1,3) length_fill)
  next
    case dir
    obtain s fmt1 args1 ps1 fmt2 args2 qs where
      parse: "parse_spec rest args = Some (s, fmt1, args1)"
      and d: "directive_pieces s fmt1 args1 = Some (ps1, fmt2, args2)"
      and qs: "fmt_pieces fmt2 args2 = Some qs" and ps: "ps = ps1 @ qs"
      using "1.prems"(1) dir
      by (auto simp: fmt fmt_pieces.simps [of "CHR ''%'' # rest"] split: option.splits)
    define out where "out = fill (lst - buf) ps1"
    have l: "length out \<le> lst - buf" by (simp add: out_def length_fill)
    have sp: "span (patch mem buf out) (buf + length out) lst"
      using "1.prems"(2) l by (rule span_advance)
    have "ngx_vslprintf (patch mem buf out) (buf + length out) lst fmt2 args2 =
        Some (wrote (patch mem buf out) (buf + length out) (fill (lst - (buf + length out)) qs))"
      using "1.IH"(1) [OF fmt _ dir(1) parse _ _ d _ _ qs sp] dir by simp
    moreover have "length (fill (lst - (buf + length out)) qs) \<le> lst - (buf + length out)"
      by (rule length_fill)
    moreover have "fill (lst - buf) ps = out @ fill (lst - (buf + length out)) qs"
      by (simp add: ps fill_append out_def diff_diff_left)
    ultimately show ?thesis
      using dir l vsl_directive_wrote [OF "1.prems"(2) dir(2) d] "1.prems"(2)
      by (simp add: fmt ngx_vslprintf.simps [of _ _ _ "CHR ''%'' # rest"] parse out_def [symmetric]
          wrote_def [of mem buf out] wrote_then)
  qed
qed

interpretation vsl: bounded_writer "fmt_pieces fmt args \<noteq> None"
  "\<lambda>mem buf lst. ngx_vslprintf mem buf lst fmt args" "the (fmt_pieces fmt args)"
  for fmt args
  by unfold_locales (auto simp: ngx_vslprintf_wrote wrote_def)

subsection \<open>Every defined run stays inside the buffer\<close>

text \<open>
  Whatever the format, the arguments and the sources are: a run that is defined has emitted
  some text that fits between \<open>buf\<close> and \<open>lst\<close> and changed nothing else.
\<close>

definition contained :: "char list \<Rightarrow> nat \<Rightarrow> nat \<Rightarrow> char list \<times> nat \<Rightarrow> bool" where
  "contained mem buf lst r \<longleftrightarrow> (\<exists>out. length out \<le> lst - buf \<and> r = wrote mem buf out)"

lemma contained_refl [simp]: "contained mem buf lst (mem, buf)"
  unfolding contained_def by (rule exI [of _ "[]"]) (simp add: wrote_def)

lemma containedI: "length out \<le> lst - buf \<Longrightarrow> contained mem buf lst (wrote mem buf out)"
  unfolding contained_def by blast

lemma contained_span: "contained mem buf lst (m, b) \<Longrightarrow> span mem buf lst \<Longrightarrow> span m b lst"
  by (auto simp: contained_def wrote_def intro: span_advance)

lemma contained_trans:
  assumes "span mem buf lst" "contained mem buf lst (m, b)" "contained m b lst r"
  shows "contained mem buf lst r"
proof -
  obtain xs where xs: "length xs \<le> lst - buf" "m = patch mem buf xs" "b = buf + length xs"
    using assms(2) by (auto simp: contained_def wrote_def)
  obtain ys where ys: "length ys \<le> lst - b" "r = wrote m b ys"
    using assms(3) by (auto simp: contained_def)
  have "length xs + length ys \<le> lst - buf" using xs ys by arith
  then have "r = wrote mem buf (xs @ ys)" and "length (xs @ ys) \<le> lst - buf"
    using ys(2) assms(1) by (auto simp: xs wrote_then)
  then show ?thesis by (auto intro: containedI)
qed

lemma contained_step:
  "contained mem buf lst (m, b) \<Longrightarrow> span mem buf lst \<Longrightarrow>
   (span m b lst \<Longrightarrow> contained m b lst r) \<Longrightarrow> contained mem buf lst r"
  by (blast intro: contained_trans contained_span)

lemma contained_poke:
  "span mem buf lst \<Longrightarrow> buf < lst \<Longrightarrow> poke mem buf c = Some m \<Longrightarrow> contained mem buf lst (m, Suc buf)"
  using containedI [of "[c]" lst buf mem] by (auto simp: wrote_char(1) wrote_def)

lemma contained_put_hex:
  assumes "span mem buf lst" "buf < lst - Suc 0" "put_hex tab mem buf c = Some r"
  shows "contained mem buf lst r"
proof -
  have "buf + 2 \<le> length mem" using assms(1,2) unfolding span_def by arith
  with assms(3) have "r = wrote mem buf (hex_pair tab c)"
    by (simp add: put_hex_patch wrote_def)
  then show ?thesis using assms(2) by (auto intro: containedI)
qed

lemma contained_num:
  "span mem buf lst \<Longrightarrow> ngx_sprintf_num mem buf lst ui64 zero hex width = Some r \<Longrightarrow>
   contained mem buf lst r"
  by (auto simp: sprintf_num_wrote intro!: containedI)

lemma contained_str_z:
  "sprintf_str_z mem buf lst src = Some r \<Longrightarrow> span mem buf lst \<Longrightarrow> contained mem buf lst r"
proof (induction mem buf lst src rule: sprintf_str_z.induct)
  case (2 mem buf lst c src)
  then show ?case
    by (auto split: if_splits Option.bind_splits
        intro: contained_step [OF contained_poke])
qed simp

lemma contained_hex_z:
  "sprintf_hex_z tab mem buf lst src = Some r \<Longrightarrow> span mem buf lst \<Longrightarrow> contained mem buf lst r"
proof (induction tab mem buf lst src rule: sprintf_hex_z.induct)
  case (2 tab mem buf lst c src)
  then show ?case
    by (auto split: if_splits Option.bind_splits
        intro: contained_step [OF contained_put_hex])
qed simp

lemma contained_hex_n:
  "sprintf_hex_n tab mem buf lst src len = Some r \<Longrightarrow> span mem buf lst \<Longrightarrow> contained mem buf lst r"
proof (induction tab mem buf lst src len rule: sprintf_hex_n.induct)
  case (2 tab mem buf lst c src len)
  then show ?case
    by (auto split: if_splits Option.bind_splits
        intro: contained_step [OF contained_put_hex])
qed (auto split: if_splits)

lemma contained_str:
  assumes "span mem buf lst" "ngx_sprintf_str mem buf lst src len hex = Some r"
  shows "contained mem buf lst r"
proof (cases "hex = 0 \<and> len \<noteq> -1")
  case True
  let ?n = "ngx_min (of_nat lst - of_nat buf) len"
  have "lst - buf < 2 ^ 64" "buf \<le> lst" using assms(1) unfolding span_def by arith+
  then have "unat ?n \<le> lst - buf" by (simp add: unat_ptr_diff)
  moreover have "r = wrote mem buf (take (unat ?n) src)"
    using assms(2) True
    by (auto simp: ngx_sprintf_str_def ngx_cpymem_def wrote_def min_def split: if_splits)
  ultimately show ?thesis by (auto intro: containedI)
next
  case False
  with assms show ?thesis
    by (auto simp: ngx_sprintf_str_def Let_def split: if_splits
        intro: contained_str_z contained_hex_z contained_hex_n)
qed

lemma contained_print_num:
  assumes "span mem buf lst" "buf < lst" "vsl_print_num s i64 ui64 mem buf lst = Some r"
  shows "contained mem buf lst r"
  using assms
  by (auto simp: vsl_print_num_def split: if_splits Option.bind_splits
      intro: contained_step [OF contained_poke] contained_num)

lemma contained_fraction:
  assumes "span mem buf lst"
    "(if fw \<noteq> 0 then do {
       (mem, buf) \<leftarrow>
         (if buf < lst then do { mem \<leftarrow> poke mem buf (CHR ''.''); Some (mem, buf + 1) }
          else Some (mem, buf));
       ngx_sprintf_num mem buf lst frac (CHR ''0'') 0 fw }
     else Some (mem, buf)) = Some r"
  shows "contained mem buf lst r"
  using assms
  by (auto split: if_splits Option.bind_splits
      intro: contained_step [OF contained_poke] contained_num)

lemma contained_double:
  assumes "span mem buf lst" "buf < lst" "vsl_double s f mem buf lst = Some r"
  shows "contained mem buf lst r"
proof -
  define rest where "rest = (\<lambda>mem buf f. do {
     (ui64, frac) \<leftarrow> vsl_double_parts (fs_frac_width s) f;
     (mem, buf) \<leftarrow> ngx_sprintf_num mem buf lst ui64 (fs_zero s) 0 (fs_width s);
     if fs_frac_width s \<noteq> 0 then do {
       (mem, buf) \<leftarrow>
         (if buf < lst then do { mem \<leftarrow> poke mem buf (CHR ''.''); Some (mem, buf + 1) }
          else Some (mem, buf));
       ngx_sprintf_num mem buf lst frac (CHR ''0'') 0 (fs_frac_width s) }
     else Some (mem, buf) })"
  have tail: "contained m b lst r" if sp: "span m b lst" and rs: "rest m b g = Some r" for m b g
  proof -
    obtain ui64 frac m2 b2 where
      n: "ngx_sprintf_num m b lst ui64 (fs_zero s) 0 (fs_width s) = Some (m2, b2)"
      and t: "(if fs_frac_width s \<noteq> 0 then do {
         (mem, buf) \<leftarrow>
           (if b2 < lst then do { mem \<leftarrow> poke m2 b2 (CHR ''.''); Some (mem, b2 + 1) }
            else Some (m2, b2));
         ngx_sprintf_num mem buf lst frac (CHR ''0'') 0 (fs_frac_width s) }
       else Some (m2, b2)) = Some r"
      using rs by (fastforce simp: rest_def split: Option.bind_splits)
    show ?thesis
      by (rule contained_step [OF contained_num [OF sp n] sp])
        (rule contained_fraction [OF _ t])
  qed
  have "vsl_double s f mem buf lst =
      (if d_less_0 f then do { m \<leftarrow> poke mem buf (CHR ''-''); rest m (Suc buf) (d_neg f) }
       else rest mem buf f)"
    by (simp add: vsl_double_def rest_def)
  then have "(if d_less_0 f then do { m \<leftarrow> poke mem buf (CHR ''-''); rest m (Suc buf) (d_neg f) }
       else rest mem buf f) = Some r"
    using assms(3) by simp
  then show ?thesis
    using assms(1,2) by (auto split: if_splits Option.bind_splits
        intro: tail contained_step [OF contained_poke])
qed

lemma contained_directive:
  assumes "span mem buf lst" "buf < lst"
    "vsl_directive s fmt args mem buf lst = Some (m, b, fmt', args')"
  shows "contained mem buf lst (m, b)"
  using assms
  by (auto simp: vsl_directive_def vsl_char_def split: list.splits if_splits Option.bind_splits prod.splits
      intro: contained_poke contained_str contained_print_num contained_double)

lemma contained_vslprintf:
  "ngx_vslprintf mem buf lst fmt args = Some r \<Longrightarrow> span mem buf lst \<Longrightarrow> contained mem buf lst r"
proof (induction mem buf lst fmt args rule: ngx_vslprintf.induct)
  case (1 mem buf lst fmt args)
  obtain c rest where fmt: "fmt = c # rest"
    using "1.prems"(1) by (cases fmt) (auto simp: ngx_vslprintf.simps)
  note unf = "1.prems"(1) [unfolded fmt ngx_vslprintf.simps [of mem buf lst "c # rest"] list.case]
  consider (stop) "c = NUL \<or> lst \<le> buf"
    | (dir) "c \<noteq> NUL \<and> buf < lst" "c = CHR ''%''" | (lit) "c \<noteq> NUL \<and> buf < lst" "c \<noteq> CHR ''%''"
    by (cases "buf < lst") auto
  then show ?case
  proof cases
    case stop
    then show ?thesis using unf by (auto split: if_splits)
  next
    case dir
    then obtain s fmt1 args1 m b fmt2 args2 where
      p: "parse_spec rest args = Some (s, fmt1, args1)"
      and d: "vsl_directive s fmt1 args1 mem buf lst = Some (m, b, fmt2, args2)"
      and r: "ngx_vslprintf m b lst fmt2 args2 = Some r"
      using unf by (auto split: option.splits)
    have "contained mem buf lst (m, b)"
      using "1.prems"(2) dir(1) d by (auto intro: contained_directive)
    then show ?thesis
      using "1.prems"(2)
      by (rule contained_step) (rule "1.IH"(1) [OF fmt dir p _ _ d _ _ _ r]; simp)
  next
    case lit
    then obtain m where m: "poke mem buf c = Some m"
      and r: "ngx_vslprintf m (buf + 1) lst rest args = Some r"
      using unf by (auto split: option.splits)
    show ?thesis
      by (rule contained_step [OF contained_poke [OF "1.prems"(2) _ m] "1.prems"(2)])
        (use lit "1.IH"(2) [OF fmt lit m r] in auto)
  qed
qed

subsection \<open>Properties\<close>

text \<open>
  C1: for a format and arguments that denote the pieces \<open>ps\<close> (every directive complete, every
  argument of its type, every source readable), \<open>ngx_vslprintf\<close> is defined, writes exactly
  the pieces that fit into the buffer and returns the position after them.
\<close>

theorem ngx_vslprintf_correct:
  assumes "fmt_pieces fmt args = Some ps" and "span mem buf lst"
  shows "ngx_vslprintf mem buf lst fmt args =
    (let out = fill (lst - buf) ps in Some (patch mem buf out, buf + length out))"
  using vsl.writes [of fmt args mem buf lst] assms by (simp add: Let_def)

theorem ngx_vslprintf_correct_witness:
  "ngx_vslprintf ''........'' 1 8 (''a=%d%%'' @ [NUL]) [VInt (-5)] = Some (''.a=-5%..'', 6)"
proof -
  have p: "fmt_pieces (''a=%d%%'' @ [NUL]) [VInt (-5)]
      = Some [''a'', ''='', ''-'', ''5'', ''%'']"
    by code_simp
  show ?thesis
    using ngx_vslprintf_correct [OF p, of "''........''" 1 8]
    by (simp add: span_def patch_def)
qed

text \<open>
  When no hex dump of a string is involved (every piece is one byte), truncation is that
  of \<open>snprintf\<close>: a run with a room of \<open>r\<close> bytes leaves the first \<open>r\<close> bytes of the full text.
\<close>

theorem ngx_vslprintf_truncates:
  assumes "fmt_pieces fmt args = Some ps" "\<forall>p \<in> set ps. length p = 1" "span mem buf lst"
  shows "ngx_vslprintf mem buf lst fmt args =
    (let out = take (lst - buf) (concat ps) in Some (patch mem buf out, buf + length out))"
  using ngx_vslprintf_wrote [OF assms(1,3)] assms(2) by (simp add: fill_single_pieces wrote_def Let_def)

theorem ngx_vslprintf_truncates_witness:
  "ngx_vslprintf ''......'' 0 3 (''%05uz;'' @ [NUL]) [VLong 42] = Some (''000...'', 3)"
proof -
  have p: "fmt_pieces (''%05uz;'' @ [NUL]) [VLong 42]
      = Some [''0'', ''0'', ''0'', ''4'', ''2'', '';'']"
    by code_simp
  show ?thesis
    using ngx_vslprintf_truncates [OF p, of "''......''" 0 3]
    by (simp add: span_def patch_def)
qed

text \<open>
  C8: memory safety for every format, argument list and source: a run of \<open>ngx_vslprintf\<close> that
  is defined returns a position between \<open>buf\<close> and \<open>lst\<close>, and no byte before \<open>buf\<close> or from the
  returned position on has changed.
\<close>

theorem ngx_vslprintf_safe:
  assumes "span mem buf lst" and "ngx_vslprintf mem buf lst fmt args = Some (mem', buf')"
  shows "buf \<le> buf' \<and> buf' \<le> lst \<and> length mem' = length mem
    \<and> (\<forall>j. j < buf \<or> buf' \<le> j \<longrightarrow> mem' ! j = mem ! j)"
proof -
  obtain out where l: "length out \<le> lst - buf" and r: "mem' = patch mem buf out" "buf' = buf + length out"
    using contained_vslprintf [OF assms(2,1)] by (auto simp: contained_def wrote_def)
  have "buf + length out \<le> lst" "buf + length out \<le> length mem"
    using l assms(1) unfolding span_def by arith+
  then show ?thesis by (auto simp: r nth_patch_outside)
qed

theorem ngx_vslprintf_safe_witness:
  "\<exists>mem' buf'. ngx_vslprintf ''....'' 0 2 (''abc%'' @ [NUL]) [] = Some (mem', buf') \<and> buf' \<le> 2"
proof -
  have r: "ngx_vslprintf ''....'' 0 2 (''abc%'' @ [NUL]) [] = Some (''ab..'', 2)" by code_simp
  have "span ''....'' 0 2" by (simp add: span_def)
  from ngx_vslprintf_safe [OF this r] r show ?thesis by blast
qed

text \<open>
  A format whose last character is a lone \<^verbatim>\<open>%\<close> makes the code take the terminator for a
  type letter, copy it and run past the end of the format: when the buffer has room the run
  is not defined.
\<close>

theorem ngx_vslprintf_lone_percent:
  assumes "buf < lst" "lst \<le> length mem"
  shows "ngx_vslprintf mem buf lst (''%'' @ [NUL]) args = None"
proof -
  have "parse_spec [NUL] args = Some (\<lparr>fs_zero = CHR '' '', fs_width = 0, fs_sign = True, fs_hex = 0,
       fs_max_width = False, fs_frac_width = 0, fs_slen = -1\<rparr>, [NUL], args)"
    by (simp add: parse_spec_def is_digit_def)
  then show ?thesis
    using assms
    by (simp add: ngx_vslprintf.simps [of _ _ _ "CHR ''%'' # _"] vsl_directive_def vsl_char_def is_number_def
        poke_def ngx_vslprintf.simps [of _ _ _ "[]"])
qed

theorem ngx_vslprintf_lone_percent_witness:
  "ngx_vslprintf ''...'' 0 2 (''%'' @ [NUL]) [] = None"
  by (rule ngx_vslprintf_lone_percent) simp_all

text \<open>
  C34: \<^verbatim>\<open>%d\<close> prints an \<open>int\<close> as a minus sign for a negative value and the decimal digits of its
  absolute value, for the whole range down to the least 32-bit integer, and reading the digits
  back gives that absolute value.
\<close>

theorem ngx_slprintf_int_roundtrip:
  assumes "span mem buf lst" "lst - buf \<ge> 21"
  shows "\<exists>ds. dec_value ds = nat \<bar>sint w\<bar>
    \<and> ngx_slprintf mem buf lst (''%d'' @ [NUL]) [VInt w] =
      (let out = (if sint w < 0 then ''-'' else []) @ ds in Some (patch mem buf out, buf + length out))"
proof -
  let ?ds = "dec_string (nat \<bar>sint w\<bar>)"
  let ?t = "(if sint w < 0 then ''-'' else []) @ ?ds"
  have pieces: "fmt_pieces (''%d'' @ [NUL]) [VInt w] = Some (singles ?t)"
    by (simp add: fmt_pieces.simps [of "CHR ''%'' # _"] fmt_pieces.simps [of "[NUL]"] parse_spec_def
        is_digit_def directive_pieces_def is_number_def number_value_def signed_int_def
        number_text_def num_string_def pad_left_def num_digits_def Let_def)
  have "nat \<bar>sint w\<bar> < 2 ^ 64"
    using sint_greater_eq [of w] sint_less [of w] by simp
  then have "length ?ds \<le> 20" by (simp add: dec_string_def length_dec_64)
  then have "length ?t \<le> lst - buf" using assms(2) by (cases "sint w < 0") simp_all
  then have full: "fill (lst - buf) (singles ?t) = ?t" by (simp only: fill_singles take_all)
  show ?thesis
    using ngx_vslprintf_wrote [OF pieces assms(1)] unfolding full
    by (intro exI [of _ ?ds]) (simp add: ngx_slprintf_def wrote_def Let_def)
qed

theorem ngx_slprintf_int_roundtrip_witness:
  "\<exists>ds. dec_value ds = 2147483648
    \<and> ngx_slprintf (replicate 30 NUL) 0 30 (''%d'' @ [NUL]) [VInt 0x80000000] =
      Some (patch (replicate 30 NUL) 0 (CHR ''-'' # ds), Suc (length ds))"
proof -
  have "span (replicate 30 NUL) 0 30" by (simp add: span_def)
  from ngx_slprintf_int_roundtrip [OF this, where w = "0x80000000"] show ?thesis by (simp add: Let_def)
qed

end
