(* ===== verification/Ngx_Errno.thy ===== *)
theory Ngx_Errno
  imports Ngx_String
begin

text \<open>
  \<^verbatim>\<open>src/os/unix/ngx_errno.c\<close> on the configured branch (\<^verbatim>\<open>NGX_HAVE_STRERRORDESC_NP\<close>):
  \<open>ngx_strerror\<close> copies the description that the C library gives for an error number. The
  library's table is the parameter \<open>desc\<close>: the C string object of the message, or \<open>None\<close> where
  \<^verbatim>\<open>strerrordesc_np\<close> returns \<open>NULL\<close>.
\<close>

definition ngx_unknown_error :: ngx_str_t where
  "ngx_unknown_error = ngx_string ''Unknown error''"

definition ngx_strerror ::
  "(u32 \<Rightarrow> char list option) \<Rightarrow> u32 \<Rightarrow> char list \<Rightarrow> nat \<Rightarrow> u64 \<Rightarrow> (char list \<times> nat) option" where
  "ngx_strerror desc err mem errstr sz = do {
     (msg, len) \<leftarrow> (case desc err of
         None \<Rightarrow> Some (str_data ngx_unknown_error, str_len ngx_unknown_error)
       | Some msg \<Rightarrow> do { len \<leftarrow> ngx_strlen msg; Some (msg, len) });
     let sz = ngx_min sz len;
     ngx_cpymem mem errstr msg sz }"

definition ngx_strerror_init :: u64 where
  "ngx_strerror_init = NGX_OK"

text \<open>What the C library promises: a message is a terminated string that fits memory.\<close>

definition desc_ok :: "(u32 \<Rightarrow> char list option) \<Rightarrow> u32 \<Rightarrow> bool" where
  "desc_ok desc err \<longleftrightarrow> (\<forall>m. desc err = Some m \<longrightarrow> NUL \<in> set m \<and> length m < 2 ^ 64)"

definition error_text :: "(u32 \<Rightarrow> char list option) \<Rightarrow> u32 \<Rightarrow> char list" where
  "error_text desc err =
     (case desc err of None \<Rightarrow> ''Unknown error'' | Some m \<Rightarrow> takeWhile (\<lambda>c. c \<noteq> NUL) m)"

lemma ngx_strlen_takeWhile:
  "NUL \<in> set m \<Longrightarrow> ngx_strlen m = Some (of_nat (length (takeWhile (\<lambda>c. c \<noteq> NUL) m)))"
  by (induction m) (auto simp: add.commute)

lemma strlen_string: "NUL \<notin> set s \<Longrightarrow> ngx_strlen (s @ NUL # rest) = Some (of_nat (length s))"
  by (induction s) (auto simp: add.commute)

lemma cpymem_bounded:
  assumes "span mem buf lst" "unat n = min (lst - buf) (length t)"
  shows "ngx_cpymem mem buf (t @ rest) n =
    (let out = take (lst - buf) t in Some (patch mem buf out, buf + length out))"
proof -
  have "buf + unat n \<le> length mem" using assms unfolding span_def by arith
  then show ?thesis
    using assms(2) by (cases "length t \<le> lst - buf") (simp_all add: ngx_cpymem_def Let_def min_def)
qed

lemma strerror_writes:
  assumes "desc_ok desc err" "span mem buf lst"
  shows "ngx_strerror desc err mem buf (of_nat lst - of_nat buf) =
    (let out = take (lst - buf) (error_text desc err) in Some (patch mem buf out, buf + length out))"
proof -
  have "lst - buf < 2 ^ 64" and "buf \<le> lst" using assms(2) unfolding span_def by arith+
  then have room: "unat (of_nat lst - of_nat buf :: u64) = lst - buf" by (simp add: unat_ptr_diff)
  define t where "t = error_text desc err"
  have "\<exists>msg len. (case desc err of
         None \<Rightarrow> Some (str_data ngx_unknown_error, str_len ngx_unknown_error)
       | Some msg \<Rightarrow> do { len \<leftarrow> ngx_strlen msg; Some (msg, len) }) = Some (t @ msg, len)
     \<and> unat len = length t"
  proof (cases "desc err")
    case None
    then show ?thesis
      by (simp add: t_def error_text_def ngx_unknown_error_def ngx_string_def)
  next
    case (Some m)
    then have m: "NUL \<in> set m" "length m < 2 ^ 64" using assms(1) by (auto simp: desc_ok_def)
    have t: "t = takeWhile (\<lambda>c. c \<noteq> NUL) m" by (simp add: t_def error_text_def Some)
    have "length t \<le> length m" by (simp add: t length_takeWhile_le)
    then have "unat (of_nat (length t) :: u64) = length t" using m(2) by (simp add: unat_of_nat_64)
    moreover have "m = t @ dropWhile (\<lambda>c. c \<noteq> NUL) m" by (simp add: t)
    ultimately show ?thesis
      using m(1) by (auto simp: Some ngx_strlen_takeWhile t [symmetric])
  qed
  then show ?thesis
    using cpymem_bounded [OF assms(2)] room
    by (auto simp: ngx_strerror_def t_def [symmetric])
qed

interpretation strerror: bounded_writer "desc_ok desc err"
  "\<lambda>mem buf lst. ngx_strerror desc err mem buf (of_nat lst - of_nat buf)"
  "singles (error_text desc err)"
  for desc err
  by unfold_locales (simp add: strerror_writes Let_def)

end
