(* ===== verification/Ngx_Log.thy ===== *)
theory Ngx_Log
  imports Ngx_Format Ngx_Errno
begin

text \<open>
  \<^verbatim>\<open>src/core/ngx_log.c\<close> and \<^verbatim>\<open>src/core/ngx_log.h\<close>: the severity levels and the filters of the
  logging macros, \<open>ngx_log_error_core\<close>, \<open>ngx_log_errno\<close>, \<open>ngx_log_stderr\<close> and \<open>ngx_log_init\<close>. The system calls are
  parameters: \<open>desc\<close> (the library's error messages), the fresh object that \<^verbatim>\<open>malloc\<close> returns,
  the result of \<^verbatim>\<open>open\<close>; the bytes handed to \<^verbatim>\<open>write\<close> on standard error are results.
  \<open>ngx_log_error_core\<close> declares the limit of its buffer as a byte and is modelled with that limit.
\<close>

subsection \<open>Levels and filters\<close>

definition NGX_LOG_STDERR :: u64 where "NGX_LOG_STDERR = 0"
definition NGX_LOG_EMERG :: u64 where "NGX_LOG_EMERG = 1"
definition NGX_LOG_ALERT :: u64 where "NGX_LOG_ALERT = 2"
definition NGX_LOG_CRIT :: u64 where "NGX_LOG_CRIT = 3"
definition NGX_LOG_ERR :: u64 where "NGX_LOG_ERR = 4"
definition NGX_LOG_WARN :: u64 where "NGX_LOG_WARN = 5"
definition NGX_LOG_NOTICE :: u64 where "NGX_LOG_NOTICE = 6"
definition NGX_LOG_INFO :: u64 where "NGX_LOG_INFO = 7"
definition NGX_LOG_DEBUG :: u64 where "NGX_LOG_DEBUG = 8"

definition NGX_LOG_DEBUG_CORE :: u64 where "NGX_LOG_DEBUG_CORE = 0x010"
definition NGX_LOG_DEBUG_ALLOC :: u64 where "NGX_LOG_DEBUG_ALLOC = 0x020"
definition NGX_LOG_DEBUG_MUTEX :: u64 where "NGX_LOG_DEBUG_MUTEX = 0x040"
definition NGX_LOG_DEBUG_EVENT :: u64 where "NGX_LOG_DEBUG_EVENT = 0x080"
definition NGX_LOG_DEBUG_HTTP :: u64 where "NGX_LOG_DEBUG_HTTP = 0x100"
definition NGX_LOG_DEBUG_MAIL :: u64 where "NGX_LOG_DEBUG_MAIL = 0x200"
definition NGX_LOG_DEBUG_STREAM :: u64 where "NGX_LOG_DEBUG_STREAM = 0x400"
definition NGX_LOG_DEBUG_CONNECTION :: u64 where "NGX_LOG_DEBUG_CONNECTION = 0x80000000"
definition NGX_LOG_DEBUG_ALL :: u64 where "NGX_LOG_DEBUG_ALL = 0x7ffffff0"

definition err_levels :: "ngx_str_t list" where
  "err_levels = [ngx_null_string, ngx_string ''emerg'', ngx_string ''alert'', ngx_string ''crit'',
     ngx_string ''error'', ngx_string ''warn'', ngx_string ''notice'', ngx_string ''info'',
     ngx_string ''debug'']"

text \<open>The fields of a log that the functions read or write.\<close>

record ngx_log_t =
  lg_log_level :: u64
  lg_file_fd :: u32      \<comment> \<open>\<open>file->fd\<close>\<close>
  lg_connection :: u64

text \<open>The guards of \<^verbatim>\<open>ngx_log_error\<close> and \<^verbatim>\<open>ngx_log_debug\<close>.\<close>

definition ngx_log_error_enabled :: "u64 \<Rightarrow> ngx_log_t \<Rightarrow> bool" where
  "ngx_log_error_enabled level log \<longleftrightarrow> lg_log_level log \<ge> level"

definition ngx_log_debug_enabled :: "u64 \<Rightarrow> ngx_log_t \<Rightarrow> bool" where
  "ngx_log_debug_enabled level log \<longleftrightarrow> lg_log_level log AND level \<noteq> 0"

subsection \<open>Error numbers and standard error\<close>

definition NGX_MAX_ERROR_STR :: nat where "NGX_MAX_ERROR_STR = 2048"
definition NGX_LINEFEED_SIZE :: nat where "NGX_LINEFEED_SIZE = 1"

definition log_errno_fmt :: "char list" where "log_errno_fmt = '' (%d: '' @ [NUL]"

definition ngx_log_errno ::
  "(u32 \<Rightarrow> char list option) \<Rightarrow> char list \<Rightarrow> nat \<Rightarrow> nat \<Rightarrow> u32 \<Rightarrow> (char list \<times> nat) option" where
  "ngx_log_errno desc mem buf lst err = (if lst < 50 then None else do {
     (mem, buf) \<leftarrow>
       (if buf > lst - 50 then do {
          let buf = lst - 50;
          mem \<leftarrow> poke mem buf (CHR ''.'');
          mem \<leftarrow> poke mem (buf + 1) (CHR ''.'');
          mem \<leftarrow> poke mem (buf + 2) (CHR ''.'');
          Some (mem, buf + 3) }
        else Some (mem, buf));
     (mem, buf) \<leftarrow> ngx_slprintf mem buf lst log_errno_fmt [VInt err];
     (mem, buf) \<leftarrow> ngx_strerror desc err mem buf (of_nat lst - of_nat buf);
     if buf < lst then do { mem \<leftarrow> poke mem buf (CHR '')''); Some (mem, buf + 1) }
     else Some (mem, buf) })"

text \<open>
  \<open>ngx_log_error_core\<close> composes a message in the stack buffer \<open>errstr\<close> and stops there: the
  source does not write it yet, so the result is the buffer and the position behind the message.
  \<open>time\<close> is the cached time, \<open>base\<close> the address of \<open>errstr\<close>. The source computes \<^verbatim>\<open>errstr + 2048\<close> but
  declares \<^verbatim>\<open>last\<close> as a byte, which cuts the address to its low eight bits; passed on as a limit, these are an address again.
  Positions count from the start of the buffer, so a limit below it is 0.
\<close>

definition error_core_limit :: "u64 \<Rightarrow> nat" where
  "error_core_limit base = (let last = ucast (ucast (base + of_nat NGX_MAX_ERROR_STR) :: 8 word) :: u64
     in if last < base then 0 else unat (last - base))"

definition log_level_fmt :: "char list" where "log_level_fmt = '' [%V] '' @ [NUL]"
definition log_pid_fmt :: "char list" where "log_pid_fmt = ''%P#%d: '' @ [NUL]"
definition log_connection_fmt :: "char list" where "log_connection_fmt = ''*%uA'' @ [NUL]"

definition ngx_log_error_core ::
  "(u32 \<Rightarrow> char list option) \<Rightarrow> ngx_str_t \<Rightarrow> u32 \<Rightarrow> char list \<Rightarrow> u64 \<Rightarrow>
   u64 \<Rightarrow> ngx_log_t \<Rightarrow> u32 \<Rightarrow> char list \<Rightarrow> varg list \<Rightarrow> (char list \<times> nat) option" where
  "ngx_log_error_core desc time pid errstr base level log err fmt args = do {
     let lst = error_core_limit base;
     (mem, p) \<leftarrow> ngx_cpymem errstr 0 (str_data time) (str_len time);
     name \<leftarrow> (if unat level < length err_levels then Some (err_levels ! unat level) else None);
     (mem, p) \<leftarrow> ngx_slprintf mem p lst log_level_fmt [VStr name];
     (mem, p) \<leftarrow> ngx_slprintf mem p lst log_pid_fmt [VInt pid, VInt 0];
     (mem, p) \<leftarrow> (if lg_connection log \<noteq> 0
        then ngx_slprintf mem p lst log_connection_fmt [VLong (lg_connection log)] else Some (mem, p));
     (mem, p) \<leftarrow> ngx_vslprintf mem p lst fmt args;
     if err \<noteq> 0 then ngx_log_errno desc mem p lst err else Some (mem, p) }"

text \<open>
  \<open>errstr\<close> is the stack buffer with whatever it held; the result is what \<^verbatim>\<open>write\<close> is given.
\<close>

definition ngx_log_stderr ::
  "(u32 \<Rightarrow> char list option) \<Rightarrow> char list \<Rightarrow> u32 \<Rightarrow> char list \<Rightarrow> varg list \<Rightarrow> char list option" where
  "ngx_log_stderr desc errstr err fmt args = do {
     let lst = NGX_MAX_ERROR_STR;
     (mem, p) \<leftarrow> ngx_cpymem errstr 0 ''nginx: '' 7;
     (mem, p) \<leftarrow> ngx_vslprintf mem p lst fmt args;
     (mem, p) \<leftarrow> (if err \<noteq> 0 then ngx_log_errno desc mem p lst err else Some (mem, p));
     let p = (if p > lst - NGX_LINEFEED_SIZE then lst - NGX_LINEFEED_SIZE else p);
     mem \<leftarrow> poke mem p LF;
     Some (take (p + 1) mem) }"


subsection \<open>Initialisation\<close>

text \<open>
  \<open>ngx_log_init\<close>. \<open>prefix\<close> and \<open>error_log\<close> are \<open>None\<close> for \<open>NULL\<close>. The parameters of the
  environment: \<open>alloc\<close> gives the fresh object of a \<^verbatim>\<open>malloc\<close> (or \<open>None\<close>), \<open>open_file\<close> the
  descriptor for a path, \<open>errno\<close> the error number after a failed open. The result holds the
  log that is returned (\<open>None\<close> is \<open>NULL\<close>), the object passed to \<^verbatim>\<open>open\<close>, the bytes written to
  standard error and whether the path's memory was freed.
\<close>

definition NGX_PREFIX :: "char list" where "NGX_PREFIX = ''/usr/local/nginx/'' @ [NUL]"
definition NGX_ERROR_LOG_PATH :: "char list" where "NGX_ERROR_LOG_PATH = ''logs/error.log'' @ [NUL]"
definition NGX_INVALID_FILE :: u32 where "NGX_INVALID_FILE = -1"
definition ngx_stderr :: u32 where "ngx_stderr = 2"
definition ngx_path_separator :: "char \<Rightarrow> bool" where "ngx_path_separator c \<longleftrightarrow> c = CHR ''/''"

definition log_open_failed :: "char list" where
  "log_open_failed = ''[alert] could not open error log file: open() '' @ [CHR 0x22] @ ''%s''
     @ [CHR 0x22] @ '' failed'' @ [NUL]"

record log_env =
  le_desc :: "u32 \<Rightarrow> char list option"
  le_errstr :: "char list"
  le_alloc :: "u64 \<Rightarrow> char list option"
  le_open :: "char list \<Rightarrow> u32"
  le_errno :: u32

record log_init_result =
  li_log :: "ngx_log_t option"
  li_opened :: "char list option"
  li_console :: "char list"
  li_freed :: bool

definition log_path ::
  "char list \<Rightarrow> char list \<Rightarrow> char list \<Rightarrow> u64 \<Rightarrow> u64 \<Rightarrow> char list option" where
  "log_path name prefix error_log plen nlen = do {
     (name, p) \<leftarrow> ngx_cpymem name 0 prefix plen;
     (name, p) \<leftarrow>
       (if \<not> ngx_path_separator (name ! (p - 1))
        then do { name \<leftarrow> poke name p (CHR ''/''); Some (name, p + 1) } else Some (name, p));
     (name, p) \<leftarrow> ngx_cpystrn name p error_log (nlen + 1);
     Some name }"

definition log_open ::
  "log_env \<Rightarrow> ngx_log_t \<Rightarrow> char list \<Rightarrow> bool \<Rightarrow> log_init_result option" where
  "log_open env log name p = do {
     let fd = le_open env name;
     (fd, console) \<leftarrow>
       (if fd = NGX_INVALID_FILE then do {
          console \<leftarrow> ngx_log_stderr (le_desc env) (le_errstr env) (le_errno env)
            log_open_failed [VCStr name];
          Some (ngx_stderr, console) }
        else Some (fd, []));
     Some \<lparr>li_log = Some (log\<lparr>lg_file_fd := fd\<rparr>), li_opened = Some name, li_console = console,
           li_freed = p\<rparr> }"

definition ngx_log_init ::
  "log_env \<Rightarrow> char list option \<Rightarrow> char list option \<Rightarrow> log_init_result option" where
  "ngx_log_init env prefix error_log = do {
     let log = \<lparr>lg_log_level = NGX_LOG_NOTICE, lg_file_fd = 0, lg_connection = 0\<rparr>;
     let error_log = (case error_log of None \<Rightarrow> NGX_ERROR_LOG_PATH | Some e \<Rightarrow> e);
     nlen \<leftarrow> ngx_strlen error_log;
     if nlen = 0 then
       Some \<lparr>li_log = Some (log\<lparr>lg_file_fd := ngx_stderr\<rparr>), li_opened = None, li_console = [],
             li_freed = False\<rparr>
     else if error_log ! 0 \<noteq> CHR ''/'' then do {
       let prefix = (case prefix of None \<Rightarrow> NGX_PREFIX | Some p \<Rightarrow> p);
       plen \<leftarrow> ngx_strlen prefix;
       if plen \<noteq> 0 then
         (case le_alloc env (plen + nlen + 2) of
            None \<Rightarrow> Some \<lparr>li_log = None, li_opened = None, li_console = [], li_freed = False\<rparr>
          | Some name \<Rightarrow> do {
              name \<leftarrow> log_path name prefix error_log plen nlen;
              log_open env log name True })
       else log_open env log error_log False }
     else log_open env log error_log False }"

subsection \<open>What the error texts are\<close>

definition put_char :: "char \<Rightarrow> char list \<Rightarrow> nat \<Rightarrow> nat \<Rightarrow> (char list \<times> nat) option" where
  "put_char c mem buf lst =
     (if buf < lst then do { mem \<leftarrow> poke mem buf c; Some (mem, buf + 1) } else Some (mem, buf))"

interpretation put_char: bounded_writer True "put_char c" "[[c]]" for c
  by unfold_locales (auto simp: put_char_def poke_patch span_def)

definition errno_head :: "u32 \<Rightarrow> char list" where
  "errno_head err = '' ('' @ (if sint err < 0 then ''-'' else []) @ dec_string (nat \<bar>sint err\<bar>) @ '': ''"

definition errno_text :: "(u32 \<Rightarrow> char list option) \<Rightarrow> u32 \<Rightarrow> char list" where
  "errno_text desc err = errno_head err @ error_text desc err @ '')''"

lemma errno_head_pieces:
  "fmt_pieces log_errno_fmt [VInt err] = Some (singles (errno_head err))"
  by (simp add: fmt_pieces.simps [of "_ # _"] fmt_pieces.simps [of "[NUL]"] parse_spec_def
      is_digit_def directive_pieces_def is_number_def number_value_def signed_int_def
      number_text_def num_string_def pad_left_def num_digits_def errno_head_def log_errno_fmt_def)

interpretation head: bounded_writer True
  "\<lambda>mem buf lst. ngx_slprintf mem buf lst log_errno_fmt [VInt err]"
  "singles (errno_head err)" for err
  by unfold_locales
    (simp add: ngx_slprintf_def ngx_vslprintf_wrote [OF errno_head_pieces] wrote_def)

interpretation head_body: writer_pair True
  "\<lambda>mem buf lst. ngx_slprintf mem buf lst log_errno_fmt [VInt err]"
  "singles (errno_head err)" "desc_ok desc err"
  "\<lambda>mem buf lst. ngx_strerror desc err mem buf (of_nat lst - of_nat buf)"
  "singles (error_text desc err)" for desc err
  ..

interpretation errno_writer: writer_pair "True \<and> desc_ok desc err"
  "\<lambda>mem buf lst. do { (mem, buf) \<leftarrow> ngx_slprintf mem buf lst log_errno_fmt [VInt err];
     ngx_strerror desc err mem buf (of_nat lst - of_nat buf) }"
  "singles (errno_head err) @ singles (error_text desc err)" True "put_char (CHR '')'')"
  "[[CHR '')'']]" for desc err
  ..

lemma log_errno_writes:
  assumes "desc_ok desc err" "span mem buf lst"
  shows "do { (mem, buf) \<leftarrow> ngx_slprintf mem buf lst log_errno_fmt [VInt err];
      (mem, buf) \<leftarrow> ngx_strerror desc err mem buf (of_nat lst - of_nat buf);
      if buf < lst then do { mem \<leftarrow> poke mem buf (CHR '')''); Some (mem, buf + 1) }
      else Some (mem, buf) } =
    Some (wrote mem buf (take (lst - buf) (errno_text desc err)))"
proof -
  have "(singles (errno_head err) @ singles (error_text desc err)) @ [[CHR '')'']]
    = singles (errno_text desc err)" by (simp add: errno_text_def)
  then have "do { (mem, buf) \<leftarrow> do { (mem, buf) \<leftarrow> ngx_slprintf mem buf lst log_errno_fmt [VInt err];
        ngx_strerror desc err mem buf (of_nat lst - of_nat buf) }; put_char (CHR '')'') mem buf lst } =
      Some (wrote mem buf (take (lst - buf) (errno_text desc err)))"
    using errno_writer.pair.writes [of desc err mem buf lst] assms by (simp add: wrote_def)
  then show ?thesis by (simp add: put_char_def case_prod_unfold)
qed

text \<open>The text goes where the buffer has room for it; less than 50 bytes are made 50.\<close>

definition log_dots :: "nat \<Rightarrow> nat \<Rightarrow> char list" where
  "log_dots buf lst = (if buf > lst - 50 then ''...'' else [])"

lemma ngx_log_errno_writes:
  assumes "desc_ok desc err" "span mem buf lst" "50 \<le> lst"
  shows "ngx_log_errno desc mem buf lst err =
    (let start = min buf (lst - 50);
         out = take (lst - start) (log_dots buf lst @ errno_text desc err)
     in Some (patch mem start out, start + length out))"
proof (cases "buf > lst - 50")
  case True
  define b where "b = lst - 50"
  have b: "b + 50 = lst" "lst \<le> length mem" "length mem < 2 ^ 64"
    using assms(2,3) unfolding b_def span_def by arith+
  have dots: "poke mem b (CHR ''.'') = Some (patch mem b ''.'')"
    "poke (patch mem b ''.'') (Suc b) (CHR ''.'') = Some (patch mem b ''..'')"
    "poke (patch mem b ''..'') (Suc (Suc b)) (CHR ''.'') = Some (patch mem b ''...'')"
    using b patch_append [of b "''.''" "''.''" mem] patch_append [of b "''..''" "''.''" mem]
    by (simp_all add: poke_patch)
  define e where "e = errno_text desc err"
  have "span (patch mem b ''...'') (b + 3) lst" using b by (simp add: span_def)
  note tail = log_errno_writes [OF assms(1) this]
  have room: "lst - b = 50" "min buf (lst - 50) = b" "lst - Suc (Suc (Suc b)) = 47"
    using b(1) True by arith+
  have e: "patch (patch mem b ''...'') (Suc (Suc (Suc b))) (take 47 e)
      = patch mem b (''...'' @ take 47 e)"
    using b patch_append [of b "''...''" "take 47 e" mem] by (simp add: numeral_3_eq_3)
  have "take 50 (''...'' @ e) = ''...'' @ take 47 e" by simp
  then show ?thesis
    using tail e True assms(3) dots
    by (simp add: ngx_log_errno_def Let_def b_def [symmetric] wrote_def log_dots_def room
        e_def [symmetric] numeral_3_eq_3 del: append.append_Cons)
next
  case False
  then show ?thesis
    using log_errno_writes [OF assms(1,2)] assms(3)
    by (simp add: ngx_log_errno_def wrote_def log_dots_def Let_def)
qed

definition stderr_line :: "(u32 \<Rightarrow> char list option) \<Rightarrow> u32 \<Rightarrow> char list \<Rightarrow> char list" where
  "stderr_line desc err body =
     (let t = ''nginx: '' @ body
      in take 2047 (if err = 0 then t
        else take 1998 t @ (if length t > 1998 then ''...'' else []) @ errno_text desc err) @ [LF])"

lemma take_patch_end:
  "i + length xs \<le> length mem \<Longrightarrow> take (i + length xs) (patch mem i xs) = take i mem @ xs"
  by (simp add: patch_def)

lemma stderr_tail:
  assumes "length mem = 2048" "p \<le> 2048"
  shows "(let p = (if p > 2047 then 2047 else p)
    in do { mem \<leftarrow> poke mem p LF; Some (take (p + 1) mem) }) = Some (take 2047 (take p mem) @ [LF])"
proof -
  have "take (q + 1) (patch mem q [LF]) = take q mem @ [LF]" if "q < 2048" for q
    using take_patch_end [of q "[LF]" mem] assms(1) that by simp
  from this [of p] this [of 2047] assms show ?thesis
    by (auto simp: poke_patch Let_def min_def)
qed

lemma ngx_log_stderr_line:
  assumes "length errstr = 2048" "fmt_pieces fmt args = Some ps" "err = 0 \<or> desc_ok desc err"
  shows "ngx_log_stderr desc errstr err fmt args = Some (stderr_line desc err (fill 2041 ps))"
proof -
  define body where "body = fill 2041 ps"
  define t where "t = ''nginx: '' @ body"
  define m1 where "m1 = patch errstr 0 ''nginx: ''"
  define m2 where "m2 = patch m1 7 body"
  have body: "length body \<le> 2041" unfolding body_def by (rule length_fill)
  have m1: "length m1 = 2048" "take 7 m1 = ''nginx: ''"
    using assms(1) by (simp_all add: m1_def patch_def)
  have len_t: "length t = 7 + length body" by (simp add: t_def)
  then have t: "length t \<le> 2048" using body by simp
  have "length m2 = 2048" using m1 body by (simp add: m2_def)
  moreover have "take (length t) m2 = t"
    using m1 body take_patch_end [of 7 body m1] unfolding m2_def t_def [symmetric] len_t
    by (simp add: t_def)
  ultimately have m2: "length m2 = 2048" "take (length t) m2 = t" .
  have start: "ngx_cpymem errstr 0 ''nginx: '' 7 = Some (m1, 7)"
    using assms(1) by (simp add: ngx_cpymem_def m1_def)
  have "span m1 7 2048" using m1 by (simp add: span_def)
  from ngx_vslprintf_wrote [OF assms(2) this]
  have msg: "ngx_vslprintf m1 7 2048 fmt args = Some (m2, length t)"
    by (simp add: wrote_def m2_def len_t body_def)
  show ?thesis
  proof (cases "err = 0")
    case True
    then show ?thesis
      using start msg stderr_tail [of m2 "length t"] m2 t
      by (auto simp: ngx_log_stderr_def NGX_MAX_ERROR_STR_def NGX_LINEFEED_SIZE_def stderr_line_def
          t_def [symmetric] body_def [symmetric] Let_def simp del: append_Cons
          split: if_splits)
  next
    case False
    define st where "st = min (length t) 1998"
    define out where "out = take (2048 - st) (log_dots (length t) 2048 @ errno_text desc err)"
    have st: "st \<le> 2048" "st + length out \<le> 2048" by (simp_all add: st_def out_def)
    have "span m2 (length t) 2048" using m2 t by (simp add: span_def)
    moreover have "desc_ok desc err" using assms(3) False by simp
    ultimately have num: "ngx_log_errno desc m2 (length t) 2048 err = Some (patch m2 st out, st + length out)"
      using ngx_log_errno_writes [of desc err m2 "length t" 2048]
      by (simp add: st_def [symmetric] out_def Let_def)
    have "take (st + length out) (patch m2 st out) = take st m2 @ out"
      using st m2(1) by (intro take_patch_end) simp
    moreover have "take st m2 = take 1998 t"
      using m2(2) by (metis min.commute st_def take_take)
    ultimately have "take 2047 (take (st + length out) (patch m2 st out)) =
        take 2047 (take 1998 t @ (if length t > 1998 then ''...'' else []) @ errno_text desc err)"
      by (simp add: out_def st_def log_dots_def min_def)
    then show ?thesis
      using start msg num False stderr_tail [of "patch m2 st out" "st + length out"] st m2(1)
      by (auto simp: ngx_log_stderr_def NGX_MAX_ERROR_STR_def NGX_LINEFEED_SIZE_def stderr_line_def
          t_def [symmetric] body_def [symmetric] Let_def simp del: append_Cons
          split: if_splits)
  qed
qed

subsection \<open>The path of the log\<close>

definition log_file_path :: "char list \<Rightarrow> char list \<Rightarrow> char list" where
  "log_file_path px ex =
     (if ex \<noteq> [] \<and> hd ex = CHR ''/'' \<or> px = [] then ex
      else px @ (if ngx_path_separator (last px) then [] else ''/'') @ ex)"

lemma log_path_correct:
  assumes "NUL \<notin> set px" "NUL \<notin> set ex" "px \<noteq> []" "length px + length ex + 2 < 2 ^ 64"
    "length name = length px + length ex + 2"
  shows "\<exists>rest. log_path name (px @ NUL # pr) (ex @ NUL # er) (of_nat (length px)) (of_nat (length ex)) =
    Some (px @ (if ngx_path_separator (last px) then [] else ''/'') @ ex @ NUL # rest)"
proof -
  define n1 where "n1 = patch name 0 px"
  have len: "unat (of_nat (length px) :: u64) = length px" "unat (of_nat (length ex) :: u64) = length ex"
    using assms(4) by (simp_all add: unat_of_nat_64)
  have n1: "n1 = px @ drop (length px) name" "length n1 = length name"
    using assms(5) by (simp_all add: n1_def patch_def)
  have copy: "ngx_cpymem name 0 (px @ NUL # pr) (of_nat (length px)) = Some (n1, length px)"
    using assms(5) len by (simp add: ngx_cpymem_def n1_def)
  have lst: "n1 ! (length px - 1) = last px"
    using assms(3) by (simp add: n1(1) nth_append last_conv_nth)
  have n: "unat (of_nat (length ex) + 1 :: u64) = length ex + 1"
    using assms(4) len by (subst unat_plus_no_wrap) simp_all
  then have n0: "of_nat (length ex) + 1 \<noteq> (0 :: u64)" by (metis One_nat_def add_is_0 nat.simps(3) unat_0)
  have tail: "ngx_cpystrn m p (ex @ NUL # er) (of_nat (length ex) + 1) =
      Some (patch m p (ex @ [NUL]), p + length ex)" if "p + length ex < length m" for m p
    using cpystrn_loop_eq [OF n0 assms(2), of p m] n0 that n by (simp add: ngx_cpystrn_def)
  show ?thesis
  proof (cases "ngx_path_separator (last px)")
    case True
    then show ?thesis
      using assms(5) copy lst n1 tail [of "length px" n1]
      by (simp add: log_path_def patch_def)
  next
    case False
    then show ?thesis
      using assms(5) copy lst n1 tail [of "Suc (length px)" "patch n1 (length px) ''/''"]
      by (simp add: log_path_def poke_patch patch_def)
  qed
qed


definition open_failed_text :: "char list \<Rightarrow> char list" where
  "open_failed_text path = ''[alert] could not open error log file: open() '' @ [CHR 0x22] @ path
     @ [CHR 0x22] @ '' failed''"

lemma fmt_pieces_plain:
  "NUL \<notin> set s \<Longrightarrow> CHR ''%'' \<notin> set s \<Longrightarrow>
   fmt_pieces (s @ fmt) args = map_option ((@) (singles s)) (fmt_pieces fmt args)"
  by (cases "fmt_pieces fmt args"; induction s) (auto simp: fmt_pieces.simps [of "_ # _"])

lemma fmt_pieces_nul: "fmt_pieces [NUL] args = Some []"
  by (simp add: fmt_pieces.simps)

lemma open_failed_pieces:
  assumes "NUL \<notin> set path"
  shows "fmt_pieces log_open_failed [VCStr (path @ NUL # rest)] = Some (singles (open_failed_text path))"
proof -
  have quote: "fmt_pieces ([CHR 0x22] @ '' failed'' @ [NUL]) [] = Some (singles ([CHR 0x22] @ '' failed''))"
    using fmt_pieces_plain [of "[CHR 0x22] @ '' failed''" "[NUL]" "[]"] by (simp add: fmt_pieces_nul)
  have "fmt_pieces (''%s'' @ [CHR 0x22] @ '' failed'' @ [NUL]) [VCStr (path @ NUL # rest)]
      = Some (singles (path @ [CHR 0x22] @ '' failed''))"
    using assms quote
    by (simp add: fmt_pieces.simps [of "CHR ''%'' # _"] parse_spec_def is_digit_def directive_pieces_def
        string_pieces_def str_ok_def str_pieces_def str_content_def takeWhile_NUL)
  then show ?thesis
    using fmt_pieces_plain [of "''[alert] could not open error log file: open() '' @ [CHR 0x22]"
        "''%s'' @ [CHR 0x22] @ '' failed'' @ [NUL]" "[VCStr (path @ NUL # rest)]"]
    by (simp add: log_open_failed_def open_failed_text_def)
qed

definition open_console :: "log_env \<Rightarrow> char list \<Rightarrow> char list" where
  "open_console env path = stderr_line (le_desc env) (le_errno env) (take 2041 (open_failed_text path))"

lemma log_open_result:
  assumes "NUL \<notin> set path" "length (le_errstr env) = 2048" "desc_ok (le_desc env) (le_errno env)"
  shows "log_open env log (path @ NUL # rest) p =
    Some \<lparr>li_log = Some (log\<lparr>lg_file_fd := if le_open env (path @ NUL # rest) = NGX_INVALID_FILE
              then ngx_stderr else le_open env (path @ NUL # rest)\<rparr>),
          li_opened = Some (path @ NUL # rest),
          li_console = (if le_open env (path @ NUL # rest) = NGX_INVALID_FILE
              then open_console env path else []), li_freed = p\<rparr>"
  using ngx_log_stderr_line [OF assms(2) open_failed_pieces [OF assms(1)], of "le_errno env"] assms(3)
  by (simp add: log_open_def open_console_def)


subsection \<open>Properties\<close>

text \<open>
  C14: \<open>ngx_log_init\<close> never leaves the memory it allocated for the path. An absolute name is
  opened as it is; a relative one after the prefix, with one separator between them. When the
  open fails the log falls back to standard error, and the failure is reported there with the
  path and the error number. An empty name selects standard error and a failed allocation
  returns \<open>NULL\<close>.
\<close>

theorem ngx_log_init_correct:
  assumes "NUL \<notin> set px" "NUL \<notin> set ex" "length px + length ex + 2 < 2 ^ 64"
    "\<forall>n obj. le_alloc env n = Some obj \<longrightarrow> length obj = unat n"
    "length (le_errstr env) = 2048" "desc_ok (le_desc env) (le_errno env)"
  shows "\<exists>rest. ngx_log_init env (Some (px @ NUL # pr)) (Some (ex @ NUL # er)) =
    (let composed = (hd (ex @ [NUL]) \<noteq> CHR ''/'' \<and> px \<noteq> []);
         obj = log_file_path px ex @ NUL # rest;
         fd = le_open env obj;
         to = (\<lambda>fd. Some \<lparr>lg_log_level = NGX_LOG_NOTICE, lg_file_fd = fd, lg_connection = 0\<rparr>)
     in Some
       (if ex = [] then \<lparr>li_log = to 2, li_opened = None, li_console = [], li_freed = False\<rparr>
        else if composed \<and> le_alloc env (of_nat (length px + length ex + 2)) = None
        then \<lparr>li_log = None, li_opened = None, li_console = [], li_freed = False\<rparr>
        else if fd = NGX_INVALID_FILE
        then \<lparr>li_log = to 2, li_opened = Some obj,
              li_console = open_console env (log_file_path px ex), li_freed = composed\<rparr>
        else \<lparr>li_log = to fd, li_opened = Some obj, li_console = [], li_freed = composed\<rparr>))"
proof -
  have lens: "(of_nat (length ex) :: u64) = 0 \<longleftrightarrow> ex = []" "(of_nat (length px) :: u64) = 0 \<longleftrightarrow> px = []"
    using assms(3) unat_of_nat_64 [of "length ex"] unat_of_nat_64 [of "length px"]
    by (auto simp flip: length_0_conv unat_eq_zero)
  have size_ok: "unat (of_nat (length px + length ex + 2) :: u64) = length px + length ex + 2"
    using assms(3) by (rule unat_of_nat_64)
  have opens: "log_open env log (path @ NUL # rest) p = Some (if le_open env (path @ NUL # rest) = NGX_INVALID_FILE
      then \<lparr>li_log = Some (log\<lparr>lg_file_fd := 2\<rparr>), li_opened = Some (path @ NUL # rest),
              li_console = open_console env path, li_freed = p\<rparr>
      else \<lparr>li_log = Some (log\<lparr>lg_file_fd := le_open env (path @ NUL # rest)\<rparr>),
            li_opened = Some (path @ NUL # rest), li_console = [], li_freed = p\<rparr>)"
    if "NUL \<notin> set path" for log path rest p
    using log_open_result [OF that assms(5,6), of log rest p] by (simp add: ngx_stderr_def)
  note start = ngx_log_init_def strlen_string [OF assms(1)] strlen_string [OF assms(2)] lens
  consider (empty) "ex = []" | (whole) "ex \<noteq> []" "hd ex = CHR ''/'' \<or> px = []"
    | (fail) "ex \<noteq> []" "hd ex \<noteq> CHR ''/''" "px \<noteq> []" "le_alloc env (of_nat (length px + length ex + 2)) = None"
    | (path) obj where "ex \<noteq> []" "hd ex \<noteq> CHR ''/''" "px \<noteq> []" "le_alloc env (of_nat (length px + length ex + 2)) = Some obj"
    by (cases "le_alloc env (of_nat (length px + length ex + 2))") auto
  then show ?thesis
  proof cases
    case empty
    then show ?thesis by (simp add: start ngx_stderr_def)
  next
    case whole
    then have "log_file_path px ex = ex" by (auto simp: log_file_path_def)
    then show ?thesis
      using whole opens [OF assms(2), of _ er False]
      by (intro exI [of _ er]) (auto simp: start hd_conv_nth nth_append Let_def)
  next
    case fail
    then show ?thesis using fail by (auto simp: start hd_conv_nth nth_append Let_def ac_simps)
  next
    case (path obj)
    then obtain rest where p: "log_path obj (px @ NUL # pr) (ex @ NUL # er) (of_nat (length px))
        (of_nat (length ex)) = Some (log_file_path px ex @ NUL # rest)"
      using log_path_correct [OF assms(1,2) path(3) assms(3), of obj pr er] assms(4) size_ok
      by (force simp: log_file_path_def)
    have "NUL \<notin> set (log_file_path px ex)" using assms(1,2) by (auto simp: log_file_path_def)
    with path p opens show ?thesis
      by (intro exI [of _ rest]) (simp add: start hd_conv_nth nth_append Let_def ac_simps)
  qed
qed


theorem ngx_log_init_correct_witness:
  "\<exists>rest r. ngx_log_init \<lparr>le_desc = (\<lambda>_. None), le_errstr = replicate 2048 NUL,
        le_alloc = (\<lambda>n. Some (replicate (unat n) NUL)), le_open = (\<lambda>_. -1), le_errno = 2\<rparr>
      (Some (''/opt'' @ NUL # [])) (Some (''e.log'' @ NUL # [])) = Some r
    \<and> li_opened r = Some (''/opt/e.log'' @ NUL # rest) \<and> li_log r \<noteq> None \<and> li_freed r
    \<and> li_console r = ''nginx: [alert] could not open error log file: open() '' @ [CHR 0x22]
      @ ''/opt/e.log'' @ [CHR 0x22] @ '' failed (2: Unknown error)'' @ [LF]"
proof -
  have ds: "dec_string 2 = ''2''" by code_simp
  show ?thesis
    using ngx_log_init_correct [of "''/opt''" "''e.log''" "\<lparr>le_desc = (\<lambda>_. None),
        le_errstr = replicate 2048 NUL, le_alloc = (\<lambda>n. Some (replicate (unat n) NUL)),
        le_open = (\<lambda>_. -1), le_errno = 2\<rparr>" "[]" "[]"]
    by (auto simp: desc_ok_def log_file_path_def ngx_path_separator_def NGX_INVALID_FILE_def
        open_console_def stderr_line_def open_failed_text_def errno_text_def errno_head_def
        error_text_def ds Let_def)
qed

text \<open>
  \<open>ngx_log_errno\<close> appends the error number and its description in parentheses, cut to what
  the buffer holds; when fewer than 50 bytes are left it first gives up the end of the message,
  marked with three dots, and it never passes the limit.
\<close>

theorem ngx_log_errno_correct:
  assumes "desc_ok desc err" "span mem buf lst" "50 \<le> lst"
  shows "\<exists>mem' buf'. ngx_log_errno desc mem buf lst err = Some (mem', buf') \<and> buf' \<le> lst
    \<and> (let start = min buf (lst - 50);
           dots = (if buf > lst - 50 then ''...'' else []);
           out = take (lst - start) (dots @ errno_text desc err)
       in mem' = patch mem start out \<and> buf' = start + length out)"
proof -
  have "start + length (take (lst - start) xs) \<le> lst" if "start \<le> lst" for start and xs :: "char list"
    using that by simp
  from this [of "min buf (lst - 50)"] show ?thesis
    using ngx_log_errno_writes [OF assms] assms(3)
    by (simp only: Let_def log_dots_def option.inject prod.inject) auto
qed

theorem ngx_log_errno_correct_witness:
  "\<exists>mem' buf'. ngx_log_errno (\<lambda>_. Some (''No such file'' @ [NUL])) (replicate 60 NUL) 30 60 2 = Some (mem', buf')
    \<and> mem' = patch (replicate 60 NUL) 10 ''... (2: No such file)'' \<and> buf' = 31"
proof -
  have ds: "dec_string 2 = ''2''" by code_simp
  show ?thesis
    using ngx_log_errno_correct [of "\<lambda>_. Some (''No such file'' @ [NUL])" 2 "replicate 60 NUL" 30 60]
    by (simp add: desc_ok_def span_def error_text_def errno_text_def
        errno_head_def ds Let_def)
qed

text \<open>
  C33: what \<open>ngx_log_stderr\<close> writes is one line of at most 2048 bytes: the tag, the formatted
  message, for a non-zero error number its text, and a line feed, which is there even when
  everything before it is cut.
\<close>

theorem ngx_log_stderr_correct:
  assumes "length errstr = 2048" "fmt_pieces fmt args = Some ps" "err = 0 \<or> desc_ok desc err"
  shows "\<exists>line. ngx_log_stderr desc errstr err fmt args = Some (line @ [LF]) \<and> length line \<le> 2047
    \<and> line = take 2047 (let t = ''nginx: '' @ fill 2041 ps
        in if err = 0 then t
           else take 1998 t @ (if length t > 1998 then ''...'' else []) @ errno_text desc err)"
  using ngx_log_stderr_line [OF assms] by (simp add: stderr_line_def Let_def)

theorem ngx_log_stderr_correct_witness:
  "ngx_log_stderr (\<lambda>_. None) (replicate 2048 NUL) 0 (''hi'' @ [NUL]) [] = Some (''nginx: hi'' @ [LF])"
proof -
  have "fmt_pieces (''hi'' @ [NUL]) [] = Some [''h'', ''i'']" by code_simp
  from ngx_log_stderr_correct [OF _ this, of "replicate 2048 NUL" 0 "\<lambda>_. None"] show ?thesis
    by (simp add: Let_def)
qed

subsection \<open>The message of the log\<close>

definition signed_text :: "int \<Rightarrow> char list" where
  "signed_text v = (if v < 0 then ''-'' else []) @ dec_string (nat \<bar>v\<bar>)"

lemma fmt_pieces_char:
  "c \<noteq> NUL \<Longrightarrow> c \<noteq> CHR ''%'' \<Longrightarrow> fmt_pieces (c # fmt) args = map_option ((#) [c]) (fmt_pieces fmt args)"
  by (simp add: fmt_pieces.simps [of "c # fmt"])

lemmas fmt_step = fmt_pieces_char fmt_pieces_nul fmt_pieces.simps [of "CHR ''%'' # _"] parse_spec_def
  is_digit_def directive_pieces_def is_number_def number_value_def signed_int_def signed_long_def
  number_text_def num_string_def pad_left_def num_digits_def

text \<open>Without room nothing is printed.\<close>

lemma ngx_vslprintf_no_room: "fmt \<noteq> [] \<Longrightarrow> lst \<le> buf \<Longrightarrow> ngx_vslprintf mem buf lst fmt args = Some (mem, buf)"
  by (cases fmt) (simp_all add: ngx_vslprintf.simps [of mem buf lst "_ # _"])

lemma error_core_no_limit: "256 \<le> unat base \<Longrightarrow> error_core_limit base = 0"
proof -
  assume "256 \<le> unat base"
  moreover have "unat (ucast (ucast (base + of_nat NGX_MAX_ERROR_STR) :: 8 word) :: u64) < 256"
    using unsigned_less [of "ucast (base + of_nat NGX_MAX_ERROR_STR) :: 8 word", where ?'a = nat]
    by (simp add: unsigned_ucast_eq unsigned_take_bit_eq)
  ultimately show ?thesis by (simp add: error_core_limit_def Let_def word_less_nat_alt)
qed

lemma error_core_result:
  assumes "length errstr = 2048" "256 \<le> unat base" "unat (str_len time) \<le> length (str_data time)"
    "unat (str_len time) \<le> 2048" "NUL \<in> set fmt"
  shows "ngx_log_error_core desc time pid errstr base level log err fmt args =
    (if level \<le> NGX_LOG_DEBUG \<and> err = 0
     then Some (patch errstr 0 (take (unat (str_len time)) (str_data time)), unat (str_len time)) else None)"
proof -
  have "fmt \<noteq> []" using assms(5) by auto
  moreover have "unat level < length err_levels \<longleftrightarrow> level \<le> NGX_LOG_DEBUG"
    by (auto simp: err_levels_def NGX_LOG_DEBUG_def word_le_nat_alt)
  moreover have "ngx_cpymem errstr 0 (str_data time) (str_len time)
      = Some (patch errstr 0 (take (unat (str_len time)) (str_data time)), unat (str_len time))"
    using assms(1,3,4) by (simp add: ngx_cpymem_def)
  ultimately show ?thesis
    by (simp add: ngx_log_error_core_def error_core_no_limit [OF assms(2)] ngx_slprintf_def ngx_vslprintf_no_room
        log_level_fmt_def log_pid_fmt_def log_connection_fmt_def ngx_log_errno_def)
qed

text \<open>
  C16: \<open>ngx_log_error_core\<close> as it is written, with the limit of its buffer cut to a byte: wherever the buffer lies, but for
  the first 256 addresses, there is no room behind the limit. Whatever the level, the log, the format and its arguments, the
  composed message is the time stamp alone when the error number is 0, and for any other error number the
  run is undefined, as \<open>ngx_log_errno\<close> then computes a position 50 bytes in front of the limit. A level that is not one
  of the nine reads past the table of their names.
\<close>

theorem ngx_log_error_core_correct:
  assumes "length errstr = 2048" "256 \<le> unat base" "unat (str_len time) \<le> length (str_data time)"
    "unat (str_len time) \<le> 2048" "NUL \<in> set fmt"
  shows "ngx_log_error_core desc time pid errstr base level log err fmt args =
    (if level \<le> NGX_LOG_DEBUG \<and> err = 0
     then Some (patch errstr 0 (take (unat (str_len time)) (str_data time)), unat (str_len time)) else None)"
  using assms by (rule error_core_result)

theorem ngx_log_error_core_correct_witness:
  "ngx_log_error_core (\<lambda>e. None) \<lparr>str_len = 5, str_data = ''12:00''\<rparr> 7 (replicate 2048 NUL) 0x7ffc00001000
      NGX_LOG_ERR \<lparr>lg_log_level = NGX_LOG_NOTICE, lg_file_fd = 2, lg_connection = 3\<rparr> 0 (''hi'' @ [NUL]) []
    = Some (''12:00'' @ replicate 2043 NUL, 5)"
  using ngx_log_error_core_correct [where errstr = "replicate 2048 NUL" and base = "0x7ffc00001000"
      and time = "\<lparr>str_len = 5, str_data = ''12:00''\<rparr>" and fmt = "''hi'' @ [NUL]"]
  by (simp add: patch_def NGX_LOG_ERR_def NGX_LOG_DEBUG_def)

end
