(* ===== verification/Ngx_Format_Types.thy ===== *)
theory Ngx_Format_Types
  imports Ngx_Format "HOL-Library.Sublist"
begin

text \<open>
  A type discipline for the format strings of \<^verbatim>\<open>src/core/ngx_string.c\<close>: the kinds of the arguments
  that a format takes, computed from its characters alone, and what they say about the runs of
  \<open>ngx_vslprintf\<close>.
\<close>

subsection \<open>Kinds of arguments\<close>

datatype vkind = KInt | KLong | KDouble | KPtr | KCStr | KStr | KVar

fun kind_of :: "varg \<Rightarrow> vkind" where
  "kind_of (VInt _) = KInt"
| "kind_of (VLong _) = KLong"
| "kind_of (VDouble _) = KDouble"
| "kind_of (VPtr _) = KPtr"
| "kind_of (VCStr _) = KCStr"
| "kind_of (VStr _) = KStr"
| "kind_of (VVar _) = KVar"

text \<open>The kinds that the modifiers of a specification take, and the rest of the format.\<close>

fun mods_kinds :: "char list \<Rightarrow> (vkind list \<times> char list) option" where
  "mods_kinds [] = None"
| "mods_kinds (c # fmt) =
     (if c \<in> set ''umXx'' then mods_kinds fmt
      else if c = CHR ''.'' then map_option (\<lambda>(n, fmt). ([], fmt)) (parse_digits 0 fmt)
      else if c = CHR ''*'' then map_option (\<lambda>(ks, fmt). (KLong # ks, fmt)) (mods_kinds fmt)
      else Some ([], c # fmt))"

definition spec_kinds :: "char list \<Rightarrow> (vkind list \<times> char list) option" where
  "spec_kinds fmt = Option.bind (parse_digits 0 fmt) (\<lambda>(n, fmt). mods_kinds fmt)"

definition letter_kinds :: "char \<Rightarrow> vkind list" where
  "letter_kinds c =
     (if c = CHR ''V'' then [KStr] else if c = CHR ''v'' then [KVar] else if c = CHR ''s'' then [KCStr]
      else if c = CHR ''f'' then [KDouble] else if c = CHR ''p'' then [KPtr]
      else if c \<in> set ''PdDc'' then [KInt] else if c \<in> set ''OTMzilLAr'' then [KLong] else [])"

lemma mods_kinds_shorter: "mods_kinds fmt = Some (ks, fmt') \<Longrightarrow> length fmt' \<le> length fmt"
  by (induction fmt arbitrary: ks) (auto split: if_splits dest!: parse_digits_shorter)

lemma spec_kinds_shorter: "spec_kinds fmt = Some (ks, fmt') \<Longrightarrow> length fmt' \<le> length fmt"
  by (auto simp: spec_kinds_def split: Option.bind_splits dest!: parse_digits_shorter mods_kinds_shorter)

text \<open>The kinds of all arguments that a format takes, read off its characters.\<close>

function fmt_kinds :: "char list \<Rightarrow> vkind list option" where
  "fmt_kinds fmt = (case fmt of [] \<Rightarrow> None | c # rest \<Rightarrow>
     (if c = NUL then Some []
      else if c = CHR ''%'' then
        (case spec_kinds rest of None \<Rightarrow> None
         | Some (ks, fmt1) \<Rightarrow>
             (case fmt1 of [] \<Rightarrow> None
              | d # fmt2 \<Rightarrow> map_option (\<lambda>ks'. ks @ letter_kinds d @ ks') (fmt_kinds fmt2)))
      else fmt_kinds rest))"
  by pat_completeness auto
termination
  by (relation "measure length") (auto dest!: spec_kinds_shorter)

declare fmt_kinds.simps [simp del]

definition well_typed :: "char list \<Rightarrow> varg list \<Rightarrow> bool" where
  "well_typed fmt args \<longleftrightarrow> (case fmt_kinds fmt of None \<Rightarrow> False | Some ks \<Rightarrow> prefix ks (map kind_of args))"

lemma parse_digits_rest:
  "parse_digits w fmt = Some (n, fmt') \<Longrightarrow> \<exists>m. parse_digits v fmt = Some (m, fmt')"
proof (induction w fmt arbitrary: v rule: parse_digits.induct)
  case (2 w c fmt)
  then show ?case by (cases "is_digit c") auto
qed simp

lemma va_kinds:
  "va_int args = Some (w, rest) \<Longrightarrow> map kind_of args = KInt # map kind_of rest"
  "va_long args = Some (l, rest) \<Longrightarrow> map kind_of args = KLong # map kind_of rest"
  "va_double args = Some (f, rest) \<Longrightarrow> map kind_of args = KDouble # map kind_of rest"
  "va_ptr args = Some (l, rest) \<Longrightarrow> map kind_of args = KPtr # map kind_of rest"
  "va_cstr args = Some (p, rest) \<Longrightarrow> map kind_of args = KCStr # map kind_of rest"
  "va_str args = Some (v, rest) \<Longrightarrow> map kind_of args = KStr # map kind_of rest"
  "va_var args = Some (vv, rest) \<Longrightarrow> map kind_of args = KVar # map kind_of rest"
  by (cases args; cases "hd args"; simp)+

lemma kinds_va:
  "map kind_of args = KInt # ks \<Longrightarrow> \<exists>w rest. va_int args = Some (w, rest) \<and> args = VInt w # rest \<and> map kind_of rest = ks"
  "map kind_of args = KLong # ks \<Longrightarrow> \<exists>l rest. va_long args = Some (l, rest) \<and> args = VLong l # rest \<and> map kind_of rest = ks"
  "map kind_of args = KPtr # ks \<Longrightarrow> \<exists>l rest. va_ptr args = Some (l, rest) \<and> args = VPtr l # rest \<and> map kind_of rest = ks"
  by (cases args; cases "hd args"; force)+

lemma parse_mods_kinds:
  "parse_mods s fmt args = Some (s', fmt', args') \<Longrightarrow>
   \<exists>ks. mods_kinds fmt = Some (ks, fmt') \<and> map kind_of args = ks @ map kind_of args'"
proof (induction s fmt args rule: parse_mods.induct)
  case (2 s c fmt args)
  consider (flag) "c \<in> set ''umXx''" | (dot) "c = CHR ''.''" | (star) "c = CHR ''*''"
    | (other) "c \<notin> set ''umXx.*''" by auto
  then show ?case
  proof cases
    case dot
    then obtain n where "parse_digits (fs_frac_width s) fmt = Some (n, fmt')" "args' = args"
      using "2.prems" by (auto split: Option.bind_splits)
    with dot show ?thesis using parse_digits_rest [of "fs_frac_width s" fmt n fmt' 0] by auto
  next
    case star
    then obtain l rest where "va_long args = Some (l, rest)" "parse_mods (s\<lparr>fs_slen := l\<rparr>) fmt rest = Some (s', fmt', args')"
      using "2.prems" by (auto split: option.splits)
    with star show ?thesis using "2.IH"(5) va_kinds(2) by fastforce
  qed (use "2.IH"(1-4) "2.prems" in auto)
qed simp

lemma mods_kinds_parse:
  "mods_kinds fmt = Some (ks, fmt') \<Longrightarrow> map kind_of args = ks @ rest \<Longrightarrow>
   \<exists>s' args'. parse_mods s fmt args = Some (s', fmt', args') \<and> map kind_of args' = rest"
proof (induction fmt arbitrary: ks s args)
  case (Cons c fmt)
  consider (flag) "c \<in> set ''umXx''" | (dot) "c = CHR ''.''" | (star) "c = CHR ''*''"
    | (other) "c \<notin> set ''umXx.*''" by auto
  then show ?case
  proof cases
    case dot
    then obtain n where n: "parse_digits 0 fmt = Some (n, fmt')" "ks = []" using Cons.prems(1) by auto
    obtain m where "parse_digits (fs_frac_width s) fmt = Some (m, fmt')" using parse_digits_rest [OF n(1)] by blast
    with dot n(2) show ?thesis using Cons.prems(2) by simp
  next
    case star
    then obtain ks' where ks: "mods_kinds fmt = Some (ks', fmt')" "ks = KLong # ks'" using Cons.prems(1) by auto
    then obtain l args1 where "va_long args = Some (l, args1)" "map kind_of args1 = ks' @ rest"
      using kinds_va(2) [of args "ks' @ rest"] Cons.prems(2) by auto
    with star show ?thesis using Cons.IH [OF ks(1), of args1 "s\<lparr>fs_slen := l\<rparr>"] by auto
  qed (use Cons in auto)
qed simp

lemma parse_spec_kinds:
  assumes "parse_spec fmt args = Some (s, fmt', args')"
  shows "\<exists>ks. spec_kinds fmt = Some (ks, fmt') \<and> map kind_of args = ks @ map kind_of args'"
proof -
  obtain n fmt1 s0 where "parse_digits 0 fmt = Some (n, fmt1)" "parse_mods s0 fmt1 args = Some (s, fmt', args')"
    using assms by (auto simp: parse_spec_def Let_def simp del: parse_digits.simps split: list.splits Option.bind_splits)
  then show ?thesis using parse_mods_kinds by (auto simp: spec_kinds_def)
qed

lemma spec_kinds_parse:
  assumes "spec_kinds fmt = Some (ks, fmt')" "map kind_of args = ks @ rest"
  shows "\<exists>s args'. parse_spec fmt args = Some (s, fmt', args') \<and> map kind_of args' = rest"
proof -
  obtain n fmt1 where n: "parse_digits 0 fmt = Some (n, fmt1)" "mods_kinds fmt1 = Some (ks, fmt')"
    using assms(1) by (auto simp: spec_kinds_def split: Option.bind_splits)
  then obtain c r where "fmt = c # r" by (cases fmt) auto
  then show ?thesis
    using n mods_kinds_parse [OF n(2) assms(2)] by (simp add: parse_spec_def Let_def del: parse_digits.simps)
qed

subsection \<open>Formats that denote pieces are well typed\<close>

lemma number_value_kinds:
  "number_value s c args = Some (v, zero, hex, width, args') \<Longrightarrow> is_number c \<Longrightarrow>
   map kind_of args = letter_kinds c @ map kind_of args'"
  by (cases args; cases "hd args") (auto simp: number_value_def letter_kinds_def is_number_def split: if_splits)

lemma directive_kinds:
  assumes "directive_pieces s fmt args = Some (ps, fmt', args')"
  shows "\<exists>c. fmt = c # fmt' \<and> map kind_of args = letter_kinds c @ map kind_of args'"
proof -
  obtain c where fmt: "fmt = c # fmt'"
    using assms by (auto simp: directive_pieces_def split: list.splits if_splits Option.bind_splits)
  show ?thesis
  proof (cases "is_number c")
    case True
    then have "c \<noteq> CHR ''V''" "c \<noteq> CHR ''v''" "c \<noteq> CHR ''s''" by (auto simp: is_number_def)
    then show ?thesis
      using assms True number_value_kinds unfolding fmt directive_pieces_def
      by (auto split: Option.bind_splits)
  next
    case False
    then have "c \<notin> set ''pPdDOTMzilLAr''" by (auto simp: is_number_def)
    then show ?thesis
      using assms False unfolding fmt directive_pieces_def letter_kinds_def
      by (auto dest: va_kinds split: if_splits Option.bind_splits)
  qed
qed

lemma fmt_pieces_typed: "fmt_pieces fmt args = Some ps \<Longrightarrow> well_typed fmt args"
proof (induction fmt args arbitrary: ps rule: fmt_pieces.induct)
  case (1 fmt args)
  obtain c rest where fmt: "fmt = c # rest"
    using "1.prems" by (cases fmt) (auto simp: fmt_pieces.simps)
  note unf = "1.prems" [unfolded fmt fmt_pieces.simps [of "c # rest"] list.case]
  consider (stop) "c = NUL" | (dir) "c = CHR ''%''" | (lit) "c \<noteq> NUL" "c \<noteq> CHR ''%''" by blast
  then show ?case
  proof cases
    case stop
    then show ?thesis by (simp add: well_typed_def fmt fmt_kinds.simps [of "_ # _"])
  next
    case lit
    then obtain qs where "fmt_pieces rest args = Some qs" using unf by auto
    then have "well_typed rest args" using "1.IH"(2) [OF fmt lit] by blast
    then show ?thesis using lit by (simp add: well_typed_def fmt fmt_kinds.simps [of "c # _"])
  next
    case dir
    then obtain s fmt1 args1 ps1 fmt2 args2 qs where
      p: "parse_spec rest args = Some (s, fmt1, args1)"
      and d: "directive_pieces s fmt1 args1 = Some (ps1, fmt2, args2)"
      and q: "fmt_pieces fmt2 args2 = Some qs"
      using unf by (auto split: option.splits)
    have "well_typed fmt2 args2" using "1.IH"(1) [OF fmt _ dir p _ _ d _ _ q] dir by simp
    then obtain ks where ks: "fmt_kinds fmt2 = Some ks" "prefix ks (map kind_of args2)"
      by (auto simp: well_typed_def split: option.splits)
    obtain js where js: "spec_kinds rest = Some (js, fmt1)" "map kind_of args = js @ map kind_of args1"
      using parse_spec_kinds [OF p] by blast
    obtain d where d: "fmt1 = d # fmt2" "map kind_of args1 = letter_kinds d @ map kind_of args2"
      using directive_kinds [OF d] by blast
    show ?thesis
      using dir js d ks by (simp add: well_typed_def fmt fmt_kinds.simps [of "CHR ''%'' # _"])
  qed
qed

subsection \<open>Well-typed scalar formats denote pieces\<close>

definition scalar :: "vkind \<Rightarrow> bool" where
  "scalar k \<longleftrightarrow> k = KInt \<or> k = KLong \<or> k = KPtr"

lemma kinds_number:
  assumes "is_number c" "map kind_of args = letter_kinds c @ rest"
  shows "\<exists>v zero hex width args'. number_value s c args = Some (v, zero, hex, width, args') \<and> map kind_of args' = rest"
  using assms unfolding is_number_cases
  by (elim disjE) (auto simp: letter_kinds_def number_value_def dest!: kinds_va)

lemma kinds_directive:
  assumes "map kind_of args = letter_kinds c @ rest" "list_all scalar (letter_kinds c)"
  shows "\<exists>ps args'. directive_pieces s (c # fmt) args = Some (ps, fmt, args') \<and> map kind_of args' = rest"
proof (cases "is_number c")
  case True
  then have "c \<noteq> CHR ''V''" "c \<noteq> CHR ''v''" "c \<noteq> CHR ''s''" by (auto simp: is_number_def)
  then show ?thesis using True kinds_number [OF True assms(1), of s] by (auto simp: directive_pieces_def)
next
  case False
  then have "c \<notin> set ''pPdDOTMzilLAr''" by (auto simp: is_number_def)
  moreover have "c \<notin> set ''Vvsf''" using assms(2) by (auto simp: letter_kinds_def scalar_def)
  ultimately show ?thesis
    using assms(1) False by (auto simp: directive_pieces_def letter_kinds_def dest!: kinds_va split: if_splits)
qed

lemma typed_fmt_pieces:
  "fmt_kinds fmt = Some ks \<Longrightarrow> list_all scalar ks \<Longrightarrow> map kind_of args = ks @ rest \<Longrightarrow> fmt_pieces fmt args \<noteq> None"
proof (induction fmt arbitrary: ks args rule: fmt_kinds.induct)
  case (1 fmt)
  obtain c tl where fmt: "fmt = c # tl"
    using "1.prems"(1) by (cases fmt) (auto simp: fmt_kinds.simps)
  note unf = "1.prems"(1) [unfolded fmt fmt_kinds.simps [of "c # tl"] list.case]
  consider (stop) "c = NUL" | (dir) "c = CHR ''%''" | (lit) "c \<noteq> NUL" "c \<noteq> CHR ''%''" by blast
  then show ?case
  proof cases
    case stop
    then show ?thesis by (simp add: fmt fmt_pieces.simps [of "_ # _"])
  next
    case lit
    then have "fmt_pieces tl args \<noteq> None" using "1.IH"(2) [OF fmt lit _ "1.prems"(2,3)] unf by simp
    then show ?thesis using lit by (auto simp: fmt fmt_pieces.simps [of "c # _"])
  next
    case dir
    obtain js d fmt2 ks' where
      j: "spec_kinds tl = Some (js, d # fmt2)" and k: "fmt_kinds fmt2 = Some ks'" and ks: "ks = js @ letter_kinds d @ ks'"
      using unf dir by (auto split: option.splits list.splits)
    have sc: "list_all scalar (letter_kinds d)" "list_all scalar ks'" using "1.prems"(2) by (simp_all add: ks)
    have m: "map kind_of args = js @ letter_kinds d @ ks' @ rest" using "1.prems"(3) by (simp add: ks)
    obtain s args1 where p: "parse_spec tl args = Some (s, d # fmt2, args1)"
      and m1: "map kind_of args1 = letter_kinds d @ ks' @ rest"
      using spec_kinds_parse [OF j m] by blast
    obtain ps args2 where d: "directive_pieces s (d # fmt2) args1 = Some (ps, fmt2, args2)"
      and m2: "map kind_of args2 = ks' @ rest"
      using kinds_directive [OF m1 sc(1)] by blast
    have "fmt_pieces fmt2 args2 \<noteq> None" using "1.IH"(1) [OF fmt _ dir j _ refl k sc(2) m2] dir by simp
    then show ?thesis using dir p d by (auto simp: fmt fmt_pieces.simps [of "CHR ''%'' # _"])
  qed
qed

subsection \<open>A run that leaves room denotes pieces\<close>

lemma number_defined:
  "vsl_number s c args = Some (s', i64, ui64, args') \<Longrightarrow> is_number c \<Longrightarrow>
   \<exists>v zero hex width. number_value s c args = Some (v, zero, hex, width, args')"
  unfolding is_number_cases
  by (cases args; cases "hd args"; elim disjE) (simp_all add: number_value_def vsl_number_def fetch_int_def fetch_long_def split: if_splits)

lemma double_defined:
  assumes "vsl_double s f mem buf lst = Some r"
  shows "\<exists>t. double_text s f = Some t"
  using assms by (auto simp: vsl_double_def double_text_def Let_def split: if_splits Option.bind_splits)

lemma str_z_room:
  "sprintf_str_z mem buf lst src = Some (m, b) \<Longrightarrow> b < lst \<Longrightarrow> NUL \<in> set src"
  by (induction mem buf lst src rule: sprintf_str_z.induct) (auto split: if_splits Option.bind_splits)

lemma hex_z_room:
  "sprintf_hex_z tab mem buf lst src = Some (m, b) \<Longrightarrow> Suc b < lst \<Longrightarrow> NUL \<in> set src"
  by (induction tab mem buf lst src rule: sprintf_hex_z.induct) (auto split: if_splits Option.bind_splits)

lemma hex_n_room:
  "sprintf_hex_n tab mem buf lst src len = Some (m, b) \<Longrightarrow> Suc b < lst \<Longrightarrow> unat len \<le> length src"
proof (induction tab mem buf lst src len rule: sprintf_hex_n.induct)
  case (1 tab mem buf lst len)
  then show ?case by (auto split: if_splits)
next
  case (2 tab mem buf lst c src len)
  show ?case
  proof (cases "len \<noteq> 0 \<and> buf < lst - 1")
    case True
    then have "unat (len - 1) \<le> length src" using 2 by (auto split: Option.bind_splits)
    moreover have "unat (len - 1) = unat len - 1" using True by (subst unat_minus_1) auto
    ultimately show ?thesis by simp
  next
    case False
    then have "len = 0" using 2 by (auto split: if_splits)
    then show ?thesis by simp
  qed
qed

lemma str_room:
  assumes "span mem buf lst" "ngx_sprintf_str mem buf lst src len hex = Some (m, b)" "Suc b < lst"
  shows "str_ok src len"
proof (cases "hex = 0 \<and> len \<noteq> -1")
  case True
  let ?n = "ngx_min (of_nat lst - of_nat buf) len"
  have "lst - buf < 2 ^ 64" "buf \<le> lst" using assms(1) unfolding span_def by arith+
  then have room: "unat (of_nat lst - of_nat buf :: u64) = lst - buf" by (simp add: unat_ptr_diff)
  have n: "unat ?n \<le> length src" "b = buf + unat ?n"
    using assms(2) True by (auto simp: ngx_sprintf_str_def ngx_cpymem_def split: if_splits)
  then have "unat ?n \<noteq> lst - buf" using assms(3) by simp
  then have "unat ?n = unat len" using room by (auto simp: min_def split: if_splits)
  then show ?thesis using n(1) True by (simp add: str_ok_def)
next
  case False
  then show ?thesis
    using assms(2,3) str_z_room [of mem buf lst src m b]
      hex_z_room [of _ mem buf lst src m b] hex_n_room [of _ mem buf lst src len m b]
    by (auto simp: ngx_sprintf_str_def Let_def str_ok_def split: if_splits)
qed

lemma directive_room:
  assumes "span mem buf lst" "vsl_directive s fmt args mem buf lst = Some (m, b, fmt', args')" "Suc b < lst"
  shows "\<exists>ps. directive_pieces s fmt args = Some (ps, fmt', args')"
proof -
  obtain c where fmt: "fmt = c # fmt'"
    using assms(2) by (auto simp: vsl_directive_def vsl_char_def split: list.splits if_splits Option.bind_splits)
  have str: "\<exists>ps. string_pieces src len hex = Some ps"
    if "ngx_sprintf_str mem buf lst src len hex = Some (m, b)" for src len hex
    using str_room [OF assms(1) that assms(3)] by (simp add: string_pieces_def)
  show ?thesis
  proof (cases "is_number c")
    case True
    then have "c \<noteq> CHR ''V''" "c \<noteq> CHR ''v''" "c \<noteq> CHR ''s''" by (auto simp: is_number_def)
    then show ?thesis
      using assms(2) True unfolding fmt vsl_directive_def vsl_char_def directive_pieces_def
      by (auto split: Option.bind_splits dest!: number_defined)
  next
    case False
    then show ?thesis
      using assms(2) unfolding fmt vsl_directive_def vsl_char_def directive_pieces_def
      by (auto split: if_splits Option.bind_splits dest!: str double_defined)
  qed
qed

lemma vslprintf_room:
  "ngx_vslprintf mem buf lst fmt args = Some (m, b) \<Longrightarrow> span mem buf lst \<Longrightarrow> Suc b < lst \<Longrightarrow>
   \<exists>ps. fmt_pieces fmt args = Some ps"
proof (induction mem buf lst fmt args rule: ngx_vslprintf.induct)
  case (1 mem buf lst fmt args)
  obtain c rest where fmt: "fmt = c # rest"
    using "1.prems"(1) by (cases fmt) (auto simp: ngx_vslprintf.simps)
  note unf = "1.prems"(1) [unfolded fmt ngx_vslprintf.simps [of mem buf lst "c # rest"] list.case]
  consider (stop) "c = NUL" | (full) "c \<noteq> NUL" "lst \<le> buf"
    | (dir) "c \<noteq> NUL \<and> buf < lst" "c = CHR ''%''" | (lit) "c \<noteq> NUL \<and> buf < lst" "c \<noteq> CHR ''%''"
    by (cases "buf < lst") auto
  then show ?case
  proof cases
    case stop
    then show ?thesis by (simp add: fmt fmt_pieces.simps [of "_ # _"])
  next
    case full
    then show ?thesis using unf "1.prems"(3) by (auto split: if_splits)
  next
    case dir
    then obtain s fmt1 args1 m1 b1 fmt2 args2 where
      p: "parse_spec rest args = Some (s, fmt1, args1)"
      and d: "vsl_directive s fmt1 args1 mem buf lst = Some (m1, b1, fmt2, args2)"
      and r: "ngx_vslprintf m1 b1 lst fmt2 args2 = Some (m, b)"
      using unf by (auto split: option.splits)
    have "contained mem buf lst (m1, b1)" using "1.prems"(2) dir(1) d by (auto intro: contained_directive)
    then have sp: "span m1 b1 lst" using "1.prems"(2) by (rule contained_span)
    have "b1 \<le> b" using contained_vslprintf [OF r sp] by (auto simp: contained_def wrote_def)
    then obtain ps where "directive_pieces s fmt1 args1 = Some (ps, fmt2, args2)"
      using directive_room [OF "1.prems"(2) d] "1.prems"(3) by auto
    moreover obtain qs where "fmt_pieces fmt2 args2 = Some qs"
      using "1.IH"(1) [OF fmt dir p refl refl d refl refl refl r sp "1.prems"(3)] by blast
    ultimately show ?thesis using p dir by (simp add: fmt fmt_pieces.simps [of "_ # _"])
  next
    case lit
    then obtain m1 where m1: "poke mem buf c = Some m1" and r: "ngx_vslprintf m1 (buf + 1) lst rest args = Some (m, b)"
      using unf by (auto split: option.splits)
    have "span m1 (buf + 1) lst" using contained_span [OF contained_poke [OF "1.prems"(2) _ m1] "1.prems"(2)] lit by simp
    from "1.IH"(2) [OF fmt lit m1 r this "1.prems"(3)] lit show ?thesis
      by (auto simp: fmt fmt_pieces.simps [of "_ # _"])
  qed
qed

text \<open>No piece is longer than a pair of hex digits, so a run that leaves two bytes has skipped none.\<close>

lemma directive_pieces_short:
  "directive_pieces s fmt args = Some (ps, fmt', args') \<Longrightarrow> \<forall>p \<in> set ps. length p \<le> 2"
  by (auto simp: directive_pieces_def string_pieces_def str_pieces_def hex_pair_def
      split: list.splits if_splits Option.bind_splits)

lemma fmt_pieces_short: "fmt_pieces fmt args = Some ps \<Longrightarrow> \<forall>p \<in> set ps. length p \<le> 2"
proof (induction fmt args arbitrary: ps rule: fmt_pieces.induct)
  case (1 fmt args)
  obtain c rest where fmt: "fmt = c # rest"
    using "1.prems" by (cases fmt) (auto simp: fmt_pieces.simps)
  note unf = "1.prems" [unfolded fmt fmt_pieces.simps [of "c # rest"] list.case]
  consider (stop) "c = NUL" | (dir) "c = CHR ''%''" | (lit) "c \<noteq> NUL" "c \<noteq> CHR ''%''" by blast
  then show ?case
  proof cases
    case dir
    then obtain s fmt1 args1 ps1 fmt2 args2 qs where
      p: "parse_spec rest args = Some (s, fmt1, args1)"
      and d: "directive_pieces s fmt1 args1 = Some (ps1, fmt2, args2)"
      and q: "fmt_pieces fmt2 args2 = Some qs" "ps = ps1 @ qs"
      using unf by (auto split: option.splits)
    then show ?thesis using "1.IH"(1) [OF fmt _ dir p _ _ d _ _ q(1)] directive_pieces_short [OF d] dir by auto
  next
    case lit
    then show ?thesis using unf "1.IH"(2) [OF fmt lit] by auto
  qed (use unf in simp)
qed

lemma fill_with_room:
  "\<forall>p \<in> set ps. length p \<le> 2 \<Longrightarrow> length (fill r ps) + 2 \<le> r \<Longrightarrow> fill r ps = concat ps"
proof (induction ps arbitrary: r)
  case (Cons p ps)
  show ?case
  proof (cases "length p \<le> r")
    case True
    then show ?thesis using Cons.prems Cons.IH [of "r - length p"] by simp
  qed (use Cons.prems in auto)
qed simp

subsection \<open>Properties\<close>

text \<open>
  C9: The kinds of the arguments decide, where no 64-bit argument is the least one, \<^verbatim>\<open>INT64_MIN\<close> (a signed directive
  negates it, which C leaves undefined). A run of \<open>ngx_vslprintf\<close> that has a result and leaves two bytes of room has
  taken arguments of exactly the kinds that the format asks for, and only their contents were left to
  check: it printed the pieces that the format denotes, all of them. And a format that asks for numbers and pointers
  alone never goes wrong on arguments of its kinds, whatever their other values.
\<close>

theorem ngx_vslprintf_typed:
  assumes "span mem buf lst" "VLong (2 ^ 63) \<notin> set args"
  shows "(\<forall>m b. ngx_vslprintf mem buf lst fmt args = Some (m, b) \<and> Suc b < lst \<longrightarrow>
      well_typed fmt args \<and> (\<exists>ps. fmt_pieces fmt args = Some ps \<and> m = patch mem buf (concat ps) \<and> b = buf + length (concat ps)))
    \<and> (\<forall>ks rest. fmt_kinds fmt = Some ks \<and> list_all scalar ks \<and> map kind_of args = ks @ rest \<longrightarrow>
        ngx_vslprintf mem buf lst fmt args \<noteq> None)"
proof (intro conjI allI impI)
  fix m b
  assume "ngx_vslprintf mem buf lst fmt args = Some (m, b) \<and> Suc b < lst"
  then have r: "ngx_vslprintf mem buf lst fmt args = Some (m, b)" "Suc b < lst" by simp_all
  obtain ps where ps: "fmt_pieces fmt args = Some ps" using vslprintf_room [OF r(1) assms(1) r(2)] by blast
  from fmt_pieces_typed [OF this] show "well_typed fmt args" .
  have "(m, b) = wrote mem buf (fill (lst - buf) ps)" using ngx_vslprintf_wrote [OF ps assms(1)] r(1) by simp
  moreover from this have "fill (lst - buf) ps = concat ps"
    using r(2) fmt_pieces_short [OF ps] by (intro fill_with_room) (simp_all add: wrote_def)
  ultimately show "\<exists>ps. fmt_pieces fmt args = Some ps \<and> m = patch mem buf (concat ps) \<and> b = buf + length (concat ps)"
    using ps by (auto simp: wrote_def)
next
  fix ks rest
  assume "fmt_kinds fmt = Some ks \<and> list_all scalar ks \<and> map kind_of args = ks @ rest"
  then obtain ps where "fmt_pieces fmt args = Some ps" using typed_fmt_pieces by blast
  then show "ngx_vslprintf mem buf lst fmt args \<noteq> None" using ngx_vslprintf_wrote [OF _ assms(1)] by simp
qed

theorem ngx_vslprintf_typed_witness:
  "well_typed (''a=%d%%'' @ [NUL]) [VInt (-5)]
    \<and> ngx_vslprintf ''........'' 1 8 (''%*ud%p'' @ [NUL]) [VLong 9, VInt 5, VPtr 4096] \<noteq> None"
proof -
  have r: "ngx_vslprintf ''........'' 1 8 (''a=%d%%'' @ [NUL]) [VInt (-5)] = Some (''.a=-5%..'', 6)" by code_simp
  have k: "fmt_kinds (''%*ud%p'' @ [NUL]) = Some [KLong, KInt, KPtr]" by code_simp
  have sp: "span ''........'' 1 8" by (simp add: span_def)
  have "well_typed (''a=%d%%'' @ [NUL]) [VInt (-5)]"
    using ngx_vslprintf_typed [OF sp, of "[VInt (-5)]" "''a=%d%%'' @ [NUL]"] r by simp
  moreover have "ngx_vslprintf ''........'' 1 8 (''%*ud%p'' @ [NUL]) [VLong 9, VInt 5, VPtr 4096] \<noteq> None"
    using ngx_vslprintf_typed [OF sp, of "[VLong 9, VInt 5, VPtr 4096]" "''%*ud%p'' @ [NUL]"] k
    by (simp add: scalar_def)
  ultimately show ?thesis by blast
qed

end
