(* ===== verification/Ngx_Log_Calls.thy ===== *)
theory Ngx_Log_Calls
  imports Ngx_Log Ngx_Format_Types
begin

text \<open>
  The macros \<open>ngx_log_error\<close> and \<open>ngx_log_debug\<close> of \<^verbatim>\<open>src/core/ngx_log.h\<close>, and the calls that the modelled
  files make through them: their levels, formats and argument kinds, that the kinds are those the formats take, and
  what \<open>ngx_log_error_core\<close> composes for them.
\<close>

subsection \<open>The logging macros\<close>

text \<open>
  \<open>None\<close> is an undefined run, \<open>Some None\<close> a message that the filter drops. \<open>errstr\<close> and \<open>base\<close> are the
  buffer of \<open>ngx_log_error_core\<close> and its address.
\<close>

definition ngx_log_error ::
  "(u32 \<Rightarrow> char list option) \<Rightarrow> ngx_str_t \<Rightarrow> u32 \<Rightarrow> char list \<Rightarrow> u64 \<Rightarrow>
   u64 \<Rightarrow> ngx_log_t \<Rightarrow> u32 \<Rightarrow> char list \<Rightarrow> varg list \<Rightarrow> (char list \<times> nat) option option" where
  "ngx_log_error desc time pid errstr base level log err fmt args =
     (if ngx_log_error_enabled level log
      then map_option Some (ngx_log_error_core desc time pid errstr base level log err fmt args) else Some None)"

definition ngx_log_debug ::
  "(u32 \<Rightarrow> char list option) \<Rightarrow> ngx_str_t \<Rightarrow> u32 \<Rightarrow> char list \<Rightarrow> u64 \<Rightarrow>
   u64 \<Rightarrow> ngx_log_t \<Rightarrow> u32 \<Rightarrow> char list \<Rightarrow> varg list \<Rightarrow> (char list \<times> nat) option option" where
  "ngx_log_debug desc time pid errstr base level log err fmt args =
     (if ngx_log_debug_enabled level log
      then map_option Some (ngx_log_error_core desc time pid errstr base NGX_LOG_DEBUG log err fmt args) else Some None)"

text \<open>\<open>ngx_log_debug0\<close> to \<open>ngx_log_debug8\<close>, for as many arguments; \<open>debug\<close> is \<^verbatim>\<open>NGX_DEBUG\<close>.\<close>

definition ngx_log_debug_n ::
  "bool \<Rightarrow> (u32 \<Rightarrow> char list option) \<Rightarrow> ngx_str_t \<Rightarrow> u32 \<Rightarrow> char list \<Rightarrow> u64 \<Rightarrow>
   u64 \<Rightarrow> ngx_log_t \<Rightarrow> u32 \<Rightarrow> char list \<Rightarrow> varg list \<Rightarrow> (char list \<times> nat) option option" where
  "ngx_log_debug_n debug desc time pid errstr base level log err fmt args =
     (if debug then ngx_log_debug desc time pid errstr base level log err fmt args else Some None)"

subsection \<open>The calls\<close>

text \<open>The level, the format and the kinds of the arguments of every call in the modelled files.\<close>

datatype log_call =
    LogError u64 "char list" "vkind list"
  | LogDebug u64 "char list" "vkind list"

fun call_format :: "log_call \<Rightarrow> char list" where
  "call_format (LogError level fmt ks) = fmt"
| "call_format (LogDebug level fmt ks) = fmt"

fun call_kinds :: "log_call \<Rightarrow> vkind list" where
  "call_kinds (LogError level fmt ks) = ks"
| "call_kinds (LogDebug level fmt ks) = ks"

definition log_malloced :: log_call where
  "log_malloced = LogError NGX_LOG_EMERG (''malloced(%uz) failed'' @ [NUL]) [KLong]"

definition log_malloc :: log_call where
  "log_malloc = LogDebug NGX_LOG_DEBUG_ALLOC (''malloc: %p:%uz'' @ [NUL]) [KPtr, KLong]"

definition log_posix_memalign_failed :: log_call where
  "log_posix_memalign_failed = LogError NGX_LOG_EMERG (''posix_memalign(%uz, %uz) failed'' @ [NUL]) [KLong, KLong]"

definition log_posix_memalign :: log_call where
  "log_posix_memalign = LogDebug NGX_LOG_DEBUG_ALLOC (''posix_memalign: %p:%uz @%uz'' @ [NUL]) [KPtr, KLong, KLong]"

definition log_memalign_failed :: log_call where
  "log_memalign_failed = LogError NGX_LOG_EMERG (''memalign(%uz, %uz) failed'' @ [NUL]) [KLong, KLong]"

definition log_memalign :: log_call where
  "log_memalign = LogDebug NGX_LOG_DEBUG_ALLOC (''memalign: %p:%uz @%uz'' @ [NUL]) [KPtr, KLong, KLong]"

definition log_run_cleanup :: log_call where
  "log_run_cleanup = LogDebug NGX_LOG_DEBUG_ALLOC (''run cleanup: %p'' @ [NUL]) [KPtr]"

definition log_pool_free :: log_call where
  "log_pool_free = LogDebug NGX_LOG_DEBUG_ALLOC (''free: %p'' @ [NUL]) [KPtr]"

definition log_pool_unused :: log_call where
  "log_pool_unused = LogDebug NGX_LOG_DEBUG_ALLOC (''free: %p, unused: %uz'' @ [NUL]) [KPtr, KLong]"

definition log_add_cleanup :: log_call where
  "log_add_cleanup = LogDebug NGX_LOG_DEBUG_ALLOC (''add cleanup: %p'' @ [NUL]) [KPtr]"

definition log_slab_alloc :: log_call where
  "log_slab_alloc = LogDebug NGX_LOG_DEBUG_ALLOC (''slab alloc: %uz slot: %ui'' @ [NUL]) [KLong, KLong]"

definition log_slab_result :: log_call where
  "log_slab_result = LogDebug NGX_LOG_DEBUG_ALLOC (''slab alloc: %p'' @ [NUL]) [KPtr]"

definition log_mmap_anon :: log_call where
  "log_mmap_anon = LogError NGX_LOG_ALERT (''mmap(MAP_ANON|MAP_SHARED, %uz) failed'' @ [NUL]) [KLong]"

definition log_munmap :: log_call where
  "log_munmap = LogError NGX_LOG_ALERT (''munmap(%p, %uz) failed'' @ [NUL]) [KPtr, KLong]"

definition log_open_devzero :: log_call where
  "log_open_devzero = LogError NGX_LOG_ALERT (''open('' @ [CHR 0x22] @ ''/dev/zero'' @ [CHR 0x22] @ '') failed'' @ [NUL]) []"

definition log_mmap_devzero :: log_call where
  "log_mmap_devzero = LogError NGX_LOG_ALERT (''mmap(/dev/zero, MAP_SHARED, %uz) failed'' @ [NUL]) [KLong]"

definition log_close_devzero :: log_call where
  "log_close_devzero = LogError NGX_LOG_ALERT (''close('' @ [CHR 0x22] @ ''/dev/zero'' @ [CHR 0x22] @ '') failed'' @ [NUL]) []"

definition log_munmap_devzero :: log_call where
  "log_munmap_devzero = LogError NGX_LOG_ALERT (''munmap(%p, %uz)'' @ [NUL]) [KPtr, KLong]"

definition log_sem_init :: log_call where
  "log_sem_init = LogError NGX_LOG_ALERT (''sem_init failed'' @ [NUL]) []"

definition log_sem_destroy :: log_call where
  "log_sem_destroy = LogError NGX_LOG_ALERT (''sem_destory() failed'' @ [NUL]) []"

definition log_shmtx_lock :: log_call where
  "log_shmtx_lock = LogDebug NGX_LOG_DEBUG_CORE (''shmtx lock'' @ [NUL]) []"

definition log_shmtx_wait :: log_call where
  "log_shmtx_wait = LogDebug NGX_LOG_DEBUG_CORE (''shmtx wait %uA'' @ [NUL]) [KLong]"

definition log_sem_wait :: log_call where
  "log_sem_wait = LogError NGX_LOG_ALERT (''sem_wait() failed while waiting on shmtx'' @ [NUL]) []"

definition log_shmtx_awoke :: log_call where
  "log_shmtx_awoke = LogDebug NGX_LOG_DEBUG_CORE (''shmtx awoke'' @ [NUL]) []"

definition log_shmtx_unlock :: log_call where
  "log_shmtx_unlock = LogDebug NGX_LOG_DEBUG_CORE (''shmtx unlock'' @ [NUL]) []"

definition log_shmtx_forced_unlock :: log_call where
  "log_shmtx_forced_unlock = LogDebug NGX_LOG_DEBUG_CORE (''shmtx forced unlock'' @ [NUL]) []"

definition log_shmtx_wake :: log_call where
  "log_shmtx_wake = LogDebug NGX_LOG_DEBUG_CORE (''shmtx wake %uA'' @ [NUL]) [KLong]"

definition log_sem_post :: log_call where
  "log_sem_post = LogError NGX_LOG_ALERT (''sem_post() failed while wake shmtx'' @ [NUL]) []"

definition log_calls :: "log_call list" where
  "log_calls = [log_malloced, log_malloc, log_posix_memalign_failed, log_posix_memalign, log_memalign_failed,
     log_memalign, log_run_cleanup, log_pool_free, log_pool_unused, log_add_cleanup,
     log_slab_alloc, log_slab_result, log_mmap_anon, log_munmap, log_open_devzero,
     log_mmap_devzero, log_close_devzero, log_munmap_devzero, log_sem_init, log_sem_destroy,
     log_shmtx_lock, log_shmtx_wait, log_sem_wait, log_shmtx_awoke, log_shmtx_unlock,
     log_shmtx_forced_unlock, log_shmtx_wake, log_sem_post]"

lemmas log_call_defs =
  log_malloced_def log_malloc_def log_posix_memalign_failed_def log_posix_memalign_def
  log_memalign_failed_def log_memalign_def log_run_cleanup_def log_pool_free_def
  log_pool_unused_def log_add_cleanup_def log_slab_alloc_def log_slab_result_def
  log_mmap_anon_def log_munmap_def log_open_devzero_def log_mmap_devzero_def
  log_close_devzero_def log_munmap_devzero_def log_sem_init_def log_sem_destroy_def
  log_shmtx_lock_def log_shmtx_wait_def log_sem_wait_def log_shmtx_awoke_def
  log_shmtx_unlock_def log_shmtx_forced_unlock_def log_shmtx_wake_def log_sem_post_def

fun log_run ::
  "bool \<Rightarrow> (u32 \<Rightarrow> char list option) \<Rightarrow> ngx_str_t \<Rightarrow> u32 \<Rightarrow> char list \<Rightarrow> u64 \<Rightarrow>
   ngx_log_t \<Rightarrow> u32 \<Rightarrow> varg list \<Rightarrow> log_call \<Rightarrow> (char list \<times> nat) option option" where
  "log_run debug desc time pid errstr base log err args (LogError level fmt ks) =
     ngx_log_error desc time pid errstr base level log err fmt args"
| "log_run debug desc time pid errstr base log err args (LogDebug level fmt ks) =
     ngx_log_debug_n debug desc time pid errstr base level log err fmt args"

subsection \<open>Every call is well typed\<close>

definition call_typed :: "log_call \<Rightarrow> bool" where
  "call_typed c \<longleftrightarrow> fmt_kinds (call_format c) = Some (call_kinds c) \<and> list_all scalar (call_kinds c)"

text \<open>The level is a severity, or the bit of a debug category.\<close>

fun call_level_ok :: "log_call \<Rightarrow> bool" where
  "call_level_ok (LogError level fmt ks) \<longleftrightarrow> unat level \<le> 8"
| "call_level_ok (LogDebug level fmt ks) \<longleftrightarrow> level \<in> {NGX_LOG_DEBUG_CORE, NGX_LOG_DEBUG_ALLOC}"

lemma log_calls_typed: "list_all call_typed log_calls"
  by code_simp

lemma log_calls_levels: "list_all call_level_ok log_calls"
  by (simp add: log_calls_def log_call_defs NGX_LOG_EMERG_def NGX_LOG_ALERT_def)

fun call_severity :: "log_call \<Rightarrow> u64" where
  "call_severity (LogError level fmt ks) = level"
| "call_severity (LogDebug level fmt ks) = NGX_LOG_DEBUG"

fun call_passes :: "bool \<Rightarrow> ngx_log_t \<Rightarrow> log_call \<Rightarrow> bool" where
  "call_passes debug log (LogError level fmt ks) \<longleftrightarrow> level \<le> lg_log_level log"
| "call_passes debug log (LogDebug level fmt ks) \<longleftrightarrow> debug \<and> lg_log_level log AND level \<noteq> 0"

lemma log_run_eq:
  "log_run debug desc time pid errstr base log err args c =
     (if call_passes debug log c
      then map_option Some (ngx_log_error_core desc time pid errstr base (call_severity c) log err (call_format c) args)
      else Some None)"
  by (cases c) (auto simp: ngx_log_error_def ngx_log_debug_n_def ngx_log_debug_def ngx_log_error_enabled_def ngx_log_debug_enabled_def)

lemma severity_no_debug:
  assumes "unat (w :: u64) \<le> 8"
  shows "w AND NGX_LOG_DEBUG_CORE = 0" "w AND NGX_LOG_DEBUG_ALLOC = 0"
proof -
  obtain n where n: "w = of_nat n" "n \<le> 8" using assms by (metis of_nat_unat ucast_id)
  then have "n \<in> {0, 1, 2, 3, 4, 5, 6, 7, 8}" by auto
  then show "w AND NGX_LOG_DEBUG_CORE = 0" "w AND NGX_LOG_DEBUG_ALLOC = 0"
    using n(1) by (auto simp: NGX_LOG_DEBUG_CORE_def NGX_LOG_DEBUG_ALLOC_def)
qed

text \<open>
  C17: Every logging call of the allocators, the pools, the slab, the shared memory and the mutexes passes arguments
  of the kinds its format takes, none of them to a signed directive of 64 bits: in any buffer, \<open>ngx_vslprintf\<close> has a result on
  its format, and prints all that this denotes, as far as it fits. A log with a severity for its level drops every debug
  call. What \<open>ngx_log_error_core\<close> makes of a call is less: a call that its filter passes composes the time stamp
  alone when its error number is 0, and has an undefined run when it is not; the others have no effect.
\<close>

theorem log_calls_correct:
  assumes "c \<in> set log_calls" "map kind_of args = call_kinds c" "length errstr = 2048" "256 \<le> unat base"
    "unat (str_len time) \<le> length (str_data time)" "unat (str_len time) \<le> 2048"
  shows "(\<exists>ps. fmt_pieces (call_format c) args = Some ps
      \<and> (\<forall>mem buf lst. span mem buf lst \<longrightarrow>
            ngx_vslprintf mem buf lst (call_format c) args = Some (wrote mem buf (fill (lst - buf) ps))))
    \<and> (unat (lg_log_level log) \<le> 8 \<and> call_severity c = NGX_LOG_DEBUG \<longrightarrow> \<not> call_passes debug log c)
    \<and> log_run debug desc time pid errstr base log err args c =
        (if \<not> call_passes debug log c then Some None
         else if err = 0 then Some (Some (patch errstr 0 (take (unat (str_len time)) (str_data time)), unat (str_len time)))
         else None)"
proof -
  have typed: "call_typed c" and level: "call_level_ok c"
    using assms(1) log_calls_typed log_calls_levels by (simp_all add: list_all_iff)
  obtain ps where ps: "fmt_pieces (call_format c) args = Some ps"
    using typed typed_fmt_pieces [of "call_format c" "call_kinds c" args "[]"] assms(2) by (auto simp: call_typed_def)
  have sev: "call_severity c \<le> NGX_LOG_DEBUG"
    using level by (cases c) (auto simp: NGX_LOG_DEBUG_def word_le_nat_alt)
  have nul: "NUL \<in> set (call_format c)" using assms(1) by (auto simp: log_calls_def log_call_defs)
  have "\<not> call_passes debug log c" if "unat (lg_log_level log) \<le> 8 \<and> call_severity c = NGX_LOG_DEBUG"
    using that assms(1) level severity_no_debug [of "lg_log_level log"]
    by (cases c) (auto simp: log_calls_def log_call_defs NGX_LOG_DEBUG_def NGX_LOG_EMERG_def NGX_LOG_ALERT_def)
  moreover have "log_run debug desc time pid errstr base log err args c =
        (if \<not> call_passes debug log c then Some None
         else if err = 0 then Some (Some (patch errstr 0 (take (unat (str_len time)) (str_data time)), unat (str_len time)))
         else None)"
    using sev by (simp add: log_run_eq error_core_result [OF assms(3-6) nul])
  ultimately show ?thesis using ps ngx_vslprintf_wrote [OF ps] by blast
qed

theorem log_calls_correct_witness:
  "log_run True (\<lambda>e. None) \<lparr>str_len = 5, str_data = ''12:00''\<rparr> 7 (replicate 2048 NUL) 0x7ffc00001000
      \<lparr>lg_log_level = NGX_LOG_DEBUG_ALL, lg_file_fd = 2, lg_connection = 0\<rparr> 0 [VPtr 4096, VLong 80] log_malloc
    = Some (Some (''12:00'' @ replicate 2043 NUL, 5))"
proof -
  have "log_malloc \<in> set log_calls" by (simp add: log_calls_def)
  moreover have "call_passes True \<lparr>lg_log_level = NGX_LOG_DEBUG_ALL, lg_file_fd = 2, lg_connection = 0\<rparr> log_malloc"
    by (simp add: log_malloc_def NGX_LOG_DEBUG_ALL_def NGX_LOG_DEBUG_ALLOC_def)
  moreover have "map kind_of [VPtr 4096, VLong 80] = call_kinds log_malloc" by (simp add: log_malloc_def)
  ultimately show ?thesis
    using log_calls_correct [where c = log_malloc and args = "[VPtr 4096, VLong 80]" and errstr = "replicate 2048 NUL"
        and base = "0x7ffc00001000" and time = "\<lparr>str_len = 5, str_data = ''12:00''\<rparr>" and err = 0]
    by (simp add: patch_def)
qed

end
