(* ===== verification/Ngx_Errlist.thy ===== *)
theory Ngx_Errlist
  imports Ngx_Log
begin

text \<open>
  \<^verbatim>\<open>src/os/unix/ngx_errno.c\<close> on systems without \<^verbatim>\<open>strerrordesc_np\<close>: the messages of the C library
  are copied into a table once, and \<open>ngx_strerror\<close> reads the table. The branch does not compile as
  it stands: \<^verbatim>\<open>mxg\<close> and \<^verbatim>\<open>mgs\<close> are read as \<^verbatim>\<open>msg\<close>, and the \<^verbatim>\<open>len\<close> of \<^verbatim>\<open>ngx_strerror\<close> as \<^verbatim>\<open>msg->len\<close>.

  Parameters: \<open>strerror err\<close> is the message (or \<open>None\<close> for \<open>NULL\<close>) and whether the call sets \<^verbatim>\<open>errno\<close> to
  \<^verbatim>\<open>EINVAL\<close>; \<open>alloc i n\<close> is the object of the \<open>i\<close>-th \<^verbatim>\<open>malloc\<close>. Error numbers are C ints; none of the
  sums below leaves their range, so they are integers here.
\<close>

subsection \<open>Data\<close>

type_synonym strerror = "int \<Rightarrow> char list option \<times> bool"

text \<open>
  How the system numbers its errors: \<^verbatim>\<open>NGX_SYS_NERR\<close> where configure found it, and \<^verbatim>\<open>EPERM\<close>.
\<close>

record errno_cfg =
  cf_sys_nerr :: "int option"
  cf_eperm :: int

text \<open>
  The static variables. The table is \<open>None\<close> while it is \<open>NULL\<close>; an entry is \<open>None\<close> until it is written.
\<close>

record errlist =
  es_list :: "ngx_str_t option list option"
  es_first :: int
  es_last :: int

definition errlist_start :: errlist where
  "errlist_start = \<lparr>es_list = None, es_first = 0, es_last = 0\<rparr>"

subsection \<open>Reading the table\<close>

definition ngx_strerror_table ::
  "errlist \<Rightarrow> u32 \<Rightarrow> char list \<Rightarrow> nat \<Rightarrow> u64 \<Rightarrow> (char list \<times> nat) option" where
  "ngx_strerror_table g err mem errstr sz = do {
     msg \<leftarrow> (if es_first g \<le> sint err \<and> sint err < es_last g then do {
         tbl \<leftarrow> es_list g;
         let i = nat (sint err - es_first g);
         if i < length tbl then tbl ! i else None }
       else Some ngx_unknown_error);
     let sz = ngx_min sz (str_len msg);
     ngx_cpymem mem errstr (str_data msg) sz }"

subsection \<open>Finding the range of the error numbers\<close>

text \<open>\<open>strncmp(s, t, n) == 0\<close>; reading past the end of an object is undefined.\<close>

fun strncmp_eq :: "char list \<Rightarrow> char list \<Rightarrow> nat \<Rightarrow> bool option" where
  "strncmp_eq s t 0 = Some True"
| "strncmp_eq (a # s) (b # t) (Suc n) =
     (if a \<noteq> b then Some False else if a = NUL then Some True else strncmp_eq s t n)"
| "strncmp_eq s t (Suc n) = None"

definition known_error :: "strerror \<Rightarrow> int \<Rightarrow> bool option" where
  "known_error strerror err = (case strerror err of (msg, einval) \<Rightarrow>
     if einval then Some False
     else (case msg of None \<Rightarrow> Some False
       | Some m \<Rightarrow> do { u \<leftarrow> strncmp_eq m (''Unknown error'' @ [NUL]) 13; Some (\<not> u) }))"

text \<open>\<open>for (err = from; err > lim; err--)\<close> keeps the last number found, the smallest.\<close>

function scan_first :: "strerror \<Rightarrow> int \<Rightarrow> int \<Rightarrow> int \<Rightarrow> int option" where
  "scan_first strerror lim err first =
     (if err > lim then do {
        known \<leftarrow> known_error strerror err;
        scan_first strerror lim (err - 1) (if known then err else first) }
      else Some first)"
  by pat_completeness auto
termination by (relation "measure (\<lambda>(_, lim, err, _). nat (err - lim))") auto

declare scan_first.simps [simp del]

text \<open>\<open>for (err = from; err < lim; err++)\<close> keeps the number after the last one found.\<close>

function scan_last :: "strerror \<Rightarrow> int \<Rightarrow> int \<Rightarrow> int \<Rightarrow> int option" where
  "scan_last strerror lim err lst =
     (if err < lim then do {
        known \<leftarrow> known_error strerror err;
        scan_last strerror lim (err + 1) (if known then err + 1 else lst) }
      else Some lst)"
  by pat_completeness auto
termination by (relation "measure (\<lambda>(_, lim, err, _). nat (lim - err))") auto

declare scan_last.simps [simp del]

definition errno_range :: "errno_cfg \<Rightarrow> strerror \<Rightarrow> errlist \<Rightarrow> errlist option" where
  "errno_range cfg strerror g =
     (case cf_sys_nerr cfg of
        Some n \<Rightarrow> Some (g\<lparr>es_first := 0, es_last := n\<rparr>)
      | None \<Rightarrow>
          (let eperm = cf_eperm cfg in
           if 1000 < eperm \<and> eperm < 0x7fffffff - 1000 then do {
             first \<leftarrow> scan_first strerror (eperm - 1000) eperm (es_first g);
             lst \<leftarrow> scan_last strerror (eperm + 1000) eperm (es_last g);
             Some (g\<lparr>es_first := first, es_last := lst\<rparr>) }
           else do {
             lst \<leftarrow> scan_last strerror 1000 0 (es_last g);
             Some (g\<lparr>es_first := 0, es_last := lst\<rparr>) }))"

subsection \<open>Filling the table\<close>

definition put_entry :: "errlist \<Rightarrow> int \<Rightarrow> ngx_str_t \<Rightarrow> errlist option" where
  "put_entry g err msg = do {
     tbl \<leftarrow> es_list g;
     let i = nat (err - es_first g);
     if i < length tbl then Some (g\<lparr>es_list := Some (tbl[i := Some msg])\<rparr>) else None }"

text \<open>
  The loop over the range. The first component of the result is the size of the \<^verbatim>\<open>malloc\<close> that failed,
  if one did.
\<close>

function fill_table ::
  "(nat \<Rightarrow> u64 \<Rightarrow> char list option) \<Rightarrow> strerror \<Rightarrow> nat \<Rightarrow> int \<Rightarrow> int \<Rightarrow> errlist \<Rightarrow> (u64 option \<times> errlist) option" where
  "fill_table alloc strerror i lst err g =
     (if err < lst then
        (case fst (strerror err) of
           None \<Rightarrow> do {
             g \<leftarrow> put_entry g err ngx_unknown_error;
             fill_table alloc strerror i lst (err + 1) g }
         | Some msg \<Rightarrow> do {
             len \<leftarrow> ngx_strlen msg;
             (case alloc i len of
                None \<Rightarrow> Some (Some len, g)
              | Some p \<Rightarrow> do {
                  (p, _) \<leftarrow> ngx_cpymem p 0 msg len;
                  g \<leftarrow> put_entry g err \<lparr>str_len = len, str_data = p\<rparr>;
                  fill_table alloc strerror (i + 1) lst (err + 1) g }) })
      else Some (None, g))"
  by pat_completeness auto
termination by (relation "measure (\<lambda>(_, _, _, lst, err, _). nat (lst - err))") auto

declare fill_table.simps [simp del]

definition malloc_failed_fmt :: "char list" where
  "malloc_failed_fmt = ''malloc(%uz) failed (%d: %s)'' @ [NUL]"

text \<open>
  \<open>errno\<close> is the error number after a failed \<^verbatim>\<open>malloc\<close> and \<open>errstr\<close> the stack buffer of \<open>ngx_log_stderr\<close>.
  The result is the code, the static variables and what was written to standard error.
\<close>

definition strerror_init_failed ::
  "strerror \<Rightarrow> u32 \<Rightarrow> char list \<Rightarrow> u64 \<Rightarrow> errlist \<Rightarrow> (u64 \<times> errlist \<times> char list) option" where
  "strerror_init_failed strerror errno errstr len g = do {
     msg \<leftarrow> fst (strerror (sint errno));
     console \<leftarrow> ngx_log_stderr (\<lambda>e. None) errstr 0 malloc_failed_fmt [VLong len, VInt errno, VCStr msg];
     Some (NGX_ERROR, g, console) }"

definition ngx_strerror_init_table ::
  "errno_cfg \<Rightarrow> (nat \<Rightarrow> u64 \<Rightarrow> char list option) \<Rightarrow> strerror \<Rightarrow> u32 \<Rightarrow> char list \<Rightarrow> errlist
    \<Rightarrow> (u64 \<times> errlist \<times> char list) option" where
  "ngx_strerror_init_table cfg alloc strerror errno errstr g = do {
     g \<leftarrow> errno_range cfg strerror g;
     let len = of_int (es_last g - es_first g) * 16;
     (case alloc 0 len of
        None \<Rightarrow> strerror_init_failed strerror errno errstr len (g\<lparr>es_list := None\<rparr>)
      | Some _ \<Rightarrow> do {
          let g = g\<lparr>es_list := Some (replicate (nat (es_last g - es_first g)) None)\<rparr>;
          (failed, g) \<leftarrow> fill_table alloc strerror 1 (es_last g) (es_first g) g;
          (case failed of
             Some len \<Rightarrow> strerror_init_failed strerror errno errstr len g
           | None \<Rightarrow> Some (NGX_OK, g, [])) }) }"

subsection \<open>The range\<close>

text \<open>What the C library promises: messages are terminated strings that fit memory.\<close>

definition strerror_ok :: "strerror \<Rightarrow> bool" where
  "strerror_ok strerror \<longleftrightarrow> (\<forall>err m. fst (strerror err) = Some m \<longrightarrow> NUL \<in> set m \<and> length m < 2 ^ 64)"

text \<open>\<open>malloc\<close> gives objects of the size it was asked for.\<close>

definition alloc_ok :: "(nat \<Rightarrow> u64 \<Rightarrow> char list option) \<Rightarrow> bool" where
  "alloc_ok alloc \<longleftrightarrow> (\<forall>i n obj. alloc i n = Some obj \<longrightarrow> length obj = unat n)"

definition message :: "strerror \<Rightarrow> int \<Rightarrow> char list" where
  "message strerror err =
     (case fst (strerror err) of None \<Rightarrow> ''Unknown error'' | Some m \<Rightarrow> takeWhile (\<lambda>c. c \<noteq> NUL) m)"

text \<open>The numbers that the scan takes for errors.\<close>

definition is_known :: "strerror \<Rightarrow> int \<Rightarrow> bool" where
  "is_known strerror err \<longleftrightarrow> \<not> snd (strerror err) \<and> fst (strerror err) \<noteq> None
     \<and> take 13 (message strerror err) \<noteq> ''Unknown error''"

lemma strncmp_eq_prefix:
  assumes "NUL \<in> set s" "NUL \<notin> set t" "n \<le> length t"
  shows "strncmp_eq s (t @ [NUL]) n = Some (take n (takeWhile (\<lambda>c. c \<noteq> NUL) s) = take n t)"
  using assms
proof (induction s "t @ [NUL]" n arbitrary: t rule: strncmp_eq.induct)
  case (2 a s b u n)
  then obtain t' where t: "t = b # t'" "u = t' @ [NUL]" by (cases t) auto
  show ?case
  proof (cases "a = b")
    case True
    then have "a \<noteq> NUL" "NUL \<in> set s" using 2(3,4) t(1) by auto
    then show ?thesis using 2 True t by simp
  next
    case False
    then show ?thesis using t by simp
  qed
qed auto

lemma known_error_eq: "strerror_ok strerror \<Longrightarrow> known_error strerror err = Some (is_known strerror err)"
proof (cases "strerror err")
  case (Pair msg einval)
  assume ok: "strerror_ok strerror"
  show ?thesis
  proof (cases msg)
    case None
    then show ?thesis using Pair by (simp add: known_error_def is_known_def)
  next
    case (Some m)
    then have "NUL \<in> set m" using ok Pair unfolding strerror_ok_def by (metis fst_conv)
    then have "strncmp_eq m (''Unknown error'' @ [NUL]) 13
        = Some (take 13 (takeWhile (\<lambda>c. c \<noteq> NUL) m) = ''Unknown error'')"
      using strncmp_eq_prefix [of m "''Unknown error''" 13] by simp
    then show ?thesis
      using Some Pair by (simp add: known_error_def is_known_def message_def del: append.append_Cons)
  qed
qed

text \<open>
  \<open>up_found\<close> relates the value before an ascending scan of \<open>{err ..< lim}\<close> to the value after it:
  one more than the greatest known error, or no change where there is none.
\<close>

definition up_found :: "strerror \<Rightarrow> int \<Rightarrow> int \<Rightarrow> int \<Rightarrow> int \<Rightarrow> bool" where
  "up_found strerror err lim l0 l \<longleftrightarrow>
     (l = l0 \<and> (\<forall>e. err \<le> e \<and> e < lim \<longrightarrow> \<not> is_known strerror e))
     \<or> (err < l \<and> l \<le> lim \<and> is_known strerror (l - 1) \<and> (\<forall>e. l \<le> e \<and> e < lim \<longrightarrow> \<not> is_known strerror e))"

definition down_found :: "strerror \<Rightarrow> int \<Rightarrow> int \<Rightarrow> int \<Rightarrow> int \<Rightarrow> bool" where
  "down_found strerror lim err f0 f \<longleftrightarrow>
     (f = f0 \<and> (\<forall>e. lim < e \<and> e \<le> err \<longrightarrow> \<not> is_known strerror e))
     \<or> (lim < f \<and> f \<le> err \<and> is_known strerror f \<and> (\<forall>e. lim < e \<and> e < f \<longrightarrow> \<not> is_known strerror e))"

lemma up_found_step:
  assumes "up_found sr (err + 1) lim (if is_known sr err then err + 1 else l0) l" "err < lim"
  shows "up_found sr err lim l0 l"
proof (cases "l = (if is_known sr err then err + 1 else l0)
    \<and> (\<forall>e. err + 1 \<le> e \<and> e < lim \<longrightarrow> \<not> is_known sr e)")
  case True
  then have rest: "\<not> is_known sr e" if "err < e" "e < lim" for e using that by auto
  show ?thesis
  proof (cases "is_known sr err")
    case known: True
    then show ?thesis using True assms(2) rest unfolding up_found_def by auto
  next
    case False
    have "\<not> is_known sr e" if "err \<le> e" "e < lim" for e
      using that False rest [of e] by (cases "e = err") auto
    then show ?thesis using True False unfolding up_found_def by auto
  qed
next
  case False
  then show ?thesis using assms(1) unfolding up_found_def by auto
qed

lemma scan_last_finds:
  assumes "strerror_ok strerror"
  shows "\<exists>l. scan_last strerror lim err l0 = Some l \<and> up_found strerror err lim l0 l"
  using assms
proof (induction strerror lim err l0 rule: scan_last.induct)
  case (1 sr lim err l0)
  show ?case
  proof (cases "err < lim")
    case True
    let ?l = "if is_known sr err then err + 1 else l0"
    have "scan_last sr lim err l0 = scan_last sr lim (err + 1) ?l"
      by (subst scan_last.simps) (simp add: True known_error_eq [OF 1(2)])
    moreover obtain l where "scan_last sr lim (err + 1) ?l = Some l" "up_found sr (err + 1) lim ?l l"
      using "1.IH" [OF True known_error_eq [OF 1(2)] 1(2)] by blast
    ultimately show ?thesis using up_found_step [OF _ True] by metis
  next
    case False
    then show ?thesis by (subst scan_last.simps) (auto simp: up_found_def)
  qed
qed

lemma down_found_step:
  assumes "down_found sr lim (err - 1) (if is_known sr err then err else f0) f" "lim < err"
  shows "down_found sr lim err f0 f"
proof (cases "f = (if is_known sr err then err else f0)
    \<and> (\<forall>e. lim < e \<and> e \<le> err - 1 \<longrightarrow> \<not> is_known sr e)")
  case True
  then have rest: "\<not> is_known sr e" if "lim < e" "e < err" for e using that by auto
  show ?thesis
  proof (cases "is_known sr err")
    case known: True
    then show ?thesis using True assms(2) rest unfolding down_found_def by auto
  next
    case False
    have "\<not> is_known sr e" if "lim < e" "e \<le> err" for e
      using that False rest [of e] by (cases "e = err") auto
    then show ?thesis using True False unfolding down_found_def by auto
  qed
next
  case False
  then show ?thesis using assms(1) unfolding down_found_def by auto
qed

lemma scan_first_finds:
  assumes "strerror_ok strerror"
  shows "\<exists>f. scan_first strerror lim err f0 = Some f \<and> down_found strerror lim err f0 f"
  using assms
proof (induction strerror lim err f0 rule: scan_first.induct)
  case (1 sr lim err f0)
  show ?case
  proof (cases "err > lim")
    case True
    let ?f = "if is_known sr err then err else f0"
    have "scan_first sr lim err f0 = scan_first sr lim (err - 1) ?f"
      by (subst scan_first.simps) (simp add: True known_error_eq [OF 1(2)])
    moreover obtain f where "scan_first sr lim (err - 1) ?f = Some f" "down_found sr lim (err - 1) ?f f"
      using "1.IH" [OF True known_error_eq [OF 1(2)] 1(2)] by blast
    ultimately show ?thesis using down_found_step [OF _ True] by metis
  next
    case False
    then show ?thesis by (subst scan_first.simps) (auto simp: down_found_def)
  qed
qed

definition scanned :: "errno_cfg \<Rightarrow> int set" where
  "scanned cfg = (if 1000 < cf_eperm cfg \<and> cf_eperm cfg < 0x7fffffff - 1000
     then {cf_eperm cfg - 999 .. cf_eperm cfg + 999} else {0 .. 999})"

text \<open>
  C18: the range of error numbers, where it is not configured, is guessed without missing one: every
  error that the C library knows among the numbers tried lies in the range, and the ends of the range
  are such errors, but for a start at 0.
\<close>

theorem errno_range_correct:
  assumes "strerror_ok strerror" "is_known strerror (cf_eperm cfg)" "cf_eperm cfg \<in> scanned cfg"
  shows "\<exists>g. errno_range cfg strerror errlist_start = Some g \<and> es_list g = None \<and>
    (case cf_sys_nerr cfg of
       Some n \<Rightarrow> es_first g = 0 \<and> es_last g = n
     | None \<Rightarrow> (\<forall>e. e \<in> scanned cfg \<and> is_known strerror e \<longrightarrow> es_first g \<le> e \<and> e < es_last g)
         \<and> is_known strerror (es_last g - 1) \<and> (es_first g = 0 \<or> is_known strerror (es_first g)))"
proof (cases "cf_sys_nerr cfg")
  case None
  let ?p = "cf_eperm cfg"
  show ?thesis
  proof (cases "1000 < ?p \<and> ?p < 0x7fffffff - 1000")
    case True
    obtain f where f: "scan_first strerror (?p - 1000) ?p 0 = Some f" "down_found strerror (?p - 1000) ?p 0 f"
      using scan_first_finds [OF assms(1)] by blast
    obtain l where l: "scan_last strerror (?p + 1000) ?p 0 = Some l" "up_found strerror ?p (?p + 1000) 0 l"
      using scan_last_finds [OF assms(1)] by blast
    have sc: "scanned cfg = {?p - 999 .. ?p + 999}" using True by (simp add: scanned_def)
    have fk: "?p - 1000 < f" "f \<le> ?p" "is_known strerror f" "\<forall>e. ?p - 1000 < e \<and> e < f \<longrightarrow> \<not> is_known strerror e"
      using f(2) assms(2) unfolding down_found_def by auto
    have lk: "?p < l" "is_known strerror (l - 1)" "\<forall>e. l \<le> e \<and> e < ?p + 1000 \<longrightarrow> \<not> is_known strerror e"
      using l(2) assms(2) unfolding up_found_def by auto
    have "f \<le> e \<and> e < l" if "e \<in> scanned cfg" "is_known strerror e" for e
    proof -
      have "?p - 1000 < e" "e < ?p + 1000" using that(1) unfolding sc by simp_all
      then show ?thesis using fk(4) lk(3) that(2) by (meson not_le)
    qed
    then show ?thesis
      using True f(1) l(1) None fk(3) lk(2) by (auto simp: errno_range_def errlist_start_def Let_def)
  next
    case False
    obtain l where l: "scan_last strerror 1000 0 0 = Some l" "up_found strerror 0 1000 0 l"
      using scan_last_finds [OF assms(1)] by blast
    have sc: "scanned cfg = {0 .. 999}" using False unfolding scanned_def by (simp only: if_False)
    have lk: "0 < l" "is_known strerror (l - 1)" "\<forall>e. l \<le> e \<and> e < 1000 \<longrightarrow> \<not> is_known strerror e"
      using l(2) assms(2,3) unfolding up_found_def sc by auto
    have "0 \<le> e \<and> e < l" if "e \<in> scanned cfg" "is_known strerror e" for e
    proof -
      have "0 \<le> e" "e < 1000" using that(1) unfolding sc by simp_all
      then show ?thesis using lk(3) that(2) by (meson not_le)
    qed
    moreover have "errno_range cfg strerror errlist_start = Some \<lparr>es_list = None, es_first = 0, es_last = l\<rparr>"
      using False l(1) None unfolding errno_range_def errlist_start_def Let_def
      by (simp only: if_False option.case) simp
    ultimately show ?thesis using None lk(2) by auto
  qed
qed (simp add: errno_range_def errlist_start_def)

subsection \<open>The table\<close>

text \<open>An entry that stands for the text \<open>t\<close>.\<close>

definition entry_ok :: "ngx_str_t \<Rightarrow> char list \<Rightarrow> bool" where
  "entry_ok v t \<longleftrightarrow> unat (str_len v) = length t \<and> (\<exists>rest. str_data v = t @ rest)"

text \<open>The entries of the numbers below \<open>err\<close> are written.\<close>

definition filled :: "strerror \<Rightarrow> errlist \<Rightarrow> int \<Rightarrow> bool" where
  "filled strerror g err \<longleftrightarrow> (\<exists>tbl. es_list g = Some tbl \<and> length tbl = nat (es_last g - es_first g)
     \<and> (\<forall>e. es_first g \<le> e \<and> e < err \<longrightarrow>
          (\<exists>v. tbl ! nat (e - es_first g) = Some v \<and> entry_ok v (message strerror e))))"

lemma unknown_entry: "fst (strerror e) = None \<Longrightarrow> entry_ok ngx_unknown_error (message strerror e)"
  by (simp add: entry_ok_def message_def ngx_unknown_error_def ngx_string_def)

lemma copied_entry:
  assumes "strerror_ok strerror" "alloc_ok alloc" "fst (strerror e) = Some m" "ngx_strlen m = Some len" "alloc i len = Some p"
  shows "\<exists>q k. ngx_cpymem p 0 m len = Some (q, k) \<and> entry_ok \<lparr>str_len = len, str_data = q\<rparr> (message strerror e)"
proof -
  let ?t = "takeWhile (\<lambda>c. c \<noteq> NUL) m"
  have m: "NUL \<in> set m" "length m < 2 ^ 64" using assms(1,3) by (auto simp: strerror_ok_def)
  have "length ?t < 2 ^ 64" using m(2) length_takeWhile_le [of "\<lambda>c. c \<noteq> NUL" m] by linarith
  then have "unat (of_nat (length ?t) :: u64) = length ?t" by (rule unat_of_nat_64)
  moreover have "len = of_nat (length ?t)" using assms(4) ngx_strlen_takeWhile [OF m(1)] by simp
  ultimately have len: "unat len = length ?t" by simp
  have p: "length p = unat len" using assms(2,5) by (auto simp: alloc_ok_def)
  have "take (length ?t) m = ?t" by (metis append_eq_conv_conj takeWhile_dropWhile_id)
  then show ?thesis
    using len p length_takeWhile_le [of "\<lambda>c. c \<noteq> NUL" m]
    by (simp add: ngx_cpymem_def entry_ok_def message_def assms(3) patch_def)
qed

lemma put_entry_filled:
  assumes "filled strerror g err" "es_first g \<le> err" "err < es_last g" "entry_ok v (message strerror err)"
  shows "\<exists>g'. put_entry g err v = Some g' \<and> filled strerror g' (err + 1)
    \<and> es_first g' = es_first g \<and> es_last g' = es_last g"
proof -
  obtain tbl where tbl: "es_list g = Some tbl" "length tbl = nat (es_last g - es_first g)"
    "\<And>e. es_first g \<le> e \<Longrightarrow> e < err \<Longrightarrow> \<exists>v. tbl ! nat (e - es_first g) = Some v \<and> entry_ok v (message strerror e)"
    using assms(1) unfolding filled_def by blast
  have i: "nat (err - es_first g) < length tbl" using tbl(2) assms(2,3) by simp
  have "\<exists>w. (tbl[nat (err - es_first g) := Some v]) ! nat (e - es_first g) = Some w \<and> entry_ok w (message strerror e)"
    if e: "es_first g \<le> e" "e < err + 1" for e
  proof (cases "e = err")
    case True
    then show ?thesis using i assms(4) by simp
  next
    case False
    then have "nat (err - es_first g) \<noteq> nat (e - es_first g)" "e < err" using e assms(2) by auto
    then show ?thesis using tbl(3) [OF e(1)] by simp
  qed
  then show ?thesis using tbl(1,2) i by (auto simp: put_entry_def filled_def Let_def)
qed

lemma fill_table_fills:
  assumes "strerror_ok strerror" "alloc_ok alloc" "filled strerror g err" "es_first g \<le> err" "lst = es_last g"
  shows "\<exists>failed g'. fill_table alloc strerror i lst err g = Some (failed, g')
    \<and> es_first g' = es_first g \<and> es_last g' = es_last g
    \<and> (failed = None \<longrightarrow> filled strerror g' lst)
    \<and> ((\<forall>i n. alloc i n \<noteq> None) \<longrightarrow> failed = None)"
  using assms
proof (induction alloc strerror i lst err g rule: fill_table.induct)
  case (1 alloc sr i lst err g)
  show ?case
  proof (cases "err < lst")
    case False
    then have "filled sr g lst" using 1(5) unfolding filled_def by auto
    then show ?thesis using False by (subst fill_table.simps) simp
  next
    case err: True
    show ?thesis
    proof (cases "fst (sr err)")
      case None
      obtain g' where g': "put_entry g err ngx_unknown_error = Some g'" "filled sr g' (err + 1)"
        "es_first g' = es_first g" "es_last g' = es_last g"
        using put_entry_filled [OF "1.prems"(3,4) _ unknown_entry [of sr err, OF None]] err "1.prems"(5) by blast
      have "fill_table alloc sr i lst err g = fill_table alloc sr i lst (err + 1) g'"
        by (subst fill_table.simps) (simp add: err None g'(1))
      then show ?thesis using "1.IH"(1) [OF err None g'(1) "1.prems"(1,2) g'(2)] g'(3,4) "1.prems"(4,5) by simp
    next
      case (Some m)
      have "NUL \<in> set m" using "1.prems"(1) Some by (auto simp: strerror_ok_def)
      then obtain len where len: "ngx_strlen m = Some len" using ngx_strlen_takeWhile by blast
      show ?thesis
      proof (cases "alloc i len")
        case None
        then have "fill_table alloc sr i lst err g = Some (Some len, g)"
          by (subst fill_table.simps) (simp add: err Some len)
        then show ?thesis using None by auto
      next
        case (Some p)
        obtain q k where q: "ngx_cpymem p 0 m len = Some (q, k)" "entry_ok \<lparr>str_len = len, str_data = q\<rparr> (message sr err)"
          using copied_entry [OF "1.prems"(1,2) \<open>fst (sr err) = Some m\<close> len Some] by blast
        obtain g' where g': "put_entry g err \<lparr>str_len = len, str_data = q\<rparr> = Some g'" "filled sr g' (err + 1)"
          "es_first g' = es_first g" "es_last g' = es_last g"
          using put_entry_filled [OF "1.prems"(3,4) _ q(2)] err "1.prems"(5) by blast
        have "fill_table alloc sr i lst err g = fill_table alloc sr (i + 1) lst (err + 1) g'"
          by (subst fill_table.simps) (simp add: err \<open>fst (sr err) = Some m\<close> len Some q(1) g'(1))
        then show ?thesis
          using "1.IH"(2) [OF err \<open>fst (sr err) = Some m\<close> len Some q(1) _ g'(1) "1.prems"(1,2) g'(2)] g'(3,4) "1.prems"(4,5) by simp
      qed
    qed
  qed
qed

subsection \<open>Properties of the table\<close>

text \<open>Copying as much of the text \<open>t\<close> as \<open>sz\<close> allows.\<close>

definition copy_text :: "char list \<Rightarrow> nat \<Rightarrow> char list \<Rightarrow> u64 \<Rightarrow> (char list \<times> nat) option" where
  "copy_text mem b t sz = (let n = min (unat sz) (length t)
     in if b + n \<le> length mem then Some (patch mem b (take n t), b + n) else None)"

lemma cpymem_copy_text:
  "entry_ok v t \<Longrightarrow> ngx_cpymem mem b (str_data v) (ngx_min sz (str_len v)) = copy_text mem b t sz"
  by (auto simp: entry_ok_def ngx_cpymem_def copy_text_def Let_def)

text \<open>
  What the callers of \<open>ngx_strerror\<close> rely on, in either branch: it copies a text that depends on the error number alone.
\<close>

locale strerror_source =
  fixes valid :: "u32 \<Rightarrow> bool"
    and strerr :: "u32 \<Rightarrow> char list \<Rightarrow> nat \<Rightarrow> u64 \<Rightarrow> (char list \<times> nat) option"
    and content :: "u32 \<Rightarrow> char list"
  assumes copies: "valid err \<Longrightarrow> strerr err mem b sz = copy_text mem b (content err) sz"
begin

lemma defined: "valid err \<Longrightarrow> b + unat sz \<le> length mem \<Longrightarrow> strerr err mem b sz \<noteq> None"
  by (simp add: copies copy_text_def Let_def)

lemma bounded:
  assumes "valid err" "strerr err mem b sz = Some (m, e)"
  shows "b \<le> e \<and> e \<le> b + unat sz \<and> length m = length mem \<and> take (e - b) (drop b m) = take (e - b) (content err)
    \<and> take b m = take b mem \<and> drop e m = drop e mem"
proof -
  let ?n = "min (unat sz) (length (content err))"
  have n: "b + ?n \<le> length mem" "m = patch mem b (take ?n (content err))" "e = b + ?n"
    using assms copies [OF assms(1), of mem b sz] by (auto simp: copy_text_def Let_def split: if_splits)
  then show ?thesis by (simp add: patch_def)
qed

lemma same_copy:
  "strerror_source valid' strerr' content' \<Longrightarrow> valid err \<Longrightarrow> valid' err \<Longrightarrow> content' err = content err \<Longrightarrow>
   strerr' err mem b sz = strerr err mem b sz"
  by (simp add: copies strerror_source.copies [of valid' strerr' content'])

end

lemma strerror_copy_text:
  assumes "desc_ok desc err"
  shows "ngx_strerror desc err mem b sz = copy_text mem b (error_text desc err) sz"
proof (cases "desc err")
  case None
  have "entry_ok ngx_unknown_error ''Unknown error''"
    by (simp add: entry_ok_def ngx_unknown_error_def ngx_string_def)
  then show ?thesis using cpymem_copy_text [of ngx_unknown_error] None
    by (simp add: ngx_strerror_def error_text_def)
next
  case (Some m)
  let ?t = "takeWhile (\<lambda>c. c \<noteq> NUL) m"
  have m: "NUL \<in> set m" "length m < 2 ^ 64" using assms Some by (auto simp: desc_ok_def)
  have "length ?t < 2 ^ 64" using m(2) length_takeWhile_le [of "\<lambda>c. c \<noteq> NUL" m] by linarith
  then have "unat (of_nat (length ?t) :: u64) = length ?t" by (rule unat_of_nat_64)
  moreover have "\<exists>rest. m = ?t @ rest" by (metis takeWhile_dropWhile_id)
  ultimately have "entry_ok \<lparr>str_len = of_nat (length ?t), str_data = m\<rparr> ?t"
    by (simp add: entry_ok_def)
  then show ?thesis using cpymem_copy_text [of "\<lparr>str_len = of_nat (length ?t), str_data = m\<rparr>"] Some
      ngx_strlen_takeWhile [OF m(1)]
    by (simp add: ngx_strerror_def error_text_def)
qed

interpretation lib: strerror_source "desc_ok desc" "ngx_strerror desc" "error_text desc" for desc
  by unfold_locales (rule strerror_copy_text)

lemma filled_entry:
  assumes "filled strerror g (es_last g)" "es_first g \<le> e" "e < es_last g"
  obtains tbl v where "es_list g = Some tbl" "nat (e - es_first g) < length tbl"
    "tbl ! nat (e - es_first g) = Some v" "entry_ok v (message strerror e)"
proof -
  obtain tbl where tbl: "es_list g = Some tbl" "length tbl = nat (es_last g - es_first g)"
    "\<forall>e. es_first g \<le> e \<and> e < es_last g \<longrightarrow>
        (\<exists>v. tbl ! nat (e - es_first g) = Some v \<and> entry_ok v (message strerror e))"
    using assms(1) unfolding filled_def by blast
  have "nat (e - es_first g) < length tbl" using tbl(2) assms(2,3) by simp
  then show ?thesis using tbl assms(2,3) that by blast
qed

definition table_text :: "strerror \<Rightarrow> errlist \<Rightarrow> u32 \<Rightarrow> char list" where
  "table_text strerror g err =
     (if es_first g \<le> sint err \<and> sint err < es_last g then message strerror (sint err) else ''Unknown error'')"

lemma table_copy_text:
  assumes "filled strerror g (es_last g)"
  shows "ngx_strerror_table g err mem b sz = copy_text mem b (table_text strerror g err) sz"
proof (cases "es_first g \<le> sint err \<and> sint err < es_last g")
  case True
  obtain tbl v where v: "es_list g = Some tbl" "nat (sint err - es_first g) < length tbl"
    "tbl ! nat (sint err - es_first g) = Some v" "entry_ok v (message strerror (sint err))"
    using filled_entry [OF assms] True by blast
  then show ?thesis
    using cpymem_copy_text [OF v(4)] True by (simp add: ngx_strerror_table_def table_text_def Let_def)
next
  case False
  have "entry_ok ngx_unknown_error ''Unknown error''"
    by (simp add: entry_ok_def ngx_unknown_error_def ngx_string_def)
  from cpymem_copy_text [OF this] False show ?thesis
    by (auto simp: ngx_strerror_table_def table_text_def Let_def)
qed

interpretation tab: strerror_source "\<lambda>err. filled strerror g (es_last g)" "ngx_strerror_table g" "table_text strerror g"
  for strerror g
  by unfold_locales (rule table_copy_text)

lemma filled_start:
  "es_list g = Some (replicate (nat (es_last g - es_first g)) None) \<Longrightarrow> filled strerror g (es_first g)"
  by (auto simp: filled_def)

lemma strerror_init_success:
  assumes "strerror_ok strerror" "alloc_ok alloc"
    "ngx_strerror_init_table cfg alloc strerror errno errstr g0 = Some (NGX_OK, g, console)"
  shows "console = [] \<and> filled strerror g (es_last g)"
proof -
  obtain g1 where g1: "errno_range cfg strerror g0 = Some g1"
    using assms(3) by (cases "errno_range cfg strerror g0") (simp_all add: ngx_strerror_init_table_def)
  have ne: "strerror_init_failed strerror errno errstr len h \<noteq> Some (NGX_OK, g, console)" for len h
    by (auto simp: strerror_init_failed_def NGX_OK_def NGX_ERROR_def split: Option.bind_splits)
  define g2 where "g2 = g1\<lparr>es_list := Some (replicate (nat (es_last g1 - es_first g1)) None)\<rparr>"
  have g2: "filled strerror g2 (es_first g2)" by (rule filled_start) (simp add: g2_def)
  obtain failed g3 where f: "fill_table alloc strerror 1 (es_last g2) (es_first g2) g2 = Some (failed, g3)"
    "es_first g3 = es_first g2" "es_last g3 = es_last g2" "failed = None \<longrightarrow> filled strerror g3 (es_last g2)"
    using fill_table_fills [OF assms(1,2) g2] by blast
  show ?thesis
    using assms(3) g1 ne f by (auto simp: ngx_strerror_init_table_def Let_def g2_def split: option.splits)
qed

text \<open>A read of the table with room for \<open>sz\<close> bytes is defined and stays inside them.\<close>

lemma strerror_table_bounded:
  assumes "filled strerror g (es_last g)" "b + unat sz \<le> length mem"
  shows "\<exists>m e. ngx_strerror_table g err mem b sz = Some (m, e) \<and> b \<le> e \<and> e \<le> b + unat sz
    \<and> take (e - b) (drop b m) = take (e - b) (table_text strerror g err) \<and> drop e m = drop e mem"
  using tab.defined [OF assms] tab.bounded [OF assms(1)] by (metis not_None_eq old.prod.exhaust)

text \<open>Copies of two texts are the same in every buffer only when the texts are.\<close>

lemma copy_text_same:
  assumes "\<forall>mem b sz. copy_text mem b t sz = copy_text mem b u sz" "length t < 2 ^ 64" "length u < 2 ^ 64"
  shows "t = u"
proof -
  define n where "n = max (length t) (length u)"
  have n: "unat (of_nat n :: u64) = n" using assms(2,3) by (intro unat_of_nat_64) (simp add: n_def)
  have "copy_text (replicate n NUL) 0 v (of_nat n) = Some (v @ replicate (n - length v) NUL, length v)"
    if "length v \<le> n" for v
    using that by (simp add: copy_text_def n patch_def Let_def)
  from this [of t] this [of u] show ?thesis using assms(1) by (simp add: n_def) (metis append_eq_append_conv)
qed

text \<open>
  C15: once the table is set up, \<open>ngx_strerror\<close> writes, whatever buffer and size it is given, for an error number
  in the range what the branch with \<^verbatim>\<open>strerrordesc_np\<close> writes for the message
  of \<^verbatim>\<open>strerror\<close>, and for any other number what that branch writes for a number without a message, the text of an
  unknown error. So it agrees with the messages of \<^verbatim>\<open>strerror\<close> at a number outside the range only where
  \<^verbatim>\<open>strerror\<close> has that very text.
\<close>

theorem ngx_strerror_table_equiv:
  assumes "strerror_ok strerror" "alloc_ok alloc"
    "ngx_strerror_init_table cfg alloc strerror errno errstr g0 = Some (NGX_OK, g, console)"
  shows "console = []
    \<and> (es_first g \<le> sint err \<and> sint err < es_last g \<longrightarrow>
        ngx_strerror_table g err mem buf sz = ngx_strerror (\<lambda>e. fst (strerror (sint e))) err mem buf sz)
    \<and> (\<not> (es_first g \<le> sint err \<and> sint err < es_last g) \<longrightarrow>
        ngx_strerror_table g err mem buf sz = ngx_strerror (\<lambda>e. None) err mem buf sz)
    \<and> ((\<forall>mem buf sz. ngx_strerror_table g err mem buf sz = ngx_strerror (\<lambda>e. fst (strerror (sint e))) err mem buf sz)
        \<longleftrightarrow> es_first g \<le> sint err \<and> sint err < es_last g
          \<or> error_text (\<lambda>e. fst (strerror (sint e))) err = ''Unknown error'')"
proof -
  let ?desc = "\<lambda>e :: u32. fst (strerror (sint e))"
  have fin: "console = []" "filled strerror g (es_last g)"
    using strerror_init_success [OF assms] by simp_all
  have desc: "desc_ok ?desc err" "desc_ok (\<lambda>e. None) err"
    using assms(1) by (auto simp: desc_ok_def strerror_ok_def)
  have table: "ngx_strerror_table g err mem b sz = copy_text mem b (table_text strerror g err) sz" for mem b sz
    by (rule table_copy_text [OF fin(2)])
  have libs: "ngx_strerror ?desc err mem b sz = copy_text mem b (error_text ?desc err) sz"
    "ngx_strerror (\<lambda>e. None) err mem b sz = copy_text mem b ''Unknown error'' sz" for mem b sz
    using strerror_copy_text [OF desc(1)] strerror_copy_text [OF desc(2)] by (simp_all add: error_text_def)
  have inside: "table_text strerror g err = error_text ?desc err" if "es_first g \<le> sint err \<and> sint err < es_last g"
    using that by (simp add: table_text_def error_text_def message_def)
  have outside: "table_text strerror g err = ''Unknown error''" if "\<not> (es_first g \<le> sint err \<and> sint err < es_last g)"
    using that unfolding table_text_def by (rule if_not_P)
  have "length (error_text ?desc err) < 2 ^ 64"
    using desc(1) by (auto simp: desc_ok_def error_text_def split: option.split intro: le_less_trans [OF length_takeWhile_le])
  then have "error_text ?desc err = ''Unknown error''"
    if "\<forall>mem b sz. copy_text mem b ''Unknown error'' sz = copy_text mem b (error_text ?desc err) sz"
    using copy_text_same [OF that] by simp
  then show ?thesis using fin(1) inside outside unfolding table libs by metis
qed

definition malloc_failed_text :: "u64 \<Rightarrow> u32 \<Rightarrow> char list \<Rightarrow> char list" where
  "malloc_failed_text len errno t = ''malloc('' @ dec_string (unat len) @ '') failed ('' @ signed_text (sint errno)
     @ '': '' @ t @ '')''"

lemma malloc_failed_pieces:
  assumes "NUL \<notin> set t"
  shows "fmt_pieces malloc_failed_fmt [VLong len, VInt errno, VCStr (t @ NUL # rest)]
    = Some (singles (malloc_failed_text len errno t))"
  using assms
  by (simp add: malloc_failed_fmt_def fmt_step malloc_failed_text_def signed_text_def string_pieces_def
      str_ok_def str_pieces_def str_content_def takeWhile_NUL)

lemma errno_range_defined:
  assumes "strerror_ok strerror"
  shows "\<exists>g'. errno_range cfg strerror g = Some g'"
proof -
  obtain f where "scan_first strerror (cf_eperm cfg - 1000) (cf_eperm cfg) (es_first g) = Some f"
    using scan_first_finds [OF assms] by blast
  moreover obtain l where "scan_last strerror (cf_eperm cfg + 1000) (cf_eperm cfg) (es_last g) = Some l"
    using scan_last_finds [OF assms] by blast
  moreover obtain l' where "scan_last strerror 1000 0 (es_last g) = Some l'"
    using scan_last_finds [OF assms] by blast
  ultimately show ?thesis by (cases "cf_sys_nerr cfg") (simp_all add: errno_range_def Let_def)
qed

lemma take_take_append: "k \<le> length u + j \<Longrightarrow> take k (u @ take j v) = take k (u @ v)"
  by (auto simp: min_def)

lemma init_failed_reports:
  assumes "length errstr = 2048" "fst (strerror (sint errno)) = Some (t @ NUL # rest)" "NUL \<notin> set t"
  shows "strerror_init_failed strerror errno errstr len g
    = Some (NGX_ERROR, g, take 2047 (''nginx: '' @ malloc_failed_text len errno t) @ [LF])"
  using ngx_log_stderr_line [OF assms(1) malloc_failed_pieces [OF assms(3)], of 0 "\<lambda>e. None"] assms(2)
    take_take_append [of 2047 "''nginx: ''" 2041]
  by (simp add: strerror_init_failed_def stderr_line_def del: append.append_Cons)

text \<open>
  C19: setting up the table always returns: with \<open>NGX_OK\<close> and nothing on standard error, which is the case
  when no \<^verbatim>\<open>malloc\<close> fails, or with \<open>NGX_ERROR\<close> and one line that names the size, the error number and its
  message. When the \<^verbatim>\<open>malloc\<close> of the table fails, the range of error numbers stays set, and a later
  \<open>ngx_strerror\<close> of a number in it reads through the null pointer.
\<close>

theorem ngx_strerror_init_total:
  assumes "strerror_ok strerror" "alloc_ok alloc" "length errstr = 2048"
    "fst (strerror (sint errno)) = Some (t @ NUL # rest)" "NUL \<notin> set t"
  shows "\<exists>rc g console. ngx_strerror_init_table cfg alloc strerror errno errstr errlist_start = Some (rc, g, console)
    \<and> (rc = NGX_OK \<and> console = [] \<or> rc = NGX_ERROR
        \<and> (\<exists>len. console = take 2047 (''nginx: '' @ malloc_failed_text len errno t) @ [LF]))
    \<and> ((\<forall>i n. alloc i n \<noteq> None) \<longrightarrow> rc = NGX_OK)
    \<and> ((\<forall>n. alloc 0 n = None) \<longrightarrow> rc = NGX_ERROR
        \<and> (\<forall>err mem buf sz. es_first g \<le> sint err \<and> sint err < es_last g \<longrightarrow> ngx_strerror_table g err mem buf sz = None))"
proof -
  obtain g1 where g1: "errno_range cfg strerror errlist_start = Some g1"
    using errno_range_defined [OF assms(1)] by blast
  define len where "len = (of_int (es_last g1 - es_first g1) * 16 :: u64)"
  note fails = init_failed_reports [of errstr strerror, OF assms(3-5)]
  show ?thesis
  proof (cases "alloc 0 len")
    case None
    define g2 where "g2 = g1\<lparr>es_list := None\<rparr>"
    have "ngx_strerror_init_table cfg alloc strerror errno errstr errlist_start
        = Some (NGX_ERROR, g2, take 2047 (''nginx: '' @ malloc_failed_text len errno t) @ [LF])"
      using None g1 fails
      by (simp add: ngx_strerror_init_table_def Let_def len_def [symmetric] g2_def del: of_int_diff append.append_Cons)
    moreover have "ngx_strerror_table g2 err mem buf sz = None"
      if "es_first g2 \<le> sint err \<and> sint err < es_last g2" for err mem buf sz
      using that by (simp add: ngx_strerror_table_def g2_def)
    ultimately show ?thesis using None by blast
  next
    case (Some p)
    define g2 where "g2 = g1\<lparr>es_list := Some (replicate (nat (es_last g1 - es_first g1)) None)\<rparr>"
    have g2: "filled strerror g2 (es_first g2)" by (rule filled_start) (simp add: g2_def)
    obtain failed g3 where f: "fill_table alloc strerror 1 (es_last g2) (es_first g2) g2 = Some (failed, g3)"
      "(\<forall>i n. alloc i n \<noteq> None) \<longrightarrow> failed = None"
      using fill_table_fills [OF assms(1,2) g2] by blast
    have "ngx_strerror_init_table cfg alloc strerror errno errstr errlist_start
        = (case failed of None \<Rightarrow> Some (NGX_OK, g3, [])
           | Some n \<Rightarrow> Some (NGX_ERROR, g3, take 2047 (''nginx: '' @ malloc_failed_text n errno t) @ [LF]))"
      using g1 fails f(1) Some
      by (simp add: ngx_strerror_init_table_def Let_def len_def [symmetric] g2_def [symmetric]
          del: of_int_diff append.append_Cons split: option.splits)
    then have init: "failed = None \<Longrightarrow> ngx_strerror_init_table cfg alloc strerror errno errstr errlist_start = Some (NGX_OK, g3, [])"
      "failed = Some n \<Longrightarrow> ngx_strerror_init_table cfg alloc strerror errno errstr errlist_start
        = Some (NGX_ERROR, g3, take 2047 (''nginx: '' @ malloc_failed_text n errno t) @ [LF])" for n
      by (simp_all del: append.append_Cons)
    have table: "\<not> (\<forall>n. alloc 0 n = None)" using Some by (metis option.distinct(1))
    show ?thesis
    proof (cases failed)
      case None
      from init(1) [OF this] table show ?thesis by blast
    next
      case (Some n)
      then have "\<not> (\<forall>i n. alloc i n \<noteq> None)" using f(2) by (metis option.distinct(1))
      with init(2) [OF Some] table show ?thesis by blast
    qed
  qed
qed

subsection \<open>Witnesses\<close>

definition demo_strerror :: strerror where
  "demo_strerror e = (if e = 0 then (Some (''Success'' @ [NUL]), False)
     else if e = 1 then (Some (''Not permitted'' @ [NUL]), False)
     else if e = 3 then (None, False)
     else if e = 4 then (Some (''Interrupted'' @ [NUL]), False)
     else (Some (''Unknown error'' @ [NUL]), False))"

definition demo_alloc :: "nat \<Rightarrow> u64 \<Rightarrow> char list option" where
  "demo_alloc i n = Some (replicate (unat n) (CHR ''x''))"

definition demo_cfg :: errno_cfg where
  "demo_cfg = \<lparr>cf_sys_nerr = None, cf_eperm = 1\<rparr>"

lemma demo_strerror_ok: "strerror_ok demo_strerror"
  by (simp add: strerror_ok_def demo_strerror_def)

lemma demo_alloc_ok: "alloc_ok demo_alloc"
  by (simp add: alloc_ok_def demo_alloc_def)

lemma demo_known: "is_known demo_strerror e \<longleftrightarrow> e \<in> {0, 1, 4}"
  by (simp add: is_known_def message_def demo_strerror_def)

theorem errno_range_correct_witness:
  "\<exists>g. errno_range demo_cfg demo_strerror errlist_start = Some g \<and> es_first g = 0 \<and> es_last g = 5"
proof -
  have "is_known demo_strerror (cf_eperm demo_cfg)" "cf_eperm demo_cfg \<in> scanned demo_cfg"
    by (simp_all add: demo_known demo_cfg_def scanned_def)
  from errno_range_correct [OF demo_strerror_ok this]
  obtain g where g: "errno_range demo_cfg demo_strerror errlist_start = Some g"
    "\<forall>e. e \<in> {0 .. 999} \<and> e \<in> {0, 1, 4} \<longrightarrow> es_first g \<le> e \<and> e < es_last g"
    "es_last g - 1 \<in> {0, 1, 4}" "es_first g = 0 \<or> es_first g \<in> {0, 1, 4}"
    unfolding demo_known by (auto simp: demo_cfg_def scanned_def)
  have "es_first g \<le> 0" using g(2) [rule_format, of 0] by simp
  moreover have "4 < es_last g" using g(2) [rule_format, of 4] by simp
  ultimately have "es_first g = 0 \<and> es_last g = 5" using g(3,4) by auto
  then show ?thesis using g(1) by blast
qed

theorem ngx_strerror_init_total_witness:
  "\<exists>g console. ngx_strerror_init_table demo_cfg demo_alloc demo_strerror 4 (replicate 2048 NUL) errlist_start
    = Some (NGX_OK, g, console)"
  using ngx_strerror_init_total [OF demo_strerror_ok demo_alloc_ok, of "replicate 2048 NUL" 4 "''Interrupted''" "[]" demo_cfg]
  by (auto simp: demo_strerror_def demo_alloc_def)

lemma demo_init:
  "\<exists>g console. ngx_strerror_init_table (demo_cfg\<lparr>cf_sys_nerr := Some 2\<rparr>) demo_alloc demo_strerror 4 errstr errlist_start
    = Some (NGX_OK, g, console) \<and> es_first g = 0 \<and> es_last g = 2"
  by (simp add: ngx_strerror_init_table_def errno_range_def errlist_start_def Let_def fill_table.simps
      demo_alloc_def demo_strerror_def put_entry_def ngx_cpymem_def)

theorem ngx_strerror_table_equiv_witness:
  "\<exists>g console. ngx_strerror_init_table (demo_cfg\<lparr>cf_sys_nerr := Some 2\<rparr>) demo_alloc demo_strerror 4 [] errlist_start
      = Some (NGX_OK, g, console)
    \<and> ngx_strerror_table g 1 (replicate 20 NUL) 0 5 = Some (''Not p'' @ replicate 15 NUL, 5)"
proof -
  obtain g console where g: "ngx_strerror_init_table (demo_cfg\<lparr>cf_sys_nerr := Some 2\<rparr>) demo_alloc demo_strerror 4 [] errlist_start
      = Some (NGX_OK, g, console)" "es_first g = 0" "es_last g = 2"
    using demo_init by blast
  have "ngx_strerror_table g 1 (replicate 20 NUL) 0 5 = Some (''Not p'' @ replicate 15 NUL, 5)"
    using ngx_strerror_table_equiv [OF demo_strerror_ok demo_alloc_ok g(1), of 1 "replicate 20 NUL" 0 5,
        THEN conjunct2, THEN conjunct1] g(2,3)
    by (simp add: ngx_strerror_def demo_strerror_def ngx_cpymem_def patch_def ngx_min_def)
  then show ?thesis using g(1) by blast
qed

end
