(* ===== verification/Ngx_Alloc.thy ===== *)
theory Ngx_Alloc
  imports Ngx_Prelude
begin

text \<open>
  \<^verbatim>\<open>src/os/unix/ngx_alloc.c\<close> over an explicit heap. The heap knows the live blocks of the C
  library's allocator, the bytes, and the structures of the program that were stored in it,
  one map from addresses per type of structure (\<^verbatim>\<open>ngx_palloc.h\<close>, \<^verbatim>\<open>ngx_array.h\<close>,
  \<^verbatim>\<open>ngx_list.h\<close>). A structure is stored only into live memory that holds all of it, freeing
  a block forgets what was stored in it, and reading a structure that is not there is undefined.

  The C library is the parameter \<open>libc\<close>: where \<^verbatim>\<open>malloc\<close>, \<^verbatim>\<open>posix_memalign\<close> and \<^verbatim>\<open>memalign\<close> put a block
  (\<open>NULL\<close> for a failure) given the number of earlier calls and the live blocks, the page size,
  the values that locals without an initialiser happen to have, and what the handler
  registered for a cleanup does. \<open>libc_ok\<close> is the documented behaviour of the allocator;
  nothing is assumed of the locals.
\<close>

subsection \<open>The heap\<close>

record ngx_pool_data_t =
  pd_last :: addr
  pd_end :: addr
  pd_next :: addr
  pd_failed :: u64

text \<open>The fields of \<^verbatim>\<open>struct ngx_pool_s\<close> after its \<open>d\<close>, which only the first pool has.\<close>

record ngx_pool_rest =
  pm_max :: u64
  pm_current :: addr
  pm_chain :: addr
  pm_large :: addr
  pm_cleanup :: addr
  pm_log :: addr

record ngx_pool_large_t =
  pl_next :: addr
  pl_alloc :: addr

record ngx_pool_cleanup_t =
  pc_handler :: addr
  pc_data :: addr
  pc_next :: addr

record ngx_array_t =
  ar_elts :: addr
  ar_nelts :: u64
  ar_size :: u64
  ar_nalloc :: u64
  ar_pool :: addr

record ngx_list_part_t =
  lp_elts :: addr
  lp_nelts :: u64
  lp_next :: addr

text \<open>\<open>struct ngx_list_t\<close> without its embedded first part, which is the part at offset 8.\<close>

record ngx_list_rest =
  ls_last :: addr
  ls_size :: u64
  ls_nalloc :: u64
  ls_pool :: addr

type_synonym block = "addr \<times> u64"

record heap =
  h_clock :: nat
  h_blocks :: "block list"
  h_mem :: "addr \<Rightarrow> 8 word"
  h_pds :: "addr \<Rightarrow> ngx_pool_data_t option"
  h_pms :: "addr \<Rightarrow> ngx_pool_rest option"
  h_larges :: "addr \<Rightarrow> ngx_pool_large_t option"
  h_cleanups :: "addr \<Rightarrow> ngx_pool_cleanup_t option"
  h_arrays :: "addr \<Rightarrow> ngx_array_t option"
  h_lists :: "addr \<Rightarrow> ngx_list_rest option"
  h_parts :: "addr \<Rightarrow> ngx_list_part_t option"
  h_calls :: "(addr \<times> addr) list"     \<comment> \<open>the cleanup handlers called, with their data\<close>

record libc =
  lc_malloc :: "nat \<Rightarrow> block list \<Rightarrow> u64 \<Rightarrow> addr"
  lc_posix_memalign :: "nat \<Rightarrow> block list \<Rightarrow> u64 \<Rightarrow> u64 \<Rightarrow> addr"
  lc_memalign :: "nat \<Rightarrow> block list \<Rightarrow> u64 \<Rightarrow> u64 \<Rightarrow> addr"
  lc_local :: "nat \<Rightarrow> addr"     \<comment> \<open>the local \<^verbatim>\<open>p\<close> of \<open>ngx_memalign\<close> before it is set\<close>
  lc_pagesize :: u64
  lc_uninit :: "nat \<Rightarrow> addr"
  lc_uninit_n :: "nat \<Rightarrow> u64"
  lc_handler :: "addr \<Rightarrow> addr \<Rightarrow> heap \<Rightarrow> heap option"

definition sizeof_ngx_pool_t :: u64 where "sizeof_ngx_pool_t = 80"
definition sizeof_ngx_pool_data_t :: u64 where "sizeof_ngx_pool_data_t = 32"
definition sizeof_ngx_pool_large_t :: u64 where "sizeof_ngx_pool_large_t = 16"
definition sizeof_ngx_pool_cleanup_t :: u64 where "sizeof_ngx_pool_cleanup_t = 24"
definition sizeof_ngx_array_t :: u64 where "sizeof_ngx_array_t = 40"
definition sizeof_ngx_list_part_t :: u64 where "sizeof_ngx_list_part_t = 24"
definition sizeof_ngx_list_t :: u64 where "sizeof_ngx_list_t = 56"

lemmas sizeof_defs [ngx_consts] =
  sizeof_ngx_pool_t_def sizeof_ngx_pool_data_t_def sizeof_ngx_pool_large_t_def
  sizeof_ngx_pool_cleanup_t_def sizeof_ngx_array_t_def sizeof_ngx_list_part_t_def
  sizeof_ngx_list_t_def

subsection \<open>Access\<close>

text \<open>The bytes of a region, as numbers so that an end of \<open>2 ^ 64\<close> is not zero.\<close>

definition region :: "addr \<Rightarrow> u64 \<Rightarrow> nat set" where
  "region a n = {unat a ..< unat a + unat n}"

definition live :: "heap \<Rightarrow> addr \<Rightarrow> u64 \<Rightarrow> bool" where
  "live h p n \<longleftrightarrow> (\<exists>(b, s) \<in> set (h_blocks h). unat b \<le> unat p \<and> unat p + unat n \<le> unat b + unat s)"

definition put_pd :: "heap \<Rightarrow> addr \<Rightarrow> ngx_pool_data_t \<Rightarrow> heap option" where
  "put_pd h p d = (if live h p sizeof_ngx_pool_data_t
     then Some (h\<lparr>h_pds := (h_pds h)(p \<mapsto> d)\<rparr>) else None)"

definition put_pm :: "heap \<Rightarrow> addr \<Rightarrow> ngx_pool_rest \<Rightarrow> heap option" where
  "put_pm h p m = (if live h p sizeof_ngx_pool_t
     then Some (h\<lparr>h_pms := (h_pms h)(p \<mapsto> m)\<rparr>) else None)"

definition put_large :: "heap \<Rightarrow> addr \<Rightarrow> ngx_pool_large_t \<Rightarrow> heap option" where
  "put_large h p l = (if live h p sizeof_ngx_pool_large_t
     then Some (h\<lparr>h_larges := (h_larges h)(p \<mapsto> l)\<rparr>) else None)"

definition put_cleanup :: "heap \<Rightarrow> addr \<Rightarrow> ngx_pool_cleanup_t \<Rightarrow> heap option" where
  "put_cleanup h p c = (if live h p sizeof_ngx_pool_cleanup_t
     then Some (h\<lparr>h_cleanups := (h_cleanups h)(p \<mapsto> c)\<rparr>) else None)"

definition put_array :: "heap \<Rightarrow> addr \<Rightarrow> ngx_array_t \<Rightarrow> heap option" where
  "put_array h p a = (if live h p sizeof_ngx_array_t
     then Some (h\<lparr>h_arrays := (h_arrays h)(p \<mapsto> a)\<rparr>) else None)"

definition put_list :: "heap \<Rightarrow> addr \<Rightarrow> ngx_list_rest \<Rightarrow> heap option" where
  "put_list h p l = (if live h p sizeof_ngx_list_t
     then Some (h\<lparr>h_lists := (h_lists h)(p \<mapsto> l)\<rparr>) else None)"

definition put_part :: "heap \<Rightarrow> addr \<Rightarrow> ngx_list_part_t \<Rightarrow> heap option" where
  "put_part h p q = (if live h p sizeof_ngx_list_part_t
     then Some (h\<lparr>h_parts := (h_parts h)(p \<mapsto> q)\<rparr>) else None)"

text \<open>\<^verbatim>\<open>ngx_memzero\<close> and \<^verbatim>\<open>ngx_memcpy\<close>; an address is in the region when its offset is below \<open>n\<close>.\<close>

definition ngx_memzero :: "heap \<Rightarrow> addr \<Rightarrow> u64 \<Rightarrow> heap option" where
  "ngx_memzero h p n = (if live h p n
     then Some (h\<lparr>h_mem := (\<lambda>a. if a - p < n then 0 else h_mem h a)\<rparr>) else None)"

definition ngx_memcpy :: "heap \<Rightarrow> addr \<Rightarrow> addr \<Rightarrow> u64 \<Rightarrow> heap option" where
  "ngx_memcpy h dst src n = (if live h dst n \<and> live h src n
     then Some (h\<lparr>h_mem := (\<lambda>a. if a - dst < n then h_mem h (src + (a - dst)) else h_mem h a)\<rparr>)
     else None)"

subsection \<open>The allocator of the C library\<close>

definition grab :: "heap \<Rightarrow> addr \<Rightarrow> u64 \<Rightarrow> heap" where
  "grab h p sz = h\<lparr>h_clock := h_clock h + 1,
     h_blocks := (if p = NULL then h_blocks h else (p, sz) # h_blocks h)\<rparr>"

text \<open>
  Both functions only log a failure before they return. The logging is left out: it does not
  touch the heap.
\<close>

definition ngx_alloc :: "libc \<Rightarrow> heap \<Rightarrow> u64 \<Rightarrow> addr \<times> heap" where
  "ngx_alloc env h sz = (let p = lc_malloc env (h_clock h) (h_blocks h) sz in (p, grab h p sz))"

definition ngx_calloc :: "libc \<Rightarrow> heap \<Rightarrow> u64 \<Rightarrow> (addr \<times> heap) option" where
  "ngx_calloc env h sz = (let (p, h) = ngx_alloc env h sz in
     if p \<noteq> NULL then do { h \<leftarrow> ngx_memzero h p sz; Some (p, h) } else Some (p, h))"

text \<open>
  \<^verbatim>\<open>posix_memalign\<close> stores to its argument only when it succeeds, so after a failure
  \<open>ngx_memalign\<close> returns its local \<open>p\<close> as it was, without a value.
\<close>

definition ngx_memalign :: "libc \<Rightarrow> heap \<Rightarrow> u64 \<Rightarrow> u64 \<Rightarrow> addr \<times> heap" where
  "ngx_memalign env h alignment sz =
     (let p = lc_posix_memalign env (h_clock h) (h_blocks h) alignment sz in
      (if p = NULL then lc_local env (h_clock h) else p, grab h p sz))"

definition outside :: "addr \<Rightarrow> u64 \<Rightarrow> (addr \<Rightarrow> 'a option) \<Rightarrow> addr \<Rightarrow> 'a option" where
  "outside p n m a = (if a - p < n then None else m a)"

definition ngx_free :: "heap \<Rightarrow> addr \<Rightarrow> heap option" where
  "ngx_free h p = (if p = NULL then Some h else
     (case map_of (h_blocks h) p of None \<Rightarrow> None
      | Some n \<Rightarrow> Some (h\<lparr>h_blocks := filter (\<lambda>b. fst b \<noteq> p) (h_blocks h),
          h_pds := outside p n (h_pds h), h_pms := outside p n (h_pms h),
          h_larges := outside p n (h_larges h), h_cleanups := outside p n (h_cleanups h),
          h_arrays := outside p n (h_arrays h), h_lists := outside p n (h_lists h),
          h_parts := outside p n (h_parts h)\<rparr>)))"


subsection \<open>Documented behaviour of the allocator\<close>

text \<open>
  A returned block is not \<open>NULL\<close>, shares no byte with a live block and no address with an
  empty one, lies in the user half of the address space and is aligned: to 8 for \<^verbatim>\<open>malloc\<close>,
  to the request for \<^verbatim>\<open>posix_memalign\<close> and \<^verbatim>\<open>memalign\<close>. The first of these refuses an alignment that is
  not a power of two and a multiple of the size of a pointer; for the second any power of two will do.
\<close>

definition apart :: "addr \<Rightarrow> u64 \<Rightarrow> addr \<Rightarrow> u64 \<Rightarrow> bool" where
  "apart a n b m \<longleftrightarrow> unat a + unat n \<le> unat b \<or> unat b + unat m \<le> unat a"

definition fresh :: "block list \<Rightarrow> addr \<Rightarrow> u64 \<Rightarrow> bool" where
  "fresh bl a n \<longleftrightarrow> unat a + unat n < 2 ^ 63 \<and> (\<forall>(b, m) \<in> set bl. a \<noteq> b \<and> apart a n b m)"

definition pointer_alignment :: "u64 \<Rightarrow> bool" where
  "pointer_alignment al \<longleftrightarrow> 8 dvd unat al \<and> al AND (al - 1) = 0 \<and> al \<noteq> 0"

definition libc_ok :: "libc \<Rightarrow> bool" where
  "libc_ok env \<longleftrightarrow>
     (\<forall>t bl n a. lc_malloc env t bl n = a \<longrightarrow> a \<noteq> NULL \<longrightarrow> fresh bl a n \<and> 8 dvd unat a)
   \<and> (\<forall>t bl al n a. lc_posix_memalign env t bl al n = a \<longrightarrow> a \<noteq> NULL \<longrightarrow>
        fresh bl a n \<and> unat al dvd unat a)
   \<and> (\<forall>t bl al n a. lc_memalign env t bl al n = a \<longrightarrow> a \<noteq> NULL \<longrightarrow>
        fresh bl a n \<and> unat al dvd unat a)
   \<and> (\<forall>t bl al n. \<not> pointer_alignment al \<longrightarrow> lc_posix_memalign env t bl al n = NULL)"

text \<open>
  The callers of \<open>ngx_memalign\<close> compare its result with \<open>NULL\<close>, which sees a failure only
  when the local it returns happened to be \<open>NULL\<close>. A call is \<open>wild\<close> when \<^verbatim>\<open>posix_memalign\<close> fails and that
  local is not: the caller goes on with whatever it holds. The lemmas about the callers are
  proved for a library in which the local is always \<open>NULL\<close>, and hold for any other as long as no
  call is wild, because \<open>ngx_memalign\<close> then does what it does in the library \<open>calm env\<close>.
\<close>

definition wild :: "libc \<Rightarrow> heap \<Rightarrow> u64 \<Rightarrow> u64 \<Rightarrow> bool" where
  "wild env h al n \<longleftrightarrow> lc_posix_memalign env (h_clock h) (h_blocks h) al n = NULL \<and> lc_local env (h_clock h) \<noteq> NULL"

definition local_null :: "libc \<Rightarrow> bool" where
  "local_null env \<longleftrightarrow> (\<forall>t. lc_local env t = NULL)"

definition calm :: "libc \<Rightarrow> libc" where
  "calm env = env\<lparr>lc_local := (\<lambda>_. NULL)\<rparr>"

lemma calm_simps [simp]:
  "lc_malloc (calm env) = lc_malloc env" "lc_posix_memalign (calm env) = lc_posix_memalign env"
  "lc_memalign (calm env) = lc_memalign env" "lc_local (calm env) t = NULL" "lc_pagesize (calm env) = lc_pagesize env"
  "lc_uninit (calm env) = lc_uninit env" "lc_uninit_n (calm env) = lc_uninit_n env"
  "lc_handler (calm env) = lc_handler env" "libc_ok (calm env) = libc_ok env" "local_null (calm env)"
  by (simp_all add: calm_def libc_ok_def local_null_def)

lemma calm_alloc [simp]: "ngx_alloc (calm env) = ngx_alloc env"
  by (rule ext)+ (simp add: ngx_alloc_def)

lemma calm_memalign: "\<not> wild env h al n \<Longrightarrow> ngx_memalign env h al n = ngx_memalign (calm env) h al n"
  by (auto simp: ngx_memalign_def wild_def Let_def)

definition blocks_ok :: "block list \<Rightarrow> bool" where
  "blocks_ok bl \<longleftrightarrow> distinct (map fst bl)
     \<and> (\<forall>(a, n) \<in> set bl. a \<noteq> NULL \<and> unat a + unat n < 2 ^ 63)
     \<and> (\<forall>(a, n) \<in> set bl. \<forall>(b, m) \<in> set bl. a \<noteq> b \<longrightarrow> apart a n b m)"

text \<open>A libc for the witnesses: blocks are placed upwards from a start address.\<close>

definition bump_place :: "block list \<Rightarrow> addr" where
  "bump_place bl = (case bl of [] \<Rightarrow> 4096 | (b, m) # _ \<Rightarrow> ngx_align (b + m + 1) 4096)"

definition bump_libc :: libc where
  "bump_libc = \<lparr>
     lc_malloc = (\<lambda>t bl n. let a = bump_place bl in
        if fresh bl a n \<and> 8 dvd unat a then a else NULL),
     lc_posix_memalign = (\<lambda>t bl al n. let a = bump_place bl in
        if pointer_alignment al \<and> fresh bl a n \<and> unat al dvd unat a then a else NULL),
     lc_memalign = (\<lambda>t bl al n. let a = bump_place bl in
        if fresh bl a n \<and> unat al dvd unat a then a else NULL),
     lc_local = (\<lambda>_. NULL), lc_pagesize = 4096, lc_uninit = (\<lambda>_. NULL),
     lc_uninit_n = (\<lambda>_. 3), lc_handler = (\<lambda>_ _ h. Some h)\<rparr>"

definition empty_heap :: heap where
  "empty_heap = \<lparr>h_clock = 0, h_blocks = [], h_mem = (\<lambda>_. 0), h_pds = (\<lambda>_. None),
     h_pms = (\<lambda>_. None), h_larges = (\<lambda>_. None), h_cleanups = (\<lambda>_. None),
     h_arrays = (\<lambda>_. None), h_lists = (\<lambda>_. None), h_parts = (\<lambda>_. None), h_calls = []\<rparr>"

lemma bump_libc_ok: "libc_ok bump_libc"
  by (simp add: libc_ok_def bump_libc_def Let_def)

lemma bump_libc_local: "local_null bump_libc"
  by (simp add: local_null_def bump_libc_def)

lemma bump_libc_calm [simp]: "calm bump_libc = bump_libc" "\<not> wild bump_libc h al n"
  by (simp_all add: calm_def wild_def bump_libc_def)

lemma empty_blocks_ok: "blocks_ok (h_blocks empty_heap)"
  by (simp add: blocks_ok_def empty_heap_def)

subsection \<open>Regions and blocks\<close>

lemma offset_less:
  assumes "unat p + unat n < 2 ^ 64"
  shows "a - p < n \<longleftrightarrow> unat a \<in> region p n"
proof (cases "unat p \<le> unat a")
  case True
  then show ?thesis by (auto simp: word_less_nat_alt unat_minus_le region_def)
next
  case False
  have "unat a < unat p" using False by simp
  then have "unat (a - p) = 2 ^ 64 + unat a - unat p"
    using unat_sub_if_size [of a p] by (simp add: word_size)
  then show ?thesis using assms False by (auto simp: word_less_nat_alt region_def)
qed

lemma region_disjoint: "apart a n b m \<Longrightarrow> region a n \<inter> region b m = {}"
  by (auto simp: apart_def region_def)

lemma apart_sym: "apart a n b m \<longleftrightarrow> apart b m a n"
  by (auto simp: apart_def)

lemma liveI: "(b, s) \<in> set (h_blocks h) \<Longrightarrow> unat b \<le> unat p \<Longrightarrow> unat p + unat n \<le> unat b + unat s
  \<Longrightarrow> live h p n"
  by (auto simp: live_def)

lemma blocks_okD:
  assumes "blocks_ok bl" "(a, n) \<in> set bl"
  shows "a \<noteq> NULL" "unat a + unat n < 2 ^ 63" "map_of bl a = Some n"
    "(b, m) \<in> set bl \<Longrightarrow> a \<noteq> b \<Longrightarrow> apart a n b m" "(a, m) \<in> set bl \<Longrightarrow> m = n"
  using assms by (auto simp: blocks_ok_def dest: eq_key_imp_eq_value)

lemma live_bounds:
  assumes "blocks_ok (h_blocks h)" "live h p n"
  shows "p \<noteq> NULL" "unat p + unat n < 2 ^ 63"
proof -
  obtain b s where b: "(b, s) \<in> set (h_blocks h)" "unat b \<le> unat p" "unat p + unat n \<le> unat b + unat s"
    using assms(2) by (auto simp: live_def)
  note ok = blocks_okD(1,2) [OF assms(1) b(1)]
  have "0 < unat b" using ok(1) by (simp add: unat_gt_0)
  then show "p \<noteq> NULL" using b(2) by auto
  show "unat p + unat n < 2 ^ 63" using ok(2) b(3) by simp
qed

lemma live_sub:
  assumes "blocks_ok (h_blocks h)" "live h p n" "unat k + unat m \<le> unat n"
  shows "unat (p + k) = unat p + unat k" "live h (p + k) m" "region (p + k) m \<subseteq> region p n"
proof -
  have "unat p + unat n < 2 ^ 63" by (rule live_bounds [OF assms(1,2)])
  then show k: "unat (p + k) = unat p + unat k" using assms(3) by (simp add: unat_word_ariths)
  obtain b s where "(b, s) \<in> set (h_blocks h)" "unat b \<le> unat p" "unat p + unat n \<le> unat b + unat s"
    using assms(2) by (auto simp: live_def)
  then show "live h (p + k) m" using k assms(3) by (auto intro: liveI)
  show "region (p + k) m \<subseteq> region p n" using k assms(3) by (auto simp: region_def)
qed

lemma blocks_ok_Cons:
  "blocks_ok bl \<Longrightarrow> fresh bl a n \<Longrightarrow> a \<noteq> NULL \<Longrightarrow> blocks_ok ((a, n) # bl)"
  by (force simp: blocks_ok_def fresh_def apart_sym)

lemma blocks_ok_filter: "blocks_ok bl \<Longrightarrow> blocks_ok (filter P bl)"
  by (auto simp: blocks_ok_def distinct_map inj_on_def)

lemma grab_simps [simp]:
  "h_blocks (grab h p n) = (if p = NULL then h_blocks h else (p, n) # h_blocks h)"
  "h_mem (grab h p n) = h_mem h" "h_pds (grab h p n) = h_pds h" "h_pms (grab h p n) = h_pms h"
  "h_larges (grab h p n) = h_larges h" "h_cleanups (grab h p n) = h_cleanups h"
  "h_arrays (grab h p n) = h_arrays h" "h_lists (grab h p n) = h_lists h"
  "h_parts (grab h p n) = h_parts h" "h_calls (grab h p n) = h_calls h"
  by (simp_all add: grab_def)

lemma ngx_alloc_fresh:
  assumes "libc_ok env" "ngx_alloc env h n = (p, h')"
  shows "h' = grab h p n" "p \<noteq> NULL \<Longrightarrow> fresh (h_blocks h) p n \<and> 8 dvd unat p"
  using assms unfolding ngx_alloc_def libc_ok_def Let_def by auto

lemma ngx_memalign_fresh:
  assumes "libc_ok env" "ngx_memalign env h al n = (p, h')"
  obtains (block) "h' = grab h p n" "p \<noteq> NULL" "fresh (h_blocks h) p n" "unat al dvd unat p"
  | (failed) "h' = grab h NULL n" "p = lc_local env (h_clock h)"
    "lc_posix_memalign env (h_clock h) (h_blocks h) al n = NULL"
  using assms unfolding ngx_memalign_def libc_ok_def Let_def by (auto split: if_splits)

lemma grab_blocks_ok:
  "blocks_ok (h_blocks h) \<Longrightarrow> p \<noteq> NULL \<longrightarrow> fresh (h_blocks h) p n \<Longrightarrow> blocks_ok (h_blocks (grab h p n))"
  by (auto intro: blocks_ok_Cons)

lemma outside_other:
  "unat p + unat n < 2 ^ 64 \<Longrightarrow> unat a \<notin> region p n \<Longrightarrow> outside p n m a = m a"
  by (simp add: outside_def offset_less)

definition released :: "heap \<Rightarrow> addr \<Rightarrow> u64 \<Rightarrow> heap" where
  "released h p n = h\<lparr>h_blocks := filter (\<lambda>b. fst b \<noteq> p) (h_blocks h),
     h_pds := outside p n (h_pds h), h_pms := outside p n (h_pms h),
     h_larges := outside p n (h_larges h), h_cleanups := outside p n (h_cleanups h),
     h_arrays := outside p n (h_arrays h), h_lists := outside p n (h_lists h),
     h_parts := outside p n (h_parts h)\<rparr>"

lemma released_simps [simp]:
  "h_blocks (released h p n) = filter (\<lambda>b. fst b \<noteq> p) (h_blocks h)"
  "h_mem (released h p n) = h_mem h" "h_calls (released h p n) = h_calls h"
  "h_pds (released h p n) = outside p n (h_pds h)" "h_pms (released h p n) = outside p n (h_pms h)"
  "h_larges (released h p n) = outside p n (h_larges h)"
  "h_cleanups (released h p n) = outside p n (h_cleanups h)"
  "h_arrays (released h p n) = outside p n (h_arrays h)"
  "h_lists (released h p n) = outside p n (h_lists h)"
  "h_parts (released h p n) = outside p n (h_parts h)"
  by (simp_all add: released_def)

lemma ngx_free_block:
  "blocks_ok (h_blocks h) \<Longrightarrow> (p, n) \<in> set (h_blocks h) \<Longrightarrow> ngx_free h p = Some (released h p n)"
  using blocks_okD(1,3) [of "h_blocks h" p n] by (simp add: ngx_free_def released_def)

lemma ngx_free_NULL [simp]: "ngx_free h NULL = Some h"
  by (simp add: ngx_free_def)

lemma ngx_free_unknown:
  assumes "p \<noteq> NULL" "p \<notin> fst ` set (h_blocks h)"
  shows "ngx_free h p = None"
proof -
  have "map_of (h_blocks h) p = None" using assms(2) map_of_eq_None_iff by metis
  with assms(1) show ?thesis unfolding ngx_free_def by (simp only: if_False option.case)
qed

lemma released_blocks_ok: "blocks_ok (h_blocks h) \<Longrightarrow> blocks_ok (h_blocks (released h p n))"
  by (simp add: blocks_ok_filter)

text \<open>A structure that lies in another live block survives.\<close>

lemma outside_block:
  assumes "blocks_ok bl" "(p, n) \<in> set bl" "(b, s) \<in> set bl" "b \<noteq> p" "unat a \<in> region b s"
  shows "outside p n m a = m a"
proof -
  have "apart p n b s" using blocks_okD(4) [OF assms(1,2,3)] assms(4) by simp
  then have "unat a \<notin> region p n" using region_disjoint [of p n b s] assms(5) by blast
  then show ?thesis using blocks_okD(2) [OF assms(1,2)] by (intro outside_other) simp_all
qed

subsection \<open>Properties\<close>

text \<open>
  \<open>ngx_calloc\<close> either fails without allocating anything or returns a block that shares no
  byte with the live ones, all of its bytes are zero and no byte outside of it changes; the
  block can then be freed, once.
\<close>

theorem ngx_calloc_correct:
  assumes "libc_ok env" "blocks_ok (h_blocks h)"
  shows "\<exists>p h'. ngx_calloc env h n = Some (p, h') \<and> blocks_ok (h_blocks h')
    \<and> (if p = NULL then h_blocks h' = h_blocks h \<and> h_mem h' = h_mem h
       else h_blocks h' = (p, n) # h_blocks h
         \<and> (\<forall>(b, m) \<in> set (h_blocks h). region p n \<inter> region b m = {})
         \<and> (\<forall>a. h_mem h' a = (if unat a \<in> region p n then 0 else h_mem h a))
         \<and> (\<exists>h''. ngx_free h' p = Some h'' \<and> h_blocks h'' = h_blocks h \<and> ngx_free h'' p = None))"
proof -
  obtain p h1 where a: "ngx_alloc env h n = (p, h1)" by fastforce
  note f = ngx_alloc_fresh [OF assms(1) a]
  show ?thesis
  proof (cases "p = NULL")
    case True
    then show ?thesis using assms(2) a f(1) by (auto simp: ngx_calloc_def)
  next
    case False
    then have fr: "fresh (h_blocks h) p n" using f(2) by simp
    have ok: "blocks_ok (h_blocks h1)" using grab_blocks_ok [OF assms(2)] fr f(1) by simp
    have room: "unat p + unat n < 2 ^ 64" using fr by (simp add: fresh_def)
    define h2 where "h2 = h1\<lparr>h_mem := (\<lambda>a. if a - p < n then 0 else h_mem h1 a)\<rparr>"
    have z: "ngx_memzero h1 p n = Some h2"
      using False f(1) by (auto simp: ngx_memzero_def h2_def intro!: liveI)
    have keep: "filter (\<lambda>b. fst b \<noteq> p) (h_blocks h) = h_blocks h"
      using fr by (auto simp: fresh_def filter_id_conv)
    have h2: "h_blocks h2 = (p, n) # h_blocks h" using f(1) False by (simp add: h2_def)
    have free: "ngx_free h2 p = Some (released h2 p n)"
      using ok f(1) False h2 by (intro ngx_free_block) auto
    have again: "ngx_free (released h2 p n) p = None"
      using False h2 fr by (intro ngx_free_unknown) (auto simp: fresh_def)
    have "\<forall>(b, m) \<in> set (h_blocks h). region p n \<inter> region b m = {}"
      using fr by (auto simp: fresh_def dest!: region_disjoint)
    then show ?thesis
      using a z False ok f(1) h2 free again keep offset_less [OF room]
      by (intro exI [of _ p] exI [of _ h2]) (auto simp: ngx_calloc_def h2_def)
  qed
qed

theorem ngx_calloc_correct_witness:
  "\<exists>h'. ngx_calloc bump_libc empty_heap 64 = Some (4096, h') \<and> h_blocks h' = [(4096, 64)]
    \<and> h_mem h' 4100 = 0"
proof -
  have "fst (ngx_alloc bump_libc empty_heap 64) = 4096"
    by (simp add: ngx_alloc_def bump_libc_def empty_heap_def bump_place_def fresh_def)
  then obtain g where a: "ngx_alloc bump_libc empty_heap 64 = (4096, g)" by (metis prod.collapse)
  obtain p h' where p: "ngx_calloc bump_libc empty_heap 64 = Some (p, h')"
    "p \<noteq> NULL \<longrightarrow> h_blocks h' = [(p, 64)] \<and> (\<forall>a. unat a \<in> region p 64 \<longrightarrow> h_mem h' a = 0)"
    using ngx_calloc_correct [OF bump_libc_ok empty_blocks_ok, of 64]
    by (auto simp: empty_heap_def split: if_splits)
  have "p = 4096"
    using p(1) a by (auto simp: ngx_calloc_def split: Option.bind_splits)
  then show ?thesis using p by (auto simp: region_def)
qed

subsection \<open>Systems without posix_memalign\<close>

text \<open>
  With \<^verbatim>\<open>memalign\<close>, which returns its block, \<open>ngx_memalign\<close> has no local to leave unset. Without
  either function it is a macro for \<open>ngx_alloc\<close> that ignores the alignment.
\<close>

definition ngx_memalign_memalign :: "libc \<Rightarrow> heap \<Rightarrow> u64 \<Rightarrow> u64 \<Rightarrow> addr \<times> heap" where
  "ngx_memalign_memalign env h alignment sz =
     (let p = lc_memalign env (h_clock h) (h_blocks h) alignment sz in (p, grab h p sz))"

definition ngx_memalign_alloc :: "libc \<Rightarrow> heap \<Rightarrow> u64 \<Rightarrow> u64 \<Rightarrow> addr \<times> heap" where
  "ngx_memalign_alloc env h alignment sz = ngx_alloc env h sz"

text \<open>The answer of an allocation: a failure that allocates nothing, or an aligned block of its own.\<close>

definition allocated :: "heap \<Rightarrow> u64 \<Rightarrow> u64 \<Rightarrow> addr \<times> heap \<Rightarrow> bool" where
  "allocated h al n = (\<lambda>(p, h'). blocks_ok (h_blocks h') \<and> h_mem h' = h_mem h \<and>
     (if p = NULL then h_blocks h' = h_blocks h
      else h_blocks h' = (p, n) # h_blocks h \<and> fresh (h_blocks h) p n \<and> unat al dvd unat p))"

lemma allocated_grab:
  assumes "blocks_ok (h_blocks h)" "p \<noteq> NULL \<Longrightarrow> fresh (h_blocks h) p n \<and> unat al dvd unat p"
  shows "allocated h al n (p, grab h p n)"
  using assms grab_blocks_ok [OF assms(1)] by (auto simp: allocated_def)

text \<open>
  The three variants. The branch for \<^verbatim>\<open>posix_memalign\<close> answers as its callers expect exactly when the call is not wild,
  and for an alignment that \<^verbatim>\<open>posix_memalign\<close> refuses it allocates nothing. The branch for \<^verbatim>\<open>memalign\<close> always answers
  as they expect, and so does the macro for alignments up to 8.
\<close>

theorem ngx_memalign_variants:
  assumes "libc_ok env" "blocks_ok (h_blocks h)"
  shows "(allocated h al n (ngx_memalign env h al n) \<longleftrightarrow> \<not> wild env h al n)
    \<and> (\<not> pointer_alignment al \<longrightarrow> h_blocks (snd (ngx_memalign env h al n)) = h_blocks h)
    \<and> allocated h al n (ngx_memalign_memalign env h al n)
    \<and> (unat al dvd 8 \<longrightarrow> allocated h al n (ngx_memalign_alloc env h al n))"
proof (intro conjI impI)
  show "allocated h al n (ngx_memalign env h al n) \<longleftrightarrow> \<not> wild env h al n"
  proof (cases "lc_posix_memalign env (h_clock h) (h_blocks h) al n = NULL")
    case True
    then show ?thesis using assms(2) by (auto simp: ngx_memalign_def wild_def allocated_def)
  next
    case False
    then show ?thesis
      using assms allocated_grab [OF assms(2), of "lc_posix_memalign env (h_clock h) (h_blocks h) al n" n al]
      by (simp add: ngx_memalign_def wild_def libc_ok_def Let_def)
  qed
  show "allocated h al n (ngx_memalign_memalign env h al n)"
    using assms(1) allocated_grab [OF assms(2)] by (simp add: ngx_memalign_memalign_def libc_ok_def Let_def)
  show "h_blocks (snd (ngx_memalign env h al n)) = h_blocks h" if "\<not> pointer_alignment al"
    using assms(1) that by (simp add: ngx_memalign_def libc_ok_def Let_def)
  show "allocated h al n (ngx_memalign_alloc env h al n)" if "unat al dvd 8"
    using assms(1) allocated_grab [OF assms(2)] dvd_trans [OF that]
    unfolding ngx_memalign_alloc_def ngx_alloc_def libc_ok_def Let_def by metis
qed

theorem ngx_memalign_variants_witness:
  "allocated empty_heap 16 64 (ngx_memalign bump_libc empty_heap 16 64)
    \<and> allocated empty_heap 8 64 (ngx_memalign_alloc bump_libc empty_heap 8 64)"
  using ngx_memalign_variants [OF bump_libc_ok empty_blocks_ok, of 16 64]
    ngx_memalign_variants [OF bump_libc_ok empty_blocks_ok, of 8 64] by simp

end
