(* ===== verification/Ngx_Palloc.thy ===== *)
theory Ngx_Palloc
  imports Ngx_Alloc
begin

text \<open>
  \<^verbatim>\<open>src/core/ngx_palloc.c\<close>: the memory pool. A pool is a chain of equally large blocks, the
  first of which starts with the whole \<^verbatim>\<open>ngx_pool_t\<close> and the others with its first member
  \<^verbatim>\<open>ngx_pool_data_t\<close> only; small requests are cut from the blocks, larger ones are blocks of
  their own, remembered in a chain of \<^verbatim>\<open>ngx_pool_large_t\<close> that are themselves small requests.

  The operations return the pointer and the heap, or \<open>None\<close> where the code would use memory
  it does not own. The loops follow pointers in the heap and are partial functions; that they
  end is part of the properties.
\<close>

definition NGX_MAX_ALLOC_FROM_POOL :: "libc \<Rightarrow> u64" where
  "NGX_MAX_ALLOC_FROM_POOL env = lc_pagesize env - 1"

definition NGX_POOL_ALIGNMENT :: u64 where "NGX_POOL_ALIGNMENT = 16"

definition NGX_DEFAULT_POOL_SIZE :: u64 where "NGX_DEFAULT_POOL_SIZE = 16 * 1024"

subsection \<open>Creating a pool\<close>

definition ngx_create_pool :: "libc \<Rightarrow> heap \<Rightarrow> u64 \<Rightarrow> addr \<Rightarrow> (addr \<times> heap) option" where
  "ngx_create_pool env h sz log = (let (p, h) = ngx_memalign env h NGX_POOL_ALIGNMENT sz in
     if p = NULL then Some (NULL, h) else do {
       h \<leftarrow> put_pd h p \<lparr>pd_last = p + sizeof_ngx_pool_t, pd_end = p + sz, pd_next = NULL,
              pd_failed = 0\<rparr>;
       let sz = sz - sizeof_ngx_pool_t;
       h \<leftarrow> put_pm h p \<lparr>
              pm_max = (if sz < NGX_MAX_ALLOC_FROM_POOL env then sz else NGX_MAX_ALLOC_FROM_POOL env),
              pm_current = p, pm_chain = NULL, pm_large = NULL, pm_cleanup = NULL, pm_log = log\<rparr>;
       Some (p, h) })"

subsection \<open>Small allocations\<close>

text \<open>
  The scan of \<open>ngx_palloc_block\<close> from the current block to the last one, whose address it
  returns; a block that has failed more than four times gives up being the current one.
\<close>

partial_function (option) palloc_block_scan :: "addr \<Rightarrow> heap \<Rightarrow> addr \<Rightarrow> (addr \<times> heap) option" where
  "palloc_block_scan pool h p = do {
     d \<leftarrow> h_pds h p;
     if pd_next d = NULL then Some (p, h) else do {
       h \<leftarrow> put_pd h p (d\<lparr>pd_failed := pd_failed d + 1\<rparr>);
       h \<leftarrow> (if pd_failed d > 4 then do {
               m \<leftarrow> h_pms h pool;
               put_pm h pool (m\<lparr>pm_current := pd_next d\<rparr>) }
             else Some h);
       palloc_block_scan pool h (pd_next d) } }"

definition ngx_palloc_block :: "libc \<Rightarrow> heap \<Rightarrow> addr \<Rightarrow> u64 \<Rightarrow> (addr \<times> heap) option" where
  "ngx_palloc_block env h pool sz = do {
     d0 \<leftarrow> h_pds h pool;
     let psize = pd_end d0 - pool;
     let (m, h) = ngx_memalign env h NGX_POOL_ALIGNMENT psize;
     if m = NULL then Some (NULL, h) else do {
       let new = m;
       let m = ngx_align_ptr (m + sizeof_ngx_pool_data_t) NGX_ALIGMENT;
       h \<leftarrow> put_pd h new \<lparr>pd_last = m + sz, pd_end = new + psize, pd_next = NULL, pd_failed = 0\<rparr>;
       pm \<leftarrow> h_pms h pool;
       (p, h) \<leftarrow> palloc_block_scan pool h (pm_current pm);
       d \<leftarrow> h_pds h p;
       h \<leftarrow> put_pd h p (d\<lparr>pd_next := new\<rparr>);
       Some (m, h) } }"

text \<open>\<open>Some None\<close> is a loop that ran through all of the blocks.\<close>

partial_function (option) palloc_small_scan ::
  "heap \<Rightarrow> addr \<Rightarrow> u64 \<Rightarrow> bool \<Rightarrow> (addr \<times> heap) option option" where
  "palloc_small_scan h p sz align = do {
     d \<leftarrow> h_pds h p;
     let m = (if align then ngx_align_ptr (pd_last d) NGX_ALIGMENT else pd_last d);
     if pd_end d - m \<ge> sz then do {
       h \<leftarrow> put_pd h p (d\<lparr>pd_last := m + sz\<rparr>);
       Some (Some (m, h)) }
     else if pd_next d = NULL then Some None
     else palloc_small_scan h (pd_next d) sz align }"

definition ngx_palloc_small :: "libc \<Rightarrow> heap \<Rightarrow> addr \<Rightarrow> u64 \<Rightarrow> bool \<Rightarrow> (addr \<times> heap) option" where
  "ngx_palloc_small env h pool sz align = do {
     pm \<leftarrow> h_pms h pool;
     r \<leftarrow> palloc_small_scan h (pm_current pm) sz align;
     (case r of Some (m, h) \<Rightarrow> Some (m, h) | None \<Rightarrow> ngx_palloc_block env h pool sz) }"

subsection \<open>Large allocations\<close>

text \<open>
  The search for a record without memory. \<open>n\<close> counts the records passed; its first value is
  that of a local without an initialiser.
\<close>

partial_function (option) palloc_large_scan ::
  "heap \<Rightarrow> addr \<Rightarrow> u64 \<Rightarrow> addr \<Rightarrow> heap option option" where
  "palloc_large_scan h large n p =
     (if large = NULL then Some None else do {
        l \<leftarrow> h_larges h large;
        if pl_alloc l = NULL then do {
          h \<leftarrow> put_large h large (l\<lparr>pl_alloc := p\<rparr>);
          Some (Some h) }
        else if n > 3 then Some None
        else palloc_large_scan h (pl_next l) (n + 1) p })"

text \<open>The end of \<open>ngx_palloc_large\<close> and \<open>ngx_pmemalign\<close>: a new record at the head.\<close>

definition palloc_large_link :: "libc \<Rightarrow> heap \<Rightarrow> addr \<Rightarrow> addr \<Rightarrow> (addr \<times> heap) option" where
  "palloc_large_link env h pool p = do {
     (large, h) \<leftarrow> ngx_palloc_small env h pool sizeof_ngx_pool_large_t True;
     if large = NULL then do { h \<leftarrow> ngx_free h p; Some (NULL, h) }
     else do {
       pm \<leftarrow> h_pms h pool;
       h \<leftarrow> put_large h large \<lparr>pl_next = pm_large pm, pl_alloc = p\<rparr>;
       h \<leftarrow> put_pm h pool (pm\<lparr>pm_large := large\<rparr>);
       Some (p, h) } }"

definition ngx_palloc_large :: "libc \<Rightarrow> heap \<Rightarrow> addr \<Rightarrow> u64 \<Rightarrow> (addr \<times> heap) option" where
  "ngx_palloc_large env h pool sz = (let n = lc_uninit_n env (h_clock h); (p, h) = ngx_alloc env h sz in
     if p = NULL then Some (NULL, h) else do {
       pm \<leftarrow> h_pms h pool;
       r \<leftarrow> palloc_large_scan h (pm_large pm) n p;
       (case r of Some h \<Rightarrow> Some (p, h) | None \<Rightarrow> palloc_large_link env h pool p) })"

definition ngx_pmemalign :: "libc \<Rightarrow> heap \<Rightarrow> addr \<Rightarrow> u64 \<Rightarrow> u64 \<Rightarrow> (addr \<times> heap) option" where
  "ngx_pmemalign env h pool sz alignment = (let (p, h) = ngx_memalign env h alignment sz in
     if p = NULL then Some (NULL, h) else palloc_large_link env h pool p)"

definition ngx_palloc :: "libc \<Rightarrow> heap \<Rightarrow> addr \<Rightarrow> u64 \<Rightarrow> (addr \<times> heap) option" where
  "ngx_palloc env h pool sz = do {
     pm \<leftarrow> h_pms h pool;
     if sz \<le> pm_max pm then ngx_palloc_small env h pool sz True
     else ngx_palloc_large env h pool sz }"

definition ngx_pnalloc :: "libc \<Rightarrow> heap \<Rightarrow> addr \<Rightarrow> u64 \<Rightarrow> (addr \<times> heap) option" where
  "ngx_pnalloc env h pool sz = do {
     pm \<leftarrow> h_pms h pool;
     if sz \<le> pm_max pm then ngx_palloc_small env h pool sz False
     else ngx_palloc_large env h pool sz }"

definition ngx_pcalloc :: "libc \<Rightarrow> heap \<Rightarrow> addr \<Rightarrow> u64 \<Rightarrow> (addr \<times> heap) option" where
  "ngx_pcalloc env h pool sz = do {
     (p, h) \<leftarrow> ngx_palloc env h pool sz;
     if p \<noteq> NULL then do { h \<leftarrow> ngx_memzero h p sz; Some (p, h) } else Some (p, h) }"

partial_function (option) pfree_scan :: "heap \<Rightarrow> addr \<Rightarrow> addr \<Rightarrow> (u64 \<times> heap) option" where
  "pfree_scan h l p =
     (if l = NULL then Some (NGX_DECLINED, h) else do {
        r \<leftarrow> h_larges h l;
        if p = pl_alloc r then do {
          h \<leftarrow> ngx_free h (pl_alloc r);
          r \<leftarrow> h_larges h l;
          h \<leftarrow> put_large h l (r\<lparr>pl_alloc := NULL\<rparr>);
          Some (NGX_OK, h) }
        else pfree_scan h (pl_next r) p })"

definition ngx_pfree :: "heap \<Rightarrow> addr \<Rightarrow> addr \<Rightarrow> (u64 \<times> heap) option" where
  "ngx_pfree h pool p = do { pm \<leftarrow> h_pms h pool; pfree_scan h (pm_large pm) p }"

subsection \<open>Cleanups, reset and destruction\<close>

text \<open>The fields of a fresh record that are not assigned yet hold whatever was there.\<close>

definition ngx_pool_cleanup_add :: "libc \<Rightarrow> heap \<Rightarrow> addr \<Rightarrow> u64 \<Rightarrow> (addr \<times> heap) option" where
  "ngx_pool_cleanup_add env h p sz = do {
     (c, h) \<leftarrow> ngx_palloc env h p sizeof_ngx_pool_cleanup_t;
     if c = NULL then Some (NULL, h) else do {
       (data, h) \<leftarrow> (if sz \<noteq> 0 then ngx_palloc env h p sz else Some (NULL, h));
       h \<leftarrow> put_cleanup h c \<lparr>pc_handler = lc_uninit env (h_clock h), pc_data = data,
              pc_next = lc_uninit env (h_clock h)\<rparr>;
       if sz \<noteq> 0 \<and> data = NULL then Some (NULL, h) else do {
         pm \<leftarrow> h_pms h p;
         h \<leftarrow> put_cleanup h c \<lparr>pc_handler = NULL, pc_data = data, pc_next = pm_cleanup pm\<rparr>;
         h \<leftarrow> put_pm h p (pm\<lparr>pm_cleanup := c\<rparr>);
         Some (c, h) } } }"

partial_function (option) run_cleanups :: "libc \<Rightarrow> heap \<Rightarrow> addr \<Rightarrow> heap option" where
  "run_cleanups env h c =
     (if c = NULL then Some h else do {
        r \<leftarrow> h_cleanups h c;
        h \<leftarrow> (if pc_handler r \<noteq> NULL
              then lc_handler env (pc_handler r) (pc_data r)
                     (h\<lparr>h_calls := h_calls h @ [(pc_handler r, pc_data r)]\<rparr>)
              else Some h);
        r \<leftarrow> h_cleanups h c;
        run_cleanups env h (pc_next r) })"

partial_function (option) free_larges :: "heap \<Rightarrow> addr \<Rightarrow> heap option" where
  "free_larges h l =
     (if l = NULL then Some h else do {
        r \<leftarrow> h_larges h l;
        h \<leftarrow> (if pl_alloc r \<noteq> NULL then ngx_free h (pl_alloc r) else Some h);
        r \<leftarrow> h_larges h l;
        free_larges h (pl_next r) })"

text \<open>
  The loop over the blocks frees \<open>pool\<close> each time round, not the block \<open>p\<close> it has reached. \<open>fr\<close> is
  \<^verbatim>\<open>ngx_free\<close>, a macro for the library's \<^verbatim>\<open>free\<close>.
\<close>

partial_function (option) free_blocks ::
  "(heap \<Rightarrow> addr \<Rightarrow> heap option) \<Rightarrow> addr \<Rightarrow> heap \<Rightarrow> addr \<Rightarrow> heap option" where
  "free_blocks fr pool h n = do {
     h \<leftarrow> fr h pool;
     if n = NULL then Some h else do {
       d \<leftarrow> h_pds h n;
       free_blocks fr pool h (pd_next d) } }"

definition destroy_pool_with :: "(heap \<Rightarrow> addr \<Rightarrow> heap option) \<Rightarrow> libc \<Rightarrow> heap \<Rightarrow> addr \<Rightarrow> heap option" where
  "destroy_pool_with fr env h pool = do {
     pm \<leftarrow> h_pms h pool;
     h \<leftarrow> run_cleanups env h (pm_cleanup pm);
     pm \<leftarrow> h_pms h pool;
     h \<leftarrow> free_larges h (pm_large pm);
     d \<leftarrow> h_pds h pool;
     free_blocks fr pool h (pd_next d) }"

definition ngx_destroy_pool :: "libc \<Rightarrow> heap \<Rightarrow> addr \<Rightarrow> heap option" where
  "ngx_destroy_pool env h pool = destroy_pool_with ngx_free env h pool"

partial_function (option) reset_blocks :: "heap \<Rightarrow> addr \<Rightarrow> heap option" where
  "reset_blocks h p =
     (if p = NULL then Some h else do {
        d \<leftarrow> h_pds h p;
        h \<leftarrow> put_pd h p (d\<lparr>pd_last := p + sizeof_ngx_pool_t, pd_failed := 0\<rparr>);
        reset_blocks h (pd_next d) })"

definition ngx_reset_pool :: "heap \<Rightarrow> addr \<Rightarrow> heap option" where
  "ngx_reset_pool h pool = do {
     pm \<leftarrow> h_pms h pool;
     h \<leftarrow> free_larges h (pm_large pm);
     h \<leftarrow> reset_blocks h pool;
     pm \<leftarrow> h_pms h pool;
     put_pm h pool (pm\<lparr>pm_current := pool, pm_chain := NULL, pm_large := NULL\<rparr>) }"

subsection \<open>The invariant of the chain\<close>

definition pd_next_at :: "heap \<Rightarrow> addr \<Rightarrow> addr option" where
  "pd_next_at h b = map_option pd_next (h_pds h b)"

lemma pd_next_at_Some [simp]: "h_pds h b = Some d \<Longrightarrow> pd_next_at h b = Some (pd_next d)"
  by (simp add: pd_next_at_def)

definition header :: "addr \<Rightarrow> addr \<Rightarrow> nat" where
  "header pool b = (if b = pool then 80 else 32)"

definition block_ok :: "heap \<Rightarrow> addr \<Rightarrow> u64 \<Rightarrow> addr \<Rightarrow> bool" where
  "block_ok h pool ps b \<longleftrightarrow> (b, ps) \<in> set (h_blocks h) \<and> 16 dvd unat b
     \<and> (\<exists>d. h_pds h b = Some d \<and> pd_end d = b + ps
          \<and> unat b + header pool b \<le> unat (pd_last d) \<and> unat (pd_last d) \<le> unat b + unat ps)"

definition chain_ok :: "heap \<Rightarrow> addr \<Rightarrow> addr list \<Rightarrow> u64 \<Rightarrow> bool" where
  "chain_ok h pool bs ps \<longleftrightarrow> blocks_ok (h_blocks h) \<and> linked (pd_next_at h) pool bs \<and> bs \<noteq> []
     \<and> (\<forall>b \<in> set bs. block_ok h pool ps b) \<and> 8 dvd unat ps \<and> 80 \<le> unat ps
     \<and> (\<exists>m. h_pms h pool = Some m \<and> pm_current m \<in> set bs \<and> unat (pm_max m) \<le> unat ps - 80)"

text \<open>The bytes of a block that are taken: its header and what was cut from it.\<close>

definition block_used :: "heap \<Rightarrow> addr \<Rightarrow> nat set" where
  "block_used h b = (case h_pds h b of None \<Rightarrow> {} | Some d \<Rightarrow> {unat b ..< unat (pd_last d)})"

definition taken :: "heap \<Rightarrow> addr list \<Rightarrow> nat set" where
  "taken h bs = \<Union> (block_used h ` set bs)"

definition bump :: "heap \<Rightarrow> addr \<Rightarrow> addr \<Rightarrow> heap" where
  "bump h b x = h\<lparr>h_pds := (h_pds h)(b \<mapsto> (the (h_pds h b))\<lparr>pd_last := x\<rparr>)\<rparr>"

lemma bump_simps [simp]:
  "h_blocks (bump h b x) = h_blocks h" "h_mem (bump h b x) = h_mem h" "h_pms (bump h b x) = h_pms h"
  "h_larges (bump h b x) = h_larges h" "h_cleanups (bump h b x) = h_cleanups h"
  "h_arrays (bump h b x) = h_arrays h" "h_lists (bump h b x) = h_lists h"
  "h_parts (bump h b x) = h_parts h" "h_calls (bump h b x) = h_calls h" "h_clock (bump h b x) = h_clock h"
  "h_pds (bump h b x) = (h_pds h)(b \<mapsto> (the (h_pds h b))\<lparr>pd_last := x\<rparr>)"
  by (simp_all add: bump_def)

definition place :: "bool \<Rightarrow> addr \<Rightarrow> addr" where
  "place align p = (if align then ngx_align_ptr p NGX_ALIGMENT else p)"

lemma place_bounds:
  assumes "unat p < 2 ^ 63"
  shows "unat p \<le> unat (place al p)" "al \<Longrightarrow> 8 dvd unat (place al p)"
    "unat p \<le> e \<Longrightarrow> 8 dvd e \<Longrightarrow> unat (place al p) \<le> e"
proof -
  have r: "unat (place al p) = (if al then (unat p + 7) div 8 * 8 else unat p)"
    using assms by (simp add: place_def NGX_ALIGMENT_def unat_align_8)
  show "unat p \<le> unat (place al p)" unfolding r by auto
  show "al \<Longrightarrow> 8 dvd unat (place al p)" unfolding r by auto
  show "unat (place al p) \<le> e" if "unat p \<le> e" "8 dvd e"
    using that unfolding r by (auto elim!: dvdE)
qed

lemma block_okD:
  assumes "blocks_ok (h_blocks h)" "block_ok h pool ps b"
  shows "\<exists>d. h_pds h b = Some d \<and> pd_end d = b + ps \<and> unat (b + ps) = unat b + unat ps
    \<and> unat b + header pool b \<le> unat (pd_last d) \<and> unat (pd_last d) \<le> unat (b + ps)
    \<and> unat (b + ps) < 2 ^ 63 \<and> unat (pd_last d) < 2 ^ 63 \<and> live h b 32"
proof -
  obtain d where d: "h_pds h b = Some d" "pd_end d = b + ps"
    "unat b + header pool b \<le> unat (pd_last d)" "unat (pd_last d) \<le> unat b + unat ps"
    "(b, ps) \<in> set (h_blocks h)"
    using assms(2) by (auto simp: block_ok_def)
  have "unat b + unat ps < 2 ^ 63" using blocks_okD(2) [OF assms(1) d(5)] .
  moreover from this have "unat (b + ps) = unat b + unat ps" by (intro unat_plus_no_wrap) simp
  moreover have "unat b + 32 \<le> unat b + unat ps" using d(3,4) by (simp add: header_def split: if_splits)
  then have "live h b 32" using d(5) by (intro liveI) auto
  ultimately show ?thesis using d by auto
qed

text \<open>The room test \<^verbatim>\<open>(size_t) (p->d.end - m) >= size\<close> does not wrap.\<close>

lemma room_test:
  assumes "unat m \<le> unat e"
  shows "e - m \<ge> n \<longleftrightarrow> unat m + unat n \<le> unat (e :: u64)"
  using assms by (simp add: word_le_nat_alt unat_minus_le le_diff_conv2 add.commute)

text \<open>The block that serves a request: the first of the chain with room for it.\<close>

definition fits :: "heap \<Rightarrow> u64 \<Rightarrow> u64 \<Rightarrow> bool \<Rightarrow> addr \<Rightarrow> bool" where
  "fits h ps sz align b \<longleftrightarrow> (\<exists>d. h_pds h b = Some d
     \<and> unat (place align (pd_last d)) + unat sz \<le> unat (b + ps))"

lemma palloc_small_scan_correct:
  assumes "blocks_ok (h_blocks h)" "8 dvd unat ps" "linked (pd_next_at h) p qs" "qs \<noteq> []"
    "\<forall>b \<in> set qs. block_ok h pool ps b"
  shows "palloc_small_scan h p sz align =
    Some (case find (fits h ps sz align) qs of None \<Rightarrow> None
      | Some b \<Rightarrow> let m = place align (pd_last (the (h_pds h b))) in Some (m, bump h b (m + sz)))"
  using assms(3-5)
proof (induction qs arbitrary: p)
  case (Cons b qs)
  then have b: "block_ok h pool ps b" and p: "p = b" by auto
  from block_okD [OF assms(1) b] obtain d where d: "h_pds h b = Some d" "pd_end d = b + ps"
    "unat (b + ps) = unat b + unat ps" "unat (pd_last d) \<le> unat (b + ps)"
    "unat (pd_last d) < 2 ^ 63" "live h b 32" by auto
  have "16 dvd unat b" using b by (simp add: block_ok_def)
  then have "8 dvd unat (b + ps)" using assms(2) unfolding d(3) by presburger
  then have "unat (place align (pd_last d)) \<le> unat (b + ps)"
    using place_bounds(3) [OF d(5)] d(4) by blast
  then have room: "b + ps - place align (pd_last d) \<ge> sz \<longleftrightarrow> fits h ps sz align b"
    by (simp add: room_test fits_def d(1))
  show ?case
  proof (cases "fits h ps sz align b")
    case True
    then show ?thesis
      using d room by (subst palloc_small_scan.simps)
        (simp add: p place_def [symmetric] put_pd_def bump_def sizeof_defs Let_def)
  next
    case False
    have nx: "linked (pd_next_at h) (pd_next d) qs"
      using Cons.prems d(1) by auto
    show ?thesis
    proof (cases qs)
      case Nil
      then have "pd_next d = NULL" using nx by simp
      then show ?thesis
        using Nil d room False
        by (subst palloc_small_scan.simps) (simp add: p place_def [symmetric] Let_def)
    next
      case (Cons c cs)
      then have "pd_next d \<noteq> NULL" using nx by auto
      moreover have "palloc_small_scan h (pd_next d) sz align =
        Some (case find (fits h ps sz align) qs of None \<Rightarrow> None
          | Some b \<Rightarrow> let m = place align (pd_last (the (h_pds h b))) in Some (m, bump h b (m + sz)))"
        using Cons.IH [OF nx] Cons Cons.prems by auto
      ultimately show ?thesis
        using d room False
        by (subst palloc_small_scan.simps) (simp add: p place_def [symmetric] Let_def)
    qed
  qed
qed simp

text \<open>
  What the pool's own bookkeeping leaves alone: everything but the \<open>ngx_pool_data_t\<close> records,
  the current block and the C library's state.
\<close>

definition pool_frame :: "heap \<Rightarrow> heap \<Rightarrow> bool" where
  "pool_frame h h' \<longleftrightarrow> h_mem h' = h_mem h \<and> h_larges h' = h_larges h \<and> h_cleanups h' = h_cleanups h
     \<and> h_arrays h' = h_arrays h \<and> h_lists h' = h_lists h \<and> h_parts h' = h_parts h
     \<and> h_calls h' = h_calls h
     \<and> (\<forall>a. map_option (pm_current_update (\<lambda>_. NULL)) (h_pms h' a)
          = map_option (pm_current_update (\<lambda>_. NULL)) (h_pms h a))"

lemma pool_frame_refl [simp]: "pool_frame h h"
  by (simp add: pool_frame_def)

lemma pool_frame_trans: "pool_frame h1 h2 \<Longrightarrow> pool_frame h2 h3 \<Longrightarrow> pool_frame h1 h3"
  by (simp add: pool_frame_def)

lemma pool_frame_grab [simp]: "pool_frame h (grab h p n)"
  by (simp add: pool_frame_def)

lemma pool_frame_bump [simp]: "pool_frame h (bump h b x)"
  by (simp add: pool_frame_def)

lemma pool_frame_pm:
  assumes "pool_frame h h'" "h_pms h pool = Some m"
  shows "\<exists>c. h_pms h' pool = Some (m\<lparr>pm_current := c\<rparr>)"
proof -
  have "map_option (pm_current_update (\<lambda>_. NULL)) (h_pms h' pool) = Some (m\<lparr>pm_current := NULL\<rparr>)"
    using assms by (simp add: pool_frame_def)
  then obtain m' where m': "h_pms h' pool = Some m'" "m'\<lparr>pm_current := NULL\<rparr> = m\<lparr>pm_current := NULL\<rparr>"
    by auto
  have "m' = (m'\<lparr>pm_current := NULL\<rparr>)\<lparr>pm_current := pm_current m'\<rparr>" by simp
  also have "\<dots> = m\<lparr>pm_current := pm_current m'\<rparr>" unfolding m'(2) by simp
  finally show ?thesis using m'(1) by auto
qed

text \<open>The chain after a change of the records that keeps bounds and links.\<close>

lemma chain_ok_transfer:
  assumes "chain_ok h pool bs ps" "set (h_blocks h) \<subseteq> set (h_blocks h')" "blocks_ok (h_blocks h')"
    "\<forall>b \<in> set bs. \<forall>d. h_pds h b = Some d \<longrightarrow> (\<exists>d'. h_pds h' b = Some d' \<and> pd_end d' = pd_end d
       \<and> pd_next d' = pd_next d \<and> unat (pd_last d) \<le> unat (pd_last d')
       \<and> unat (pd_last d') \<le> unat b + unat ps)"
    "\<exists>m m'. h_pms h pool = Some m \<and> h_pms h' pool = Some m' \<and> pm_current m' \<in> set bs
       \<and> pm_max m' = pm_max m"
  shows "chain_ok h' pool bs ps"
proof -
  have nx: "\<forall>b \<in> set bs. pd_next_at h' b = pd_next_at h b"
  proof
    fix b assume b: "b \<in> set bs"
    then obtain d where "h_pds h b = Some d" using assms(1) by (auto simp: chain_ok_def block_ok_def)
    with b assms(4) show "pd_next_at h' b = pd_next_at h b" by fastforce
  qed
  have blk: "block_ok h' pool ps b" if b: "b \<in> set bs" for b
  proof -
    obtain d where d: "h_pds h b = Some d" "pd_end d = b + ps" "(b, ps) \<in> set (h_blocks h)"
      "16 dvd unat b" "unat b + header pool b \<le> unat (pd_last d)"
      using assms(1) b by (auto simp: chain_ok_def block_ok_def)
    with b assms(2,4) show ?thesis unfolding block_ok_def by fastforce
  qed
  show ?thesis
    using assms(1,3,5) blk linked_frame [OF _ nx, of pool] by (auto simp: chain_ok_def)
qed

lemma chain_ok_blocks: "chain_ok h pool bs ps \<Longrightarrow> blocks_ok (h_blocks h)"
  by (simp add: chain_ok_def)

lemma chain_okD:
  assumes "chain_ok h pool bs ps" "b \<in> set bs"
  shows "\<exists>d. h_pds h b = Some d \<and> pd_end d = b + ps \<and> unat (b + ps) = unat b + unat ps
    \<and> unat b + header pool b \<le> unat (pd_last d) \<and> unat (pd_last d) \<le> unat (b + ps)
    \<and> unat (b + ps) < 2 ^ 63 \<and> unat (pd_last d) < 2 ^ 63 \<and> live h b 32"
  using assms by (intro block_okD) (auto simp: chain_ok_def)

lemma chain_ok_block: "chain_ok h pool bs ps \<Longrightarrow> b \<in> set bs \<Longrightarrow> (b, ps) \<in> set (h_blocks h)"
  by (auto simp: chain_ok_def block_ok_def)

lemma chain_ok_pool: "chain_ok h pool bs ps \<Longrightarrow> \<exists>cs. bs = pool # cs"
  by (cases bs) (auto simp: chain_ok_def)

lemma bump_chain_ok:
  assumes "chain_ok h pool bs ps" "b \<in> set bs" "h_pds h b = Some d" "unat (pd_last d) \<le> unat x"
    "unat x \<le> unat (b + ps)"
  shows "chain_ok (bump h b x) pool bs ps"
proof (rule chain_ok_transfer [OF assms(1)])
  show "\<forall>a \<in> set bs. \<forall>e. h_pds h a = Some e \<longrightarrow> (\<exists>d'. h_pds (bump h b x) a = Some d'
      \<and> pd_end d' = pd_end e \<and> pd_next d' = pd_next e \<and> unat (pd_last e) \<le> unat (pd_last d')
      \<and> unat (pd_last d') \<le> unat a + unat ps)"
    using assms chain_okD [OF assms(1)] by (auto; fastforce)
qed (use assms in \<open>auto simp: chain_ok_def\<close>)

lemma taken_bump:
  assumes "b \<in> set bs" "h_pds h b = Some d" "unat b \<le> unat (pd_last d)" "unat (pd_last d) \<le> unat x"
  shows "taken (bump h b x) bs = taken h bs \<union> {unat (pd_last d) ..< unat x}"
proof -
  have "block_used (bump h b x) a = (if a = b then block_used h b \<union> {unat (pd_last d) ..< unat x}
      else block_used h a)" for a
    using assms(2-4) by (auto simp: block_used_def)
  then show ?thesis using assms(1) by (auto simp: taken_def)
qed

text \<open>Blocks of the chain do not overlap, so what lies beyond \<open>last\<close> is not taken.\<close>

lemma not_taken:
  assumes "chain_ok h pool bs ps" "b \<in> set bs" "h_pds h b = Some d" "unat (pd_last d) \<le> n"
    "n < unat b + unat ps"
  shows "n \<notin> taken h bs"
proof
  assume "n \<in> taken h bs"
  then obtain a e where a: "a \<in> set bs" "h_pds h a = Some e" "unat a \<le> n" "n < unat (pd_last e)"
    by (auto simp: taken_def block_used_def split: option.splits)
  have in_b: "unat b \<le> n" using chain_okD [OF assms(1,2)] assms(3,4) by auto
  show False
  proof (cases "a = b")
    case True
    then show False using a assms(3,4) by simp
  next
    case False
    have "apart a ps b ps"
      using blocks_okD(4) [OF chain_ok_blocks [OF assms(1)]] chain_ok_block [OF assms(1)] a(1) assms(2) False
      by blast
    then show False
      using chain_okD [OF assms(1) a(1)] a in_b assms(5) by (auto simp: apart_def)
  qed
qed

subsection \<open>Serving a small request\<close>

definition served :: "heap \<Rightarrow> addr list \<Rightarrow> u64 \<Rightarrow> u64 \<Rightarrow> addr \<Rightarrow> heap \<Rightarrow> addr list \<Rightarrow> bool" where
  "served h bs ps sz m h' bs' \<longleftrightarrow> m \<noteq> NULL
     \<and> (\<exists>b \<in> set bs'. unat b + 32 \<le> unat m \<and> unat m + unat sz \<le> unat b + unat ps)
     \<and> region m sz \<inter> taken h bs = {} \<and> taken h bs \<union> region m sz \<subseteq> taken h' bs'
     \<and> (h_blocks h' = h_blocks h \<and> bs' = bs
        \<or> (\<exists>new. new \<noteq> NULL \<and> fresh (h_blocks h) new ps \<and> h_blocks h' = (new, ps) # h_blocks h
             \<and> bs' = bs @ [new]))"

lemma serve_bump:
  assumes "chain_ok h pool bs ps" "b \<in> set bs" "fits h ps sz al b"
  shows "let m = place al (pd_last (the (h_pds h b))) in
    chain_ok (bump h b (m + sz)) pool bs ps \<and> served h bs ps sz m (bump h b (m + sz)) bs
    \<and> (al \<longrightarrow> 8 dvd unat m)"
proof -
  obtain d where d: "h_pds h b = Some d" "unat (b + ps) = unat b + unat ps"
    "unat b + header pool b \<le> unat (pd_last d)" "unat (b + ps) < 2 ^ 63" "unat (pd_last d) < 2 ^ 63"
    using chain_okD [OF assms(1,2)] by auto
  define m where "m = place al (pd_last d)"
  have fit: "unat m + unat sz \<le> unat b + unat ps"
    using assms(3) d by (simp add: fits_def m_def)
  have sum: "unat (m + sz) = unat m + unat sz"
    using fit d(2,4) by (intro unat_plus_no_wrap) simp
  have m: "unat (pd_last d) \<le> unat m" "al \<Longrightarrow> 8 dvd unat m"
    using place_bounds [OF d(5)] by (auto simp: m_def)
  have hd: "32 \<le> header pool b" by (simp add: header_def)
  have m0: "m \<noteq> NULL" using m(1) d(3) hd by auto
  have ok: "chain_ok (bump h b (m + sz)) pool bs ps"
    using bump_chain_ok [OF assms(1,2) d(1)] m(1) sum fit d(2) by simp
  have tk: "taken (bump h b (m + sz)) bs = taken h bs \<union> {unat (pd_last d) ..< unat m + unat sz}"
    using taken_bump [OF assms(2) d(1)] d(3) m(1) sum by simp
  have "region m sz \<inter> taken h bs = {}"
    using not_taken [OF assms(1,2) d(1)] m(1) fit by (fastforce simp: region_def)
  moreover have "region m sz \<subseteq> {unat (pd_last d) ..< unat m + unat sz}"
    using m(1) by (auto simp: region_def)
  ultimately have "served h bs ps sz m (bump h b (m + sz)) bs"
    using m0 assms(2) m(1) d(3) hd fit tk unfolding served_def by fastforce
  with ok m(2) d(1) show ?thesis by (simp add: m_def Let_def)
qed

subsection \<open>Appending a block\<close>

text \<open>The scan changes failure counters and the current block only.\<close>

definition recounted :: "heap \<Rightarrow> heap \<Rightarrow> bool" where
  "recounted h h' \<longleftrightarrow> h_blocks h' = h_blocks h \<and> pool_frame h h'
     \<and> (\<forall>b. map_option (pd_failed_update (\<lambda>_. 0)) (h_pds h' b)
          = map_option (pd_failed_update (\<lambda>_. 0)) (h_pds h b))"

lemma recounted_trans: "recounted h1 h2 \<Longrightarrow> recounted h2 h3 \<Longrightarrow> recounted h1 h3"
  by (auto simp: recounted_def intro: pool_frame_trans)

lemma recounted_pd:
  assumes "recounted h h'" "h_pds h b = Some d"
  shows "\<exists>n. h_pds h' b = Some (d\<lparr>pd_failed := n\<rparr>)"
proof -
  have "map_option (pd_failed_update (\<lambda>_. 0)) (h_pds h' b) = Some (d\<lparr>pd_failed := 0\<rparr>)"
    using assms by (simp add: recounted_def)
  then obtain d' where d': "h_pds h' b = Some d'" "d'\<lparr>pd_failed := 0\<rparr> = d\<lparr>pd_failed := 0\<rparr>" by auto
  have "d' = (d'\<lparr>pd_failed := 0\<rparr>)\<lparr>pd_failed := pd_failed d'\<rparr>" by simp
  also have "\<dots> = d\<lparr>pd_failed := pd_failed d'\<rparr>" unfolding d'(2) by simp
  finally show ?thesis using d'(1) by auto
qed

lemma recounted_chain_ok:
  assumes "chain_ok h pool bs ps" "recounted h h'"
    "\<exists>m. h_pms h' pool = Some m \<and> pm_current m \<in> set bs"
  shows "chain_ok h' pool bs ps"
proof (rule chain_ok_transfer [OF assms(1)])
  show "\<forall>b \<in> set bs. \<forall>d. h_pds h b = Some d \<longrightarrow> (\<exists>d'. h_pds h' b = Some d' \<and> pd_end d' = pd_end d
       \<and> pd_next d' = pd_next d \<and> unat (pd_last d) \<le> unat (pd_last d')
       \<and> unat (pd_last d') \<le> unat b + unat ps)"
    using recounted_pd [OF assms(2)] chain_okD [OF assms(1)] by fastforce
  obtain m where m: "h_pms h pool = Some m" using assms(1) by (auto simp: chain_ok_def)
  show "\<exists>m m'. h_pms h pool = Some m \<and> h_pms h' pool = Some m' \<and> pm_current m' \<in> set bs
       \<and> pm_max m' = pm_max m"
    using pool_frame_pm [of h h', OF _ m] assms(2,3) m by (auto simp: recounted_def)
qed (use assms in \<open>auto simp: recounted_def chain_ok_def\<close>)

lemma taken_recounted: "recounted h h' \<Longrightarrow> taken h' bs = taken h bs"
proof -
  assume r: "recounted h h'"
  have "block_used h' b = block_used h b" for b
  proof (cases "h_pds h b")
    case None
    then have "h_pds h' b = None" using r by (simp add: recounted_def) (metis option.map_disc_iff)
    with None show ?thesis by (simp add: block_used_def)
  next
    case (Some d)
    with recounted_pd [OF r Some] show ?thesis by (auto simp: block_used_def)
  qed
  then show ?thesis by (simp add: taken_def)
qed

lemma palloc_block_scan_correct:
  assumes "chain_ok h pool bs ps" "linked (pd_next_at h) p qs" "qs \<noteq> []" "set qs \<subseteq> set bs"
  shows "\<exists>h'. palloc_block_scan pool h p = Some (last qs, h') \<and> recounted h h' \<and> chain_ok h' pool bs ps
    \<and> h_clock h' = h_clock h"
  using assms
proof (induction qs arbitrary: h p)
  case (Cons b qs)
  then have p: "p = b" and b: "b \<in> set bs" by auto
  obtain d where d: "h_pds h b = Some d" "live h b 32" using chain_okD [OF Cons.prems(1) b] by auto
  obtain m where m: "h_pms h pool = Some m" "pm_current m \<in> set bs"
    using Cons.prems(1) by (auto simp: chain_ok_def)
  have nx: "linked (pd_next_at h) (pd_next d) qs" using Cons.prems(2) d(1) by auto
  show ?case
  proof (cases qs)
    case Nil
    then have "pd_next d = NULL" using nx by simp
    then show ?thesis
      using Nil d(1) Cons.prems(1)
      by (subst palloc_block_scan.simps) (simp add: p recounted_def)
  next
    case (Cons c cs)
    then have next_c: "pd_next d = c" and cbs: "c \<in> set bs" using nx Cons.prems(4) by auto
    then have n0: "pd_next d \<noteq> NULL" using nx Cons linked_not_NULL [OF nx] by auto
    define h1 where "h1 = h\<lparr>h_pds := (h_pds h)(b \<mapsto> d\<lparr>pd_failed := pd_failed d + 1\<rparr>)\<rparr>"
    define h2 where "h2 = (if pd_failed d > 4
      then h1\<lparr>h_pms := (h_pms h1)(pool \<mapsto> m\<lparr>pm_current := c\<rparr>)\<rparr> else h1)"
    have "recounted h h2"
      using d(1) m(1) by (auto simp: recounted_def pool_frame_def h2_def h1_def)
    moreover from this have ok: "chain_ok h2 pool bs ps"
      by (rule recounted_chain_ok [OF Cons.prems(1)]) (use m cbs in \<open>auto simp: h2_def h1_def\<close>)
    moreover have "linked (pd_next_at h2) (pd_next d) qs"
      using nx by (rule linked_frame) (auto simp: pd_next_at_def h2_def h1_def d(1))
    ultimately obtain h' where h': "palloc_block_scan pool h2 (pd_next d) = Some (last qs, h')"
      "recounted h h'" "chain_ok h' pool bs ps" "h_clock h' = h_clock h2"
      using Cons.IH [of h2 "pd_next d"] Cons.prems(4) Cons by (auto intro: recounted_trans)
    have clk: "h_clock h2 = h_clock h" by (simp add: h2_def h1_def)
    obtain b0 where "(b0, ps) \<in> set (h_blocks h)" "pool = b0"
      using chain_ok_block [OF Cons.prems(1)] chain_ok_pool [OF Cons.prems(1)] by auto
    then have "live h pool 80" using Cons.prems(1) by (intro liveI) (auto simp: chain_ok_def)
    then have step: "palloc_block_scan pool h p = palloc_block_scan pool h2 (pd_next d)"
      using d m n0 next_c
      by (subst palloc_block_scan.simps)
        (auto simp: p put_pd_def put_pm_def h2_def h1_def sizeof_defs live_def)
    show ?thesis using h' clk step Cons by auto
  qed
qed simp

text \<open>
  The result of a small allocation in the terms its callers use: \<open>small_result\<close> is a failure
  that changes nothing they see, or a served request.
\<close>

definition small_result ::
  "heap \<Rightarrow> addr \<Rightarrow> addr list \<Rightarrow> u64 \<Rightarrow> u64 \<Rightarrow> addr \<Rightarrow> heap \<Rightarrow> addr list \<Rightarrow> bool" where
  "small_result h pool bs ps sz m h' bs' \<longleftrightarrow> chain_ok h' pool bs' ps \<and> pool_frame h h'
     \<and> (if m = NULL then h_blocks h' = h_blocks h \<and> bs' = bs \<and> taken h' bs' = taken h bs
        else served h bs ps sz m h' bs')"

lemma chain_ok_grab:
  assumes "chain_ok h pool bs ps" "p \<noteq> NULL \<longrightarrow> fresh (h_blocks h) p n"
  shows "chain_ok (grab h p n) pool bs ps"
  by (rule chain_ok_transfer [OF assms(1)])
    (use assms grab_blocks_ok [OF chain_ok_blocks [OF assms(1)], of p n] chain_okD [OF assms(1)]
      in \<open>fastforce simp: chain_ok_def split: if_splits\<close>)+

lemma taken_grab [simp]: "taken (grab h p n) bs = taken h bs"
  by (simp add: taken_def block_used_def)

lemma fresh_not_block:
  assumes "chain_ok h pool bs ps" "fresh (h_blocks h) p n"
  shows "p \<notin> set bs"
  using assms chain_ok_block [OF assms(1)] by (auto simp: fresh_def)

lemma fresh_region_not_taken:
  assumes "chain_ok h pool bs ps" "fresh (h_blocks h) p n"
  shows "region p n \<inter> taken h bs = {}"
proof -
  have "region p n \<inter> block_used h b = {}" if b: "b \<in> set bs" for b
  proof -
    have "apart p n b ps" using assms(2) chain_ok_block [OF assms(1) b] by (auto simp: fresh_def)
    moreover have "block_used h b \<subseteq> region b ps"
      using chain_okD [OF assms(1) b] by (auto simp: block_used_def region_def)
    ultimately show ?thesis using region_disjoint by blast
  qed
  then show ?thesis by (auto simp: taken_def)
qed

text \<open>Linking a fresh block that already carries its header behind the last block.\<close>

lemma link_block_chain_ok:
  assumes "chain_ok h pool (cs @ [a]) ps" "h_pds h a = Some d" "a \<noteq> new" "new \<notin> set cs" "new \<noteq> NULL"
    "(new, ps) \<in> set (h_blocks h)" "16 dvd unat new" "h_pds h new = Some e" "pd_next e = NULL"
    "pd_end e = new + ps" "unat new + 32 \<le> unat (pd_last e)" "unat (pd_last e) \<le> unat new + unat ps"
  shows "chain_ok (h\<lparr>h_pds := (h_pds h)(a \<mapsto> d\<lparr>pd_next := new\<rparr>)\<rparr>) pool (cs @ [a, new]) ps"
proof -
  let ?h = "h\<lparr>h_pds := (h_pds h)(a \<mapsto> d\<lparr>pd_next := new\<rparr>)\<rparr>"
  have ln: "linked (pd_next_at h) pool (cs @ [a])" using assms(1) by (simp add: chain_ok_def)
  have dist: "a \<notin> set cs" using linked_distinct [OF ln] by auto
  have "linked (pd_next_at ?h) pool (cs @ [a, new])"
    by (rule linked_snoc [OF ln]) (use dist assms in \<open>auto simp: pd_next_at_def\<close>)
  moreover have "pool \<noteq> new" using chain_ok_pool [OF assms(1)] assms(3,4) by (cases cs) auto
  moreover have "block_ok ?h pool ps b" if "b \<in> set (cs @ [a, new])" for b
    using that assms \<open>pool \<noteq> new\<close> by (auto simp: chain_ok_def block_ok_def header_def)
  ultimately show ?thesis using assms(1) by (auto simp: chain_ok_def)
qed

lemma chain_current_suffix:
  assumes "chain_ok h pool bs ps" "c \<in> set bs"
  shows "\<exists>qs. linked (pd_next_at h) c qs \<and> qs \<noteq> [] \<and> set qs \<subseteq> set bs \<and> last qs = last bs"
proof -
  obtain xs ys where bs: "bs = xs @ c # ys" using assms(2) by (meson split_list)
  then have "linked (pd_next_at h) c (c # ys)"
    using assms(1) linked_suffix [of "pd_next_at h" pool xs c ys] by (simp add: chain_ok_def)
  then show ?thesis using bs by (intro exI [of _ "c # ys"]) auto
qed

lemma chain_ok_size:
  assumes "chain_ok h pool bs ps"
  shows "\<exists>d. h_pds h pool = Some d \<and> pd_end d - pool = ps \<and> live h pool 80"
proof -
  have p: "pool \<in> set bs" using chain_ok_pool [OF assms] by auto
  have "live h pool 80"
    using chain_ok_block [OF assms p] assms by (intro liveI) (auto simp: chain_ok_def)
  then show ?thesis using chain_okD [OF assms p] by auto
qed

lemma align_header:
  assumes "16 dvd unat new" "unat new + unat ps < 2 ^ 63" "40 \<le> unat ps"
  shows "ngx_align_ptr (new + 32) NGX_ALIGMENT = new + 32" "unat (new + 32) = unat new + 32"
proof -
  show s: "unat (new + 32) = unat new + 32" using assms by (subst unat_plus_no_wrap) simp_all
  have "unat (ngx_align_ptr (new + 32) 8) = (unat new + 32 + 7) div 8 * 8"
    using assms s by (subst unat_align_8) simp_all
  also have "\<dots> = unat (new + 32)" unfolding s using assms(1) by presburger
  finally show "ngx_align_ptr (new + 32) NGX_ALIGMENT = new + 32"
    by (simp add: NGX_ALIGMENT_def word_unat_eq_iff)
qed

lemma palloc_block_correct:
  assumes "libc_ok env" "local_null env" "chain_ok h pool bs ps"
    "unat sz \<le> unat ps - 32"
  shows "\<exists>m h' bs'. ngx_palloc_block env h pool sz = Some (m, h') \<and> small_result h pool bs ps sz m h' bs'
    \<and> (m \<noteq> NULL \<longrightarrow> 8 dvd unat m)"
proof -
  obtain d0 where d0: "h_pds h pool = Some d0" "pd_end d0 - pool = ps"
    using chain_ok_size [OF assms(3)] by auto
  have ps: "80 \<le> unat ps" using assms(3) by (simp add: chain_ok_def)
  obtain new h1 where ma: "ngx_memalign env h NGX_POOL_ALIGNMENT ps = (new, h1)" by fastforce
  show ?thesis
    using assms(1) ma
  proof (cases rule: ngx_memalign_fresh)
    case failed
    then have "new = NULL" using assms(2) unfolding local_null_def by blast
    with failed have "ngx_palloc_block env h pool sz = Some (NULL, h1)"
      using d0 ma by (simp add: ngx_palloc_block_def)
    moreover have "chain_ok h1 pool bs ps" "taken h1 bs = taken h bs"
      using failed chain_ok_grab [OF assms(3), of NULL ps] by simp_all
    ultimately show ?thesis using failed by (auto simp: small_result_def)
  next
    case block
    have al: "16 dvd unat new" using block(4) by (simp add: NGX_POOL_ALIGNMENT_def)
    have room: "unat new + unat ps < 2 ^ 63" using block(3) by (simp add: fresh_def)
    have notin: "new \<notin> set bs" using fresh_not_block [OF assms(3) block(3)] .
    note hdr = align_header [OF al room]
    define m where "m = new + 32"
    have m: "unat m = unat new + 32" "ngx_align_ptr (new + 32) NGX_ALIGMENT = m"
      using hdr ps by (simp_all add: m_def)
    have sum: "unat (m + sz) = unat m + unat sz"
      using m room assms(4) ps by (intro unat_plus_no_wrap) simp
    define e where "e = \<lparr>pd_last = m + sz, pd_end = new + ps, pd_next = NULL, pd_failed = 0\<rparr>"
    define h2 where "h2 = h1\<lparr>h_pds := (h_pds h1)(new \<mapsto> e)\<rparr>"
    have ok1: "chain_ok h1 pool bs ps" using chain_ok_grab [OF assms(3)] block by simp
    have ok2: "chain_ok h2 pool bs ps"
      by (rule chain_ok_transfer [OF ok1])
        (use ok1 notin chain_okD [OF ok1] in \<open>fastforce simp: h2_def chain_ok_def\<close>)+
    obtain pm where pm: "h_pms h2 pool = Some pm" "pm_current pm \<in> set bs"
      using ok2 by (auto simp: chain_ok_def)
    obtain qs where qs: "linked (pd_next_at h2) (pm_current pm) qs" "qs \<noteq> []" "set qs \<subseteq> set bs"
      "last qs = last bs"
      using chain_current_suffix [OF ok2 pm(2)] by auto
    obtain h3 where h3: "palloc_block_scan pool h2 (pm_current pm) = Some (last bs, h3)"
      "recounted h2 h3" "chain_ok h3 pool bs ps"
      using palloc_block_scan_correct [OF ok2 qs(1-3)] qs(4) by auto
    define a where "a = last bs"
    obtain cs where bs: "bs = cs @ [a]" using ok1 by (auto simp: a_def chain_ok_def intro: that append_butlast_last_id [symmetric])
    obtain d where d: "h_pds h3 a = Some d" "live h3 a 32"
      using chain_okD [OF h3(3), of a] bs by auto
    obtain n where n: "h_pds h3 new = Some (e\<lparr>pd_failed := n\<rparr>)"
      using recounted_pd [OF h3(2), of new e] by (auto simp: h2_def)
    define h4 where "h4 = h3\<lparr>h_pds := (h_pds h3)(a \<mapsto> d\<lparr>pd_next := new\<rparr>)\<rparr>"
    have blk: "h_blocks h3 = (new, ps) # h_blocks h"
      using h3(2) block by (simp add: recounted_def h2_def)
    have ok4: "chain_ok h4 pool (cs @ [a, new]) ps"
      unfolding h4_def
      by (rule link_block_chain_ok [OF h3(3) [unfolded bs] d(1) _ _ block(2) _ al n])
        (use notin bs blk m sum assms(4) ps in \<open>auto simp: e_def\<close>)
    have put2: "put_pd h1 new e = Some h2"
      using block ps by (auto simp: put_pd_def h2_def sizeof_defs intro!: liveI)
    have put4: "put_pd h3 a (d\<lparr>pd_next := new\<rparr>) = Some h4"
      using d by (simp add: put_pd_def h4_def sizeof_defs)
    have run: "ngx_palloc_block env h pool sz = Some (m, h4)"
      using d0(1) block(2) put2 put4 h3(1) pm(1) d(1) m(2)
      by (simp add: ngx_palloc_block_def d0(2) ma sizeof_ngx_pool_data_t_def e_def [symmetric]
          a_def [symmetric])
    have fr: "pool_frame h h4"
      using h3(2) block by (auto simp: recounted_def pool_frame_def h2_def h4_def)
    have used_a: "block_used h4 b = block_used h3 b" for b
      using d(1) by (auto simp: block_used_def h4_def)
    have "taken h4 bs = taken h3 bs" by (simp add: taken_def used_a)
    also have "\<dots> = taken h2 bs" by (rule taken_recounted [OF h3(2)])
    also have "\<dots> = taken h bs"
    proof -
      have "block_used h2 b = block_used h b" if "b \<in> set bs" for b
      proof -
        have "b \<noteq> new" using that notin by auto
        then show ?thesis using block(1) by (simp add: block_used_def h2_def)
      qed
      then show ?thesis by (simp add: taken_def)
    qed
    finally have tk: "taken h4 (bs @ [new]) = taken h bs \<union> {unat new ..< unat m + unat sz}"
      using n sum by (auto simp: taken_def used_a) (auto simp: block_used_def e_def)
    have "region m sz \<subseteq> region new ps" using m assms(4) ps by (auto simp: region_def)
    then have dj: "region m sz \<inter> taken h bs = {}"
      using fresh_region_not_taken [OF assms(3) block(3)] by blast
    have m0: "m \<noteq> NULL" using m(1) by auto
    have "served h bs ps sz m h4 (bs @ [new])"
      using m0 m assms(4) ps dj tk block blk
      by (auto simp: served_def h4_def region_def)
    moreover have "8 dvd unat m" using m(1) al by presburger
    ultimately show ?thesis
      using run ok4 fr m0 bs
      by (intro exI [of _ m] exI [of _ h4] exI [of _ "bs @ [new]"]) (simp add: small_result_def)
  qed
qed

lemma palloc_small_correct:
  assumes "libc_ok env" "local_null env" "chain_ok h pool bs ps"
    "unat sz \<le> unat ps - 32"
  shows "\<exists>m h' bs'. ngx_palloc_small env h pool sz al = Some (m, h')
    \<and> small_result h pool bs ps sz m h' bs' \<and> (m \<noteq> NULL \<and> al \<longrightarrow> 8 dvd unat m)"
proof -
  obtain pm where pm: "h_pms h pool = Some pm" "pm_current pm \<in> set bs"
    using assms(3) by (auto simp: chain_ok_def)
  obtain qs where qs: "linked (pd_next_at h) (pm_current pm) qs" "qs \<noteq> []" "set qs \<subseteq> set bs"
    using chain_current_suffix [OF assms(3) pm(2)] by auto
  have scan: "palloc_small_scan h (pm_current pm) sz al =
    Some (case find (fits h ps sz al) qs of None \<Rightarrow> None
      | Some b \<Rightarrow> let m = place al (pd_last (the (h_pds h b))) in Some (m, bump h b (m + sz)))"
    by (rule palloc_small_scan_correct [where pool = pool])
      (use assms(3) qs in \<open>auto simp: chain_ok_def\<close>)
  show ?thesis
  proof (cases "find (fits h ps sz al) qs")
    case None
    then show ?thesis
      using palloc_block_correct [OF assms] pm scan by (auto simp: ngx_palloc_small_def)
  next
    case (Some b)
    then have b: "b \<in> set bs" "fits h ps sz al b"
      using qs(3) by (auto simp: find_Some_iff)
    define m where "m = place al (pd_last (the (h_pds h b)))"
    have s: "chain_ok (bump h b (m + sz)) pool bs ps" "served h bs ps sz m (bump h b (m + sz)) bs"
      "al \<Longrightarrow> 8 dvd unat m"
      using serve_bump [OF assms(3) b] by (simp_all add: m_def Let_def)
    then have "small_result h pool bs ps sz m (bump h b (m + sz)) bs"
      by (simp add: small_result_def served_def)
    then show ?thesis
      using s(3) scan pm Some
      by (intro exI [of _ m] exI [of _ "bump h b (m + sz)"] exI [of _ bs])
        (simp add: ngx_palloc_small_def m_def [symmetric] Let_def)
  qed
qed

subsection \<open>Wild calls\<close>

text \<open>
  The call of \<^verbatim>\<open>posix_memalign\<close> for a new block of the pool is wild: \<open>small_wild\<close> when no block has room for a
  small request, \<open>palloc_wild\<close> in \<open>ngx_palloc\<close> (\<open>al\<close>) or \<open>ngx_pnalloc\<close>, where a large request needs a block
  when its record finds no room; \<open>g\<close> is the heap in which the call is made. \<open>pmemalign_wild\<close> has a call of its own before.
\<close>

definition small_wild :: "libc \<Rightarrow> heap \<Rightarrow> addr \<Rightarrow> u64 \<Rightarrow> bool \<Rightarrow> bool" where
  "small_wild env h pool sz al \<longleftrightarrow> (\<exists>m d. h_pms h pool = Some m \<and> h_pds h pool = Some d
     \<and> palloc_small_scan h (pm_current m) sz al = Some None \<and> wild env h NGX_POOL_ALIGNMENT (pd_end d - pool))"

definition large_wild :: "libc \<Rightarrow> heap \<Rightarrow> addr \<Rightarrow> u64 \<Rightarrow> heap \<Rightarrow> bool" where
  "large_wild env h pool sz g \<longleftrightarrow> (\<exists>p m. ngx_alloc env h sz = (p, g) \<and> p \<noteq> NULL \<and> h_pms g pool = Some m
     \<and> palloc_large_scan g (pm_large m) (lc_uninit_n env (h_clock h)) p = Some None
     \<and> small_wild env g pool sizeof_ngx_pool_large_t True)"

definition palloc_wild :: "libc \<Rightarrow> heap \<Rightarrow> addr \<Rightarrow> u64 \<Rightarrow> bool \<Rightarrow> heap \<Rightarrow> bool" where
  "palloc_wild env h pool sz al g \<longleftrightarrow> (\<exists>m. h_pms h pool = Some m \<and>
     (if sz \<le> pm_max m then g = h \<and> small_wild env h pool sz al else large_wild env h pool sz g))"

definition pmemalign_wild :: "libc \<Rightarrow> heap \<Rightarrow> addr \<Rightarrow> u64 \<Rightarrow> u64 \<Rightarrow> bool" where
  "pmemalign_wild env h pool sz alignment \<longleftrightarrow> wild env h alignment sz \<or>
     (\<exists>p g. ngx_memalign env h alignment sz = (p, g) \<and> p \<noteq> NULL \<and> small_wild env g pool sizeof_ngx_pool_large_t True)"

text \<open>One of several requests after each other meets a wild call; the first that fails is the last.\<close>

fun pallocs_wild :: "libc \<Rightarrow> addr \<Rightarrow> heap \<Rightarrow> u64 list \<Rightarrow> bool" where
  "pallocs_wild env pool h [] = False"
| "pallocs_wild env pool h (n # ns) = ((\<exists>g. palloc_wild env h pool n True g)
     \<or> (\<exists>p h1. ngx_palloc env h pool n = Some (p, h1) \<and> p \<noteq> NULL \<and> pallocs_wild env pool h1 ns))"

lemma calm_palloc_block:
  assumes "h_pds h pool = Some d" "\<not> wild env h NGX_POOL_ALIGNMENT (pd_end d - pool)"
  shows "ngx_palloc_block env h pool sz = ngx_palloc_block (calm env) h pool sz"
  using assms by (simp add: ngx_palloc_block_def calm_memalign)

lemma calm_palloc_small:
  assumes "\<not> small_wild env h pool sz al"
  shows "ngx_palloc_small env h pool sz al = ngx_palloc_small (calm env) h pool sz al"
proof (cases "h_pds h pool")
  case None
  then have "ngx_palloc_block e h pool sz = None" for e by (simp add: ngx_palloc_block_def)
  then show ?thesis by (simp add: ngx_palloc_small_def cong: option.case_cong)
next
  case (Some d)
  then show ?thesis
    using assms calm_palloc_block [OF Some, of env sz]
    by (auto simp: ngx_palloc_small_def small_wild_def split: option.splits intro!: Option.bind_cong)
qed

lemma calm_large_link:
  assumes "\<not> small_wild env h pool sizeof_ngx_pool_large_t True"
  shows "palloc_large_link env h pool p = palloc_large_link (calm env) h pool p"
  using calm_palloc_small [OF assms] by (simp add: palloc_large_link_def)

lemma calm_palloc_large:
  assumes "\<forall>g. \<not> large_wild env h pool sz g"
  shows "ngx_palloc_large env h pool sz = ngx_palloc_large (calm env) h pool sz"
proof -
  obtain p g where a: "ngx_alloc env h sz = (p, g)" by fastforce
  show ?thesis
    using assms a calm_large_link [of env g pool p]
    by (auto simp: ngx_palloc_large_def large_wild_def split: option.splits intro!: Option.bind_cong)
qed

lemma calm_palloc:
  assumes "\<forall>g. \<not> palloc_wild env h pool sz True g"
  shows "ngx_palloc env h pool sz = ngx_palloc (calm env) h pool sz"
proof (cases "h_pms h pool")
  case (Some m)
  then have "if sz \<le> pm_max m then \<not> small_wild env h pool sz True else \<forall>g. \<not> large_wild env h pool sz g"
    using assms by (auto simp: palloc_wild_def)
  then show ?thesis
    using Some calm_palloc_small calm_palloc_large by (simp add: ngx_palloc_def split: if_splits)
qed (simp add: ngx_palloc_def)

lemma calm_pnalloc:
  assumes "\<forall>g. \<not> palloc_wild env h pool sz False g"
  shows "ngx_pnalloc env h pool sz = ngx_pnalloc (calm env) h pool sz"
proof (cases "h_pms h pool")
  case (Some m)
  then have "if sz \<le> pm_max m then \<not> small_wild env h pool sz False else \<forall>g. \<not> large_wild env h pool sz g"
    using assms by (auto simp: palloc_wild_def)
  then show ?thesis
    using Some calm_palloc_small calm_palloc_large by (simp add: ngx_pnalloc_def split: if_splits)
qed (simp add: ngx_pnalloc_def)

lemma calm_pcalloc:
  assumes "\<forall>g. \<not> palloc_wild env h pool sz True g"
  shows "ngx_pcalloc env h pool sz = ngx_pcalloc (calm env) h pool sz"
  using calm_palloc [OF assms] by (simp add: ngx_pcalloc_def)

lemma calm_pmemalign:
  assumes "\<not> pmemalign_wild env h pool sz alignment"
  shows "ngx_pmemalign env h pool sz alignment = ngx_pmemalign (calm env) h pool sz alignment"
proof -
  obtain p g where a: "ngx_memalign env h alignment sz = (p, g)" by fastforce
  then have b: "ngx_memalign (calm env) h alignment sz = (p, g)"
    using assms calm_memalign by (metis pmemalign_wild_def)
  show ?thesis
    using assms a b calm_large_link [of env g pool p] by (auto simp: ngx_pmemalign_def pmemalign_wild_def)
qed

text \<open>A wild call makes the request store through the local: undefined unless it points into live memory.\<close>

lemma wild_palloc_block:
  assumes "h_pds h pool = Some d" "wild env h NGX_POOL_ALIGNMENT (pd_end d - pool)"
    "\<not> live h (lc_local env (h_clock h)) sizeof_ngx_pool_data_t"
  shows "ngx_palloc_block env h pool sz = None"
  using assms by (simp add: ngx_palloc_block_def ngx_memalign_def wild_def put_pd_def live_def)

lemma wild_palloc_small:
  assumes "small_wild env h pool sz al" "\<not> live h (lc_local env (h_clock h)) sizeof_ngx_pool_data_t"
  shows "ngx_palloc_small env h pool sz al = None"
  using assms wild_palloc_block by (auto simp: small_wild_def ngx_palloc_small_def)

lemma wild_palloc:
  assumes "palloc_wild env h pool sz True g" "\<not> live g (lc_local env (h_clock g)) sizeof_ngx_pool_data_t"
  shows "ngx_palloc env h pool sz = None"
  using assms wild_palloc_small [of env g pool]
  by (auto simp: palloc_wild_def large_wild_def ngx_palloc_def ngx_palloc_large_def palloc_large_link_def split: if_splits)

lemma calm_max [simp]: "NGX_MAX_ALLOC_FROM_POOL (calm env) = NGX_MAX_ALLOC_FROM_POOL env"
  by (simp add: NGX_MAX_ALLOC_FROM_POOL_def)

lemma bump_never_wild [simp]:
  "\<not> small_wild bump_libc h pool n al" "\<not> large_wild bump_libc h pool n g"
  "\<not> palloc_wild bump_libc h pool n al g" "\<not> pmemalign_wild bump_libc h pool n a"
  by (simp_all add: small_wild_def large_wild_def palloc_wild_def pmemalign_wild_def)

lemma bump_pallocs_wild [simp]: "\<not> pallocs_wild bump_libc pool h ns"
  by (induction ns arbitrary: h) simp_all

end
