(* ===== verification/Ngx_Allocator.thy ===== *)
theory Ngx_Allocator
  imports Ngx_Alloc
begin

text \<open>
  What the containers rely on: a request always gets an answer, the memory of an answer other
  than \<open>NULL\<close> is disjoint from all memory in use, and it is in use from then on. Inside the
  locale it follows that the answers of any run of requests are pairwise disjoint.
\<close>

inductive run_requests :: "('s \<Rightarrow> 'r \<Rightarrow> addr \<Rightarrow> 's \<Rightarrow> bool) \<Rightarrow> 's \<Rightarrow> ('r \<times> addr) list \<Rightarrow> 's \<Rightarrow> bool"
  for alloc where
  run_none: "run_requests alloc s [] s"
| run_one: "alloc s r p s1 \<Longrightarrow> run_requests alloc s1 rs s2 \<Longrightarrow> run_requests alloc s ((r, p) # rs) s2"

inductive_cases run_requests_NilE [elim!]: "run_requests alloc s [] s'"
inductive_cases run_requests_ConsE: "run_requests alloc s ((r, p) # rs) s'"

definition separate :: "('r \<Rightarrow> u64) \<Rightarrow> 'r \<times> addr \<Rightarrow> 'r \<times> addr \<Rightarrow> bool" where
  "separate sz a b \<longleftrightarrow> snd a = NULL \<or> snd b = NULL
     \<or> region (snd a) (sz (fst a)) \<inter> region (snd b) (sz (fst b)) = {}"

locale allocator =
  fixes inv :: "'s \<Rightarrow> bool"
    and busy :: "'s \<Rightarrow> nat set"
    and sz :: "'r \<Rightarrow> u64"
    and alloc :: "'s \<Rightarrow> 'r \<Rightarrow> addr \<Rightarrow> 's \<Rightarrow> bool"
  assumes answers: "inv s \<Longrightarrow> \<exists>p s'. alloc s r p s'"
    and keeps: "inv s \<Longrightarrow> alloc s r p s' \<Longrightarrow> inv s'"
    and grows: "inv s \<Longrightarrow> alloc s r p s' \<Longrightarrow> busy s \<subseteq> busy s'"
    and new: "inv s \<Longrightarrow> alloc s r p s' \<Longrightarrow> p \<noteq> NULL \<Longrightarrow> region p (sz r) \<inter> busy s = {}"
    and owned: "inv s \<Longrightarrow> alloc s r p s' \<Longrightarrow> p \<noteq> NULL \<Longrightarrow> region p (sz r) \<subseteq> busy s'"
begin

lemma run_busy:
  "run_requests alloc s rs s' \<Longrightarrow> inv s \<Longrightarrow> inv s' \<and> busy s \<subseteq> busy s'
     \<and> (\<forall>(r, p) \<in> set rs. p \<noteq> NULL \<longrightarrow> region p (sz r) \<inter> busy s = {} \<and> region p (sz r) \<subseteq> busy s')"
proof (induction rule: run_requests.induct)
  case (run_one s r p s1 rs s2)
  note k = keeps [OF run_one.prems run_one.hyps(1)] grows [OF run_one.prems run_one.hyps(1)]
  from run_one.IH [OF k(1)] k(2) new [OF run_one.prems run_one.hyps(1)] owned [OF run_one.prems run_one.hyps(1)]
  show ?case by (auto; blast)
qed simp

lemma run_answers: "inv s \<Longrightarrow> \<exists>ps s'. length ps = length rs \<and> run_requests alloc s (zip rs ps) s'"
proof (induction rs arbitrary: s)
  case Nil
  then show ?case by (auto intro: run_none)
next
  case (Cons r rs)
  obtain p s1 where a: "alloc s r p s1" using answers [OF Cons.prems] by blast
  then obtain ps s' where "length ps = length rs" "run_requests alloc s1 (zip rs ps) s'"
    using Cons.IH [OF keeps [OF Cons.prems a]] by blast
  with a show ?case by (intro exI [of _ "p # ps"] exI [of _ s']) (auto intro: run_one)
qed

lemma run_disjoint: "run_requests alloc s rs s' \<Longrightarrow> inv s \<Longrightarrow> sorted_wrt (separate sz) rs"
proof (induction rule: run_requests.induct)
  case (run_one s r p s1 rs s2)
  note k = keeps [OF run_one.prems run_one.hyps(1)] owned [OF run_one.prems run_one.hyps(1)]
  have "separate sz (r, p) b" if "b \<in> set rs" for b
  proof (cases "p = NULL \<or> snd b = NULL")
    case True
    then show ?thesis by (auto simp: separate_def)
  next
    case False
    have "region (snd b) (sz (fst b)) \<inter> busy s1 = {}"
      using run_busy [OF run_one.hyps(2) k(1)] that False by (cases b) auto
    moreover have "region p (sz r) \<subseteq> busy s1" using k(2) False by simp
    ultimately show ?thesis by (auto simp: separate_def)
  qed
  then show ?case using run_one.IH [OF k(1)] by simp
qed simp

end

subsection \<open>The contract of an append-only container\<close>

fun run_pushes :: "('s \<Rightarrow> (addr \<times> 's) option) \<Rightarrow> nat \<Rightarrow> 's \<Rightarrow> (addr list \<times> 's) option" where
  "run_pushes push 0 s = Some ([], s)"
| "run_pushes push (Suc k) s = do {
     (p, s) \<leftarrow> push s;
     (ps, s) \<leftarrow> run_pushes push k s;
     Some (p # ps, s) }"

locale appender =
  fixes rep :: "'s \<Rightarrow> addr list \<Rightarrow> bool"
    and push :: "'s \<Rightarrow> (addr \<times> 's) option"
  assumes push_appends: "rep s xs \<Longrightarrow>
    \<exists>p s'. push s = Some (p, s') \<and> rep s' (xs @ (if p = NULL then [] else [p]))"
begin

lemma pushes_append:
  "rep s xs \<Longrightarrow> \<exists>ps s'. run_pushes push k s = Some (ps, s') \<and> length ps = k
     \<and> rep s' (xs @ filter (\<lambda>p. p \<noteq> NULL) ps)"
proof (induction k arbitrary: s xs)
  case (Suc k)
  obtain p s1 where p: "push s = Some (p, s1)" "rep s1 (xs @ (if p = NULL then [] else [p]))"
    using push_appends [OF Suc.prems] by blast
  from Suc.IH [OF p(2)] obtain ps s2 where "run_pushes push k s1 = Some (ps, s2)" "length ps = k"
    "rep s2 ((xs @ (if p = NULL then [] else [p])) @ filter (\<lambda>p. p \<noteq> NULL) ps)" by blast
  then show ?case using p(1) by (intro exI [of _ "p # ps"] exI [of _ s2]) (simp split: if_splits)
qed simp

end

end
