(* ===== verification/Ngx_Pool.thy ===== *)
theory Ngx_Pool
  imports Ngx_Palloc Ngx_Allocator
begin

text \<open>
  The pool as a whole: its chain of blocks together with its chain of large allocations. What
  every allocation promises its callers (the memory is new, whole, and nothing that was there
  before changes), the locale that states this contract, and the properties of the operations
  of \<^verbatim>\<open>src/core/ngx_palloc.c\<close>.
\<close>

subsection \<open>The invariant of the whole pool\<close>

definition pl_next_at :: "heap \<Rightarrow> addr \<Rightarrow> addr option" where
  "pl_next_at h l = map_option pl_next (h_larges h l)"

lemma pl_next_at_Some [simp]: "h_larges h l = Some r \<Longrightarrow> pl_next_at h l = Some (pl_next r)"
  by (simp add: pl_next_at_def)

definition alloc_of :: "heap \<Rightarrow> addr \<Rightarrow> addr" where
  "alloc_of h l = (case h_larges h l of None \<Rightarrow> NULL | Some r \<Rightarrow> pl_alloc r)"

definition large_allocs :: "heap \<Rightarrow> addr list \<Rightarrow> addr list" where
  "large_allocs h ls = filter (\<lambda>p. p \<noteq> NULL) (map (alloc_of h) ls)"

text \<open>A structure of \<open>n\<close> bytes that was cut from a block of the chain.\<close>

definition cut_from :: "heap \<Rightarrow> addr list \<Rightarrow> u64 \<Rightarrow> addr \<Rightarrow> u64 \<Rightarrow> bool" where
  "cut_from h bs ps p n \<longleftrightarrow> region p n \<subseteq> taken h bs
     \<and> (\<exists>b \<in> set bs. unat b + 32 \<le> unat p \<and> unat p + unat n \<le> unat b + unat ps)"

definition larges_ok :: "heap \<Rightarrow> addr \<Rightarrow> addr list \<Rightarrow> addr list \<Rightarrow> u64 \<Rightarrow> bool" where
  "larges_ok h pool bs ls ps \<longleftrightarrow>
     (\<exists>m. h_pms h pool = Some m \<and> linked (pl_next_at h) (pm_large m) ls)
     \<and> (\<forall>l \<in> set ls. cut_from h bs ps l 16) \<and> distinct (large_allocs h ls)
     \<and> set (large_allocs h ls) \<subseteq> fst ` set (h_blocks h) - set bs"

definition pool_ok :: "heap \<Rightarrow> addr \<Rightarrow> addr list \<Rightarrow> addr list \<Rightarrow> u64 \<Rightarrow> bool" where
  "pool_ok h pool bs ls ps \<longleftrightarrow> chain_ok h pool bs ps \<and> larges_ok h pool bs ls ps"

text \<open>The bytes that belong to earlier requests, the headers included.\<close>

definition used :: "heap \<Rightarrow> addr list \<Rightarrow> addr list \<Rightarrow> nat set" where
  "used h bs ls = taken h bs
     \<union> (\<Union>(a, s) \<in> {b \<in> set (h_blocks h). fst b \<in> set (large_allocs h ls)}. region a s)"

lemma used_iff: "x \<in> used h bs ls \<longleftrightarrow> x \<in> taken h bs
    \<or> (\<exists>a s. (a, s) \<in> set (h_blocks h) \<and> a \<in> set (large_allocs h ls) \<and> x \<in> region a s)"
  by (auto simp: used_def)

lemma region_start: "0 < unat n \<Longrightarrow> unat p \<in> region p n"
  by (simp add: region_def)

lemma cut_from_live:
  assumes "chain_ok h pool bs ps" "cut_from h bs ps p n"
  shows "live h p n"
  using assms chain_ok_block [OF assms(1)] by (fastforce simp: cut_from_def intro: liveI)

lemma cut_from_mono:
  "cut_from h bs ps p n \<Longrightarrow> taken h bs \<subseteq> taken h' bs' \<Longrightarrow> set bs \<subseteq> set bs' \<Longrightarrow> cut_from h' bs' ps p n"
  by (auto simp: cut_from_def)

lemma small_result_mono:
  assumes "small_result h pool bs ps sz m h' bs'"
  shows "set bs \<subseteq> set bs'" "taken h bs \<subseteq> taken h' bs'" "set (h_blocks h) \<subseteq> set (h_blocks h')"
    "chain_ok h' pool bs' ps" "pool_frame h h'"
    "m = NULL \<Longrightarrow> h_blocks h' = h_blocks h \<and> bs' = bs \<and> taken h' bs' = taken h bs"
    "m \<noteq> NULL \<Longrightarrow> served h bs ps sz m h' bs'"
  using assms by (auto simp: small_result_def served_def split: if_splits)

text \<open>A new block of the chain is none of the live blocks, so none of the large ones.\<close>

lemma small_result_blocks:
  assumes "small_result h pool bs ps sz m h' bs'" "a \<in> fst ` set (h_blocks h) - set bs"
  shows "a \<in> fst ` set (h_blocks h') - set bs'"
  using assms by (auto simp: small_result_def served_def fresh_def split: if_splits)

lemma small_result_pool_ok:
  assumes "pool_ok h pool bs ls ps" "small_result h pool bs ps sz m h' bs'"
  shows "pool_ok h' pool bs' ls ps" "large_allocs h' ls = large_allocs h ls"
proof -
  note s = small_result_mono [OF assms(2)]
  have lg: "h_larges h' = h_larges h" using s(5) by (simp add: pool_frame_def)
  show al: "large_allocs h' ls = large_allocs h ls"
    by (simp add: large_allocs_def alloc_of_def [abs_def] lg)
  obtain pm where pm: "h_pms h pool = Some pm" "linked (pl_next_at h) (pm_large pm) ls"
    using assms(1) by (auto simp: pool_ok_def larges_ok_def)
  then obtain c where "h_pms h' pool = Some (pm\<lparr>pm_current := c\<rparr>)"
    using pool_frame_pm [OF s(5)] by auto
  moreover have "pl_next_at h' = pl_next_at h" by (simp add: pl_next_at_def [abs_def] lg)
  ultimately have head: "\<exists>m. h_pms h' pool = Some m \<and> linked (pl_next_at h') (pm_large m) ls"
    using pm(2) by auto
  have old: "\<forall>l \<in> set ls. cut_from h bs ps l 16" "distinct (large_allocs h ls)"
    "set (large_allocs h ls) \<subseteq> fst ` set (h_blocks h) - set bs"
    using assms(1) by (simp_all add: pool_ok_def larges_ok_def)
  have "\<forall>l \<in> set ls. cut_from h' bs' ps l 16" using old(1) cut_from_mono [OF _ s(2,1)] by blast
  moreover have "set (large_allocs h ls) \<subseteq> fst ` set (h_blocks h') - set bs'"
    using old(3) small_result_blocks [OF assms(2)] by blast
  ultimately have "larges_ok h' pool bs' ls ps" using head old(2) al by (simp add: larges_ok_def)
  with s(4) show "pool_ok h' pool bs' ls ps" by (simp add: pool_ok_def)
qed

subsection \<open>What an allocation promises its callers\<close>

text \<open>
  \<open>client_frame\<close>: bytes and the records that live in memory allocated before stay as they are;
  of a pool's own record only the current block and the chain of large allocations change.
\<close>

definition client_frame :: "heap \<Rightarrow> heap \<Rightarrow> bool" where
  "client_frame h h' \<longleftrightarrow> h_mem h' = h_mem h \<and> h_calls h' = h_calls h
     \<and> (\<forall>a. live h a 1 \<longrightarrow> h_arrays h' a = h_arrays h a \<and> h_lists h' a = h_lists h a
          \<and> h_parts h' a = h_parts h a \<and> h_cleanups h' a = h_cleanups h a
          \<and> map_option (\<lambda>m. m\<lparr>pm_current := NULL, pm_large := NULL\<rparr>) (h_pms h' a)
            = map_option (\<lambda>m. m\<lparr>pm_current := NULL, pm_large := NULL\<rparr>) (h_pms h a))
     \<and> (\<forall>a n. live h a n \<longrightarrow> live h' a n)"

definition alloc_result ::
  "heap \<Rightarrow> addr list \<Rightarrow> addr list \<Rightarrow> u64 \<Rightarrow> addr \<Rightarrow> heap \<Rightarrow> addr list \<Rightarrow> addr list \<Rightarrow> bool" where
  "alloc_result h bs ls sz p h' bs' ls' \<longleftrightarrow> client_frame h h'
     \<and> (if p = NULL then used h' bs' ls' = used h bs ls
        else region p sz \<inter> used h bs ls = {} \<and> used h bs ls \<union> region p sz \<subseteq> used h' bs' ls'
          \<and> live h' p sz
          \<and> (\<forall>(a, s) \<in> set (h_blocks h). a \<notin> set bs \<longrightarrow> region p sz \<inter> region a s = {}))"

lemma client_frame_refl [simp]: "client_frame h h"
  by (simp add: client_frame_def)

lemma live_mono: "live h p n \<Longrightarrow> set (h_blocks h) \<subseteq> set (h_blocks h') \<Longrightarrow> live h' p n"
  by (fastforce simp: live_def)

lemma live_1: "live h p n \<Longrightarrow> 0 < unat n \<Longrightarrow> live h p 1"
  unfolding live_def by (rule bexE, assumption) (rule bexI, auto)

lemma client_frame_trans: "client_frame h1 h2 \<Longrightarrow> client_frame h2 h3 \<Longrightarrow> client_frame h1 h3"
  unfolding client_frame_def by (intro conjI allI impI) (auto simp: word_less_nat_alt)

lemma pool_frame_client:
  assumes "pool_frame h h'" "set (h_blocks h) \<subseteq> set (h_blocks h')"
  shows "client_frame h h'"
proof -
  have "map_option (\<lambda>m. m\<lparr>pm_current := NULL, pm_large := NULL\<rparr>) (h_pms h' a)
      = map_option (\<lambda>m. m\<lparr>pm_current := NULL, pm_large := NULL\<rparr>) (h_pms h a)" for a
  proof -
    have "map_option (\<lambda>m. m\<lparr>pm_current := NULL\<rparr>) (h_pms h' a)
        = map_option (\<lambda>m. m\<lparr>pm_current := NULL\<rparr>) (h_pms h a)"
      using assms(1) by (simp add: pool_frame_def)
    then have "map_option (\<lambda>m. m\<lparr>pm_large := NULL\<rparr>) (map_option (\<lambda>m. m\<lparr>pm_current := NULL\<rparr>) (h_pms h' a))
        = map_option (\<lambda>m. m\<lparr>pm_large := NULL\<rparr>) (map_option (\<lambda>m. m\<lparr>pm_current := NULL\<rparr>) (h_pms h a))"
      by simp
    then show ?thesis by (simp add: option.map_comp o_def)
  qed
  then show ?thesis
    using assms by (auto simp: client_frame_def pool_frame_def intro: live_mono)
qed

lemma served_apart:
  assumes "chain_ok h pool bs ps" "served h bs ps sz m h' bs'" "(a, s) \<in> set (h_blocks h)" "a \<notin> set bs"
  shows "region m sz \<inter> region a s = {}"
proof -
  obtain b where b: "b \<in> set bs'" "region m sz \<subseteq> region b ps"
    using assms(2) by (auto simp: served_def region_def)
  have "apart b ps a s"
  proof (cases "b \<in> set bs")
    case True
    then show ?thesis
      using assms(3,4) blocks_okD(4) [OF chain_ok_blocks [OF assms(1)] chain_ok_block [OF assms(1) True]]
      by auto
  next
    case False
    then show ?thesis using assms(2,3) b(1) by (auto simp: served_def fresh_def)
  qed
  then show ?thesis using b(2) region_disjoint by blast
qed

lemma small_result_alloc:
  assumes "pool_ok h pool bs ls ps" "small_result h pool bs ps sz m h' bs'"
  shows "alloc_result h bs ls sz m h' bs' ls"
proof -
  note s = small_result_mono [OF assms(2)]
  have ch: "chain_ok h pool bs ps" using assms(1) by (simp add: pool_ok_def)
  have la: "large_allocs h' ls = large_allocs h ls" by (rule small_result_pool_ok [OF assms])
  have las: "set (large_allocs h ls) \<subseteq> fst ` set (h_blocks h) - set bs"
    using assms(1) by (simp add: pool_ok_def larges_ok_def)
  have fr: "client_frame h h'" using pool_frame_client [OF s(5,3)] .
  show ?thesis
  proof (cases "m = NULL")
    case True
    then show ?thesis using s(6) [OF True] fr la by (auto simp: alloc_result_def used_def)
  next
    case False
    note sv = s(7) [OF False]
    have blks: "{b \<in> set (h_blocks h'). fst b \<in> set (large_allocs h ls)}
        = {b \<in> set (h_blocks h). fst b \<in> set (large_allocs h ls)}"
      using sv las by (fastforce simp: served_def fresh_def)
    have foreign: "\<forall>(a, s) \<in> set (h_blocks h). a \<notin> set bs \<longrightarrow> region m sz \<inter> region a s = {}"
      using served_apart [OF ch sv] by blast
    have "region m sz \<inter> region a s = {}"
      if "(a, s) \<in> set (h_blocks h)" "a \<in> set (large_allocs h ls)" for a s
      using foreign las that by blast
    then have "x \<notin> region a s"
      if "x \<in> region m sz" "(a, s) \<in> set (h_blocks h)" "a \<in> set (large_allocs h ls)" for x a s
      using that by blast
    moreover have "region m sz \<inter> taken h bs = {}" using sv by (simp add: served_def)
    ultimately have "region m sz \<inter> used h bs ls = {}" by (auto simp: used_iff)
    moreover have "used h bs ls \<union> region m sz \<subseteq> used h' bs' ls"
      using sv unfolding used_def la blks by (auto simp: served_def)
    moreover have "live h' m sz"
      using sv chain_ok_block [OF s(4)] by (fastforce simp: served_def intro: liveI)
    ultimately show ?thesis using False fr foreign by (simp add: alloc_result_def)
  qed
qed

subsection \<open>Large allocations\<close>

definition set_large :: "heap \<Rightarrow> addr \<Rightarrow> ngx_pool_large_t \<Rightarrow> heap" where
  "set_large h l r = h\<lparr>h_larges := (h_larges h)(l \<mapsto> r)\<rparr>"

lemma set_large_simps [simp]:
  "h_blocks (set_large h l r) = h_blocks h" "h_mem (set_large h l r) = h_mem h"
  "h_pds (set_large h l r) = h_pds h" "h_pms (set_large h l r) = h_pms h"
  "h_larges (set_large h l r) = (h_larges h)(l \<mapsto> r)" "h_cleanups (set_large h l r) = h_cleanups h"
  "h_arrays (set_large h l r) = h_arrays h" "h_lists (set_large h l r) = h_lists h"
  "h_parts (set_large h l r) = h_parts h" "h_calls (set_large h l r) = h_calls h"
  "h_clock (set_large h l r) = h_clock h" "taken (set_large h l r) bs = taken h bs"
  "chain_ok (set_large h l r) pool bs ps = chain_ok h pool bs ps"
  by (simp_all add: set_large_def taken_def block_used_def chain_ok_def block_ok_def pd_next_at_def [abs_def])

lemma alloc_of_set_large [simp]:
  "alloc_of (set_large h l r) a = (if a = l then pl_alloc r else alloc_of h a)"
  by (simp add: alloc_of_def)

lemma large_allocs_frame: "l \<notin> set ls \<Longrightarrow> large_allocs (set_large h l r) ls = large_allocs h ls"
  unfolding large_allocs_def by (induction ls) auto

lemma large_allocs_append: "large_allocs h (xs @ ys) = large_allocs h xs @ large_allocs h ys"
  by (simp add: large_allocs_def)

lemma large_allocs_Cons: "large_allocs h (l # ls) =
    (if alloc_of h l = NULL then [] else [alloc_of h l]) @ large_allocs h ls"
  by (simp add: large_allocs_def)

lemma large_allocs_set_large:
  "distinct (xs @ l # ys) \<Longrightarrow> large_allocs (set_large h l r) (xs @ l # ys) =
    large_allocs h xs @ (if pl_alloc r = NULL then [] else [pl_alloc r]) @ large_allocs h ys"
  by (simp add: large_allocs_append large_allocs_Cons large_allocs_frame)

lemma pool_okD:
  assumes "pool_ok h pool bs ls ps"
  shows "chain_ok h pool bs ps" "blocks_ok (h_blocks h)" "distinct ls" "NULL \<notin> set ls"
    "\<forall>l \<in> set ls. cut_from h bs ps l 16" "distinct (large_allocs h ls)"
    "set (large_allocs h ls) \<subseteq> fst ` set (h_blocks h) - set bs"
    "\<exists>m. h_pms h pool = Some m \<and> linked (pl_next_at h) (pm_large m) ls"
  using assms by (auto simp: pool_ok_def larges_ok_def chain_ok_def dest: linked_distinct linked_not_NULL)

lemma linked_Some: "linked nx p xs \<Longrightarrow> a \<in> set xs \<Longrightarrow> \<exists>q. nx a = Some q"
  by (induction xs arbitrary: p) auto

lemma larges_present:
  assumes "pool_ok h pool bs ls ps" "l \<in> set ls"
  shows "\<exists>r. h_larges h l = Some r \<and> alloc_of h l = pl_alloc r"
proof -
  obtain q where "pl_next_at h l = Some q" using pool_okD(8) [OF assms(1)] assms(2) linked_Some by blast
  then show ?thesis by (auto simp: pl_next_at_def alloc_of_def)
qed

text \<open>A record of the chain gets or loses its memory.\<close>

lemma set_alloc_pool_ok:
  assumes "pool_ok h pool bs ls ps" "ls = xs @ l # ys" "h_larges h l = Some r"
    "p = NULL \<or> p \<in> fst ` set (h_blocks h) - set bs - set (large_allocs h xs @ large_allocs h ys)"
  shows "pool_ok (set_large h l (r\<lparr>pl_alloc := p\<rparr>)) pool bs ls ps"
proof -
  let ?h = "set_large h l (r\<lparr>pl_alloc := p\<rparr>)"
  note ok = pool_okD [OF assms(1)]
  have la: "large_allocs ?h ls = large_allocs h xs @ (if p = NULL then [] else [p]) @ large_allocs h ys"
    using ok(3) by (simp add: assms(2) large_allocs_set_large)
  have la0: "large_allocs h ls = large_allocs h xs @ (if pl_alloc r = NULL then [] else [pl_alloc r]) @ large_allocs h ys"
    using assms(3) by (simp add: assms(2) large_allocs_append large_allocs_Cons alloc_of_def)
  have "pl_next_at ?h = pl_next_at h" using assms(3) by (auto simp: pl_next_at_def)
  then have "\<exists>m. h_pms ?h pool = Some m \<and> linked (pl_next_at ?h) (pm_large m) ls" using ok(8) by simp
  moreover have "distinct (large_allocs ?h ls)" using ok(6) assms(4) unfolding la la0 by auto
  moreover have "set (large_allocs ?h ls) \<subseteq> fst ` set (h_blocks h) - set bs"
    using ok(7) assms(4) unfolding la la0 by auto
  ultimately show ?thesis using ok(1,5) by (simp add: pool_ok_def larges_ok_def cut_from_def)
qed

lemma palloc_large_scan_correct:
  assumes "pool_ok h pool bs ls ps" "linked (pl_next_at h) q qs" "set qs \<subseteq> set ls"
  shows "\<exists>r. palloc_large_scan h q n p = Some r \<and> (r = None \<or>
    (\<exists>l k. r = Some (set_large h l (k\<lparr>pl_alloc := p\<rparr>)) \<and> l \<in> set ls \<and> h_larges h l = Some k
       \<and> pl_alloc k = NULL))"
  using assms(2,3)
proof (induction qs arbitrary: q n)
  case Nil
  then show ?case by (subst palloc_large_scan.simps) simp
next
  case (Cons l qs)
  then have q: "q = l" "l \<noteq> NULL" "l \<in> set ls" by auto
  obtain k where k: "h_larges h l = Some k" using larges_present [OF assms(1) q(3)] by auto
  have "live h l 16"
    using pool_okD(1,5) [OF assms(1)] q(3) cut_from_live by blast
  then have put: "put_large h l x = Some (set_large h l x)" for x
    by (simp add: put_large_def sizeof_defs set_large_def)
  have "linked (pl_next_at h) (pl_next k) qs" using Cons.prems k by auto
  then obtain r where r: "palloc_large_scan h (pl_next k) (n + 1) p = Some r" "r = None \<or>
    (\<exists>l k. r = Some (set_large h l (k\<lparr>pl_alloc := p\<rparr>)) \<and> l \<in> set ls \<and> h_larges h l = Some k
       \<and> pl_alloc k = NULL)"
    using Cons.IH [of "pl_next k" "n + 1"] Cons.prems(2) by auto
  show ?case
    using r k q by (subst palloc_large_scan.simps) (auto simp: put)
qed

lemma pool_ok_grab:
  assumes "pool_ok h pool bs ls ps" "p \<noteq> NULL \<longrightarrow> fresh (h_blocks h) p n"
  shows "pool_ok (grab h p n) pool bs ls ps" "large_allocs (grab h p n) ls = large_allocs h ls"
    "used (grab h p n) bs ls = used h bs ls"
proof -
  note ok = pool_okD [OF assms(1)]
  show la: "large_allocs (grab h p n) ls = large_allocs h ls"
    by (simp add: large_allocs_def alloc_of_def [abs_def])
  have "pl_next_at (grab h p n) = pl_next_at h" by (simp add: pl_next_at_def [abs_def])
  then show "pool_ok (grab h p n) pool bs ls ps"
    using ok chain_ok_grab [OF ok(1) assms(2)] la
    by (auto simp: pool_ok_def larges_ok_def cut_from_def)
  have "p \<notin> fst ` set (h_blocks h)" if "p \<noteq> NULL" using assms(2) that by (auto simp: fresh_def)
  then have "p \<notin> set (large_allocs h ls)" if "p \<noteq> NULL" using ok(7) that by blast
  then have "{b \<in> set (h_blocks (grab h p n)). fst b \<in> set (large_allocs h ls)}
      = {b \<in> set (h_blocks h). fst b \<in> set (large_allocs h ls)}" by auto
  then show "used (grab h p n) bs ls = used h bs ls" by (simp add: used_def la)
qed


text \<open>Giving back a block that the pool does not use.\<close>

lemma release_pool_ok:
  assumes "pool_ok h pool bs ls ps" "(p, n) \<in> set (h_blocks h)" "p \<notin> set bs"
    "p \<notin> set (large_allocs h ls)"
  shows "pool_ok (released h p n) pool bs ls ps" "large_allocs (released h p n) ls = large_allocs h ls"
    "used (released h p n) bs ls = used h bs ls" "taken (released h p n) bs = taken h bs"
    "\<forall>b \<in> set bs. \<forall>a. unat a \<in> region b ps \<longrightarrow> outside p n m a = m a"
proof -
  let ?h = "released h p n"
  note ok = pool_okD [OF assms(1)]
  have out: "outside p n f a = f a" if "b \<in> set bs" "unat a \<in> region b ps"
    for f :: "addr \<Rightarrow> 'x option" and a b
    using outside_block [OF ok(2) assms(2) chain_ok_block [OF ok(1) that(1)]] that assms(3) by auto
  then show "\<forall>b \<in> set bs. \<forall>a. unat a \<in> region b ps \<longrightarrow> outside p n m a = m a" by blast
  have ps: "80 \<le> unat ps" using ok(1) by (simp add: chain_ok_def)
  have bs: "outside p n f b = f b" if "b \<in> set bs" for f :: "addr \<Rightarrow> 'x option" and b
    using out [OF that, of b f] ps by (simp add: region_def)
  have pool: "pool \<in> set bs" using chain_ok_pool [OF ok(1)] by auto
  have ls: "outside p n f l = f l" if l: "l \<in> set ls" for f :: "addr \<Rightarrow> 'x option" and l
  proof -
    obtain b where "b \<in> set bs" "unat l \<in> region b ps"
      using ok(5) l by (fastforce simp: cut_from_def region_def)
    then show ?thesis by (rule out)
  qed
  show tk: "taken ?h bs = taken h bs"
    by (auto simp: taken_def block_used_def bs)
  have al: "\<forall>l \<in> set ls. alloc_of ?h l = alloc_of h l" by (simp add: alloc_of_def ls)
  show la: "large_allocs ?h ls = large_allocs h ls"
    unfolding large_allocs_def using al by (simp cong: map_cong)
  have blk: "a \<in> fst ` set (h_blocks ?h)" if "a \<in> fst ` set (h_blocks h)" "a \<noteq> p" for a
    using that by auto
  have "chain_ok ?h pool bs ps"
  proof -
    have "linked (pd_next_at ?h) pool bs"
      by (rule linked_frame [of "pd_next_at h"]) (use ok(1) in \<open>auto simp: chain_ok_def pd_next_at_def bs\<close>)
    moreover have "block_ok ?h pool ps b" if "b \<in> set bs" for b
      using ok(1) that assms(3) by (auto simp: chain_ok_def block_ok_def bs)
    ultimately show ?thesis
      using ok(1) released_blocks_ok [OF ok(2)] by (auto simp: chain_ok_def bs [OF pool])
  qed
  moreover have "linked (pl_next_at ?h) q ls" if "linked (pl_next_at h) q ls" for q
    by (rule linked_frame [OF that]) (simp add: pl_next_at_def ls)
  moreover have "set (large_allocs h ls) \<subseteq> fst ` set (h_blocks ?h) - set bs"
    using ok(7) assms(4) blk by blast
  ultimately show "pool_ok ?h pool bs ls ps"
    using ok tk la by (auto simp: pool_ok_def larges_ok_def cut_from_def bs [OF pool])
  have "{b \<in> set (h_blocks ?h). fst b \<in> set (large_allocs h ls)}
      = {b \<in> set (h_blocks h). fst b \<in> set (large_allocs h ls)}" using assms(4) by auto
  then show "used ?h bs ls = used h bs ls" by (simp add: used_def la tk)
qed

text \<open>The memory of the requests so far, after a record was given the block \<open>p\<close>.\<close>

lemma used_set_alloc:
  assumes "set (large_allocs h' ls') = insert p (set (large_allocs h ls))" "(p, n) \<in> set (h_blocks h')"
    "taken h bs \<subseteq> taken h' bs'" "set (h_blocks h) \<subseteq> set (h_blocks h')"
  shows "used h bs ls \<union> region p n \<subseteq> used h' bs' ls'"
proof
  fix x assume "x \<in> used h bs ls \<union> region p n"
  then consider "x \<in> taken h bs" | "x \<in> region p n"
    | a s where "(a, s) \<in> set (h_blocks h)" "a \<in> set (large_allocs h ls)" "x \<in> region a s"
    by (auto simp: used_iff)
  then show "x \<in> used h' bs' ls'"
  proof cases
    case 3
    then have "(a, s) \<in> set (h_blocks h')" "a \<in> set (large_allocs h' ls')" using assms(1,4) by auto
    with 3 show ?thesis by (auto simp: used_iff)
  qed (use assms in \<open>auto simp: used_iff\<close>)
qed

lemma fresh_region_not_used:
  assumes "pool_ok h pool bs ls ps" "fresh (h_blocks h) p n"
  shows "region p n \<inter> used h bs ls = {}" "\<forall>(a, s) \<in> set (h_blocks h). region p n \<inter> region a s = {}"
proof -
  show f: "\<forall>(a, s) \<in> set (h_blocks h). region p n \<inter> region a s = {}"
    using assms(2) region_disjoint by (fastforce simp: fresh_def)
  then have "x \<notin> region a s" if "(a, s) \<in> set (h_blocks h)" "x \<in> region p n" for a s x
    using that by blast
  moreover have "x \<notin> taken h bs" if "x \<in> region p n" for x
    using fresh_region_not_taken [OF pool_okD(1) [OF assms(1)] assms(2)] that by blast
  ultimately show "region p n \<inter> used h bs ls = {}" by (auto simp: used_iff)
qed

lemma client_frame_set_large [simp]: "client_frame h (set_large h l r)"
  by (simp add: client_frame_def live_def)

lemma client_frame_grab [simp]: "client_frame h (grab h p n)"
  by (rule pool_frame_client) auto

definition set_head :: "heap \<Rightarrow> addr \<Rightarrow> addr \<Rightarrow> heap" where
  "set_head h pool l = h\<lparr>h_pms := (h_pms h)(pool \<mapsto> (the (h_pms h pool))\<lparr>pm_large := l\<rparr>)\<rparr>"

lemma client_frame_set_head: "h_pms h pool = Some m \<Longrightarrow> client_frame h (set_head h pool l)"
  by (simp add: client_frame_def live_def set_head_def)

lemma set_head_pool_ok:
  assumes "pool_ok h pool bs ls ps" "l \<notin> set ls" "l \<noteq> NULL" "cut_from h bs ps l 16"
    "h_pms h pool = Some m" "p \<noteq> NULL" "p \<in> fst ` set (h_blocks h) - set bs - set (large_allocs h ls)"
  shows "let h' = set_head (set_large h l \<lparr>pl_next = pm_large m, pl_alloc = p\<rparr>) pool l in
    pool_ok h' pool bs (l # ls) ps \<and> large_allocs h' (l # ls) = p # large_allocs h ls
    \<and> taken h' bs = taken h bs \<and> h_blocks h' = h_blocks h"
proof -
  define g where "g = set_large h l \<lparr>pl_next = pm_large m, pl_alloc = p\<rparr>"
  define h' where "h' = set_head g pool l"
  note ok = pool_okD [OF assms(1)]
  have h': "h_blocks h' = h_blocks h" "h_pds h' = h_pds h" "h_larges h' = (h_larges h)(l \<mapsto> \<lparr>pl_next = pm_large m, pl_alloc = p\<rparr>)"
    "h_pms h' pool = Some (m\<lparr>pm_large := l\<rparr>)"
    using assms(5) by (simp_all add: h'_def g_def set_head_def)
  have tk: "taken h' bs = taken h bs" by (simp add: taken_def block_used_def h')
  have "alloc_of h' a = alloc_of g a" for a by (simp add: alloc_of_def h'_def set_head_def)
  then have "alloc_of h' l = p" "map (alloc_of h') ls = map (alloc_of h) ls"
    using assms(2) by (auto simp: g_def)
  then have la: "large_allocs h' (l # ls) = p # large_allocs h ls"
    using assms(6) by (simp add: large_allocs_def del: map_eq_conv)
  have "linked (pl_next_at h) (pm_large m) ls" using ok(8) assms(5) by auto
  then have "linked (pl_next_at h') (pm_large m) ls"
    by (rule linked_frame) (use assms(2) in \<open>auto simp: pl_next_at_def h'\<close>)
  then have "linked (pl_next_at h') l (l # ls)" using assms(3) by (auto simp: pl_next_at_def h')
  moreover have "chain_ok h' pool bs ps"
    by (rule chain_ok_transfer [OF ok(1)])
      (use ok(1,2) assms(5) chain_okD [OF ok(1)] in \<open>fastforce simp: chain_ok_def h'\<close>)+
  moreover have "cut_from h' bs ps a 16" if "a \<in> set (l # ls)" for a
    using that ok(5) assms(4) by (auto simp: cut_from_def tk)
  moreover have "distinct (large_allocs h' (l # ls))" using ok(6) assms(7) la by simp
  moreover have "set (large_allocs h' (l # ls)) \<subseteq> fst ` set (h_blocks h') - set bs"
    using ok(7) assms(7) la h' by auto
  ultimately have "pool_ok h' pool bs (l # ls) ps"
    using h'(4) by (auto simp: pool_ok_def larges_ok_def)
  then show ?thesis using la tk h'(1) by (simp add: h'_def g_def Let_def)
qed

text \<open>A block obtained before and released again leaves no trace for the callers.\<close>

lemma client_frame_release:
  assumes "fresh (h_blocks h) p n" "client_frame (grab h p n) h2" "p \<noteq> NULL"
    "h_blocks h2 = (p, n) # h_blocks h" "blocks_ok (h_blocks h2)"
  shows "client_frame h (released h2 p n)" "h_blocks (released h2 p n) = h_blocks h"
proof -
  show blk: "h_blocks (released h2 p n) = h_blocks h"
    using assms(1,4) by (auto simp: fresh_def filter_id_conv)
  have out: "outside p n f a = f a" if a: "live h a 1" for f :: "addr \<Rightarrow> 'x option" and a
  proof -
    obtain b s where b: "(b, s) \<in> set (h_blocks h)" "unat a \<in> region b s"
      using a by (auto simp: live_def region_def)
    then have "b \<noteq> p" using assms(1) by (auto simp: fresh_def)
    then show ?thesis using outside_block [OF assms(5), of p n b s a f] b assms(4) by simp
  qed
  have "live (grab h p n) a m" if "live h a m" for a m using that by (rule live_mono) auto
  then show "client_frame h (released h2 p n)"
    using assms(2) blk by (auto simp: client_frame_def out live_def)
qed

text \<open>The result of a large allocation that obtained the block \<open>p\<close> from the library.\<close>

lemma fresh_block_result:
  assumes "pool_ok h pool bs ls ps" "fresh (h_blocks h) p n" "p \<noteq> NULL" "client_frame h h'"
    "set (large_allocs h' ls') = insert p (set (large_allocs h ls))" "(p, n) \<in> set (h_blocks h')"
    "taken h bs \<subseteq> taken h' bs'" "set (h_blocks h) \<subseteq> set (h_blocks h')"
  shows "alloc_result h bs ls n p h' bs' ls'"
  using assms(3,4,6) used_set_alloc [OF assms(5-8)] fresh_region_not_used [OF assms(1,2)]
  unfolding alloc_result_def by (auto intro: liveI)

lemma palloc_large_link_correct:
  assumes "libc_ok env" "local_null env" "pool_ok h pool bs ls ps" "fresh (h_blocks h) p n"
    "p \<noteq> NULL"
  shows "\<exists>q h' bs' ls'. palloc_large_link env (grab h p n) pool p = Some (q, h')
    \<and> pool_ok h' pool bs' ls' ps \<and> alloc_result h bs ls n q h' bs' ls'
    \<and> (q \<noteq> NULL \<longrightarrow> q = p \<and> p \<in> set (large_allocs h' ls') \<and> (p, n) \<in> set (h_blocks h'))"
proof -
  let ?h1 = "grab h p n"
  note ok = pool_okD [OF assms(3)]
  have ok1: "pool_ok ?h1 pool bs ls ps" and la1: "large_allocs ?h1 ls = large_allocs h ls"
    and u1: "used ?h1 bs ls = used h bs ls"
    using pool_ok_grab [OF assms(3)] assms(4) by blast+
  have ps: "80 \<le> unat ps" using ok(1) by (simp add: chain_ok_def)
  then have "unat (16 :: u64) \<le> unat ps - 32" by simp
  then obtain large h2 bs2 where sm: "ngx_palloc_small env ?h1 pool 16 True = Some (large, h2)"
    "small_result ?h1 pool bs ps 16 large h2 bs2"
    using palloc_small_correct [OF assms(1,2) pool_okD(1) [OF ok1]] by blast
  note s = small_result_mono [OF sm(2)]
  have ok2: "pool_ok h2 pool bs2 ls ps" and la2: "large_allocs h2 ls = large_allocs h ls"
    using small_result_pool_ok [OF ok1 sm(2)] la1 by simp_all
  have res2: "alloc_result ?h1 bs ls 16 large h2 bs2 ls" by (rule small_result_alloc [OF ok1 sm(2)])
  then have fr2: "client_frame ?h1 h2" by (simp add: alloc_result_def)
  have newp: "p \<notin> fst ` set (h_blocks h)" using assms(4) by (auto simp: fresh_def)
  then have p_free: "p \<notin> set (large_allocs h ls)" using ok(7) by blast
  have p_bs: "p \<in> fst ` set (h_blocks ?h1) - set bs"
    using assms(5) fresh_not_block [OF ok(1) assms(4)] by simp
  then have p2: "p \<in> fst ` set (h_blocks h2) - set bs2" by (rule small_result_blocks [OF sm(2)])
  have pn2: "(p, n) \<in> set (h_blocks h2)" using s(3) assms(5) by auto
  have sub: "set (h_blocks h) \<subseteq> set (h_blocks h2)" using s(3) assms(5) by auto
  show ?thesis
  proof (cases "large = NULL")
    case True
    let ?h3 = "released h2 p n"
    have s6: "h_blocks h2 = (p, n) # h_blocks h" "bs2 = bs" using s(6) [OF True] assms(5) by auto
    have run: "palloc_large_link env ?h1 pool p = Some (NULL, ?h3)"
      using sm(1) True ngx_free_block [OF pool_okD(2) [OF ok2] pn2]
      by (simp add: palloc_large_link_def sizeof_defs)
    note rel = release_pool_ok [OF ok2 pn2, unfolded la2]
    have ok3: "pool_ok ?h3 pool bs ls ps" and u3: "used ?h3 bs ls = used h2 bs ls"
      using rel(1,3) p2 p_free s6(2) by auto
    have "used h2 bs ls = used h bs ls" using res2 True s6(2) u1 by (simp add: alloc_result_def)
    moreover have "client_frame h ?h3"
      using client_frame_release [OF assms(4) fr2 assms(5) s6(1) pool_okD(2) [OF ok2]] by blast
    ultimately have "alloc_result h bs ls n NULL ?h3 bs ls" using u3 by (simp add: alloc_result_def)
    then show ?thesis using run ok3 by blast
  next
    case False
    note sv = s(7) [OF False]
    obtain m where m: "h_pms h2 pool = Some m" using pool_okD(8) [OF ok2] by auto
    define h3 where "h3 = set_head (set_large h2 large \<lparr>pl_next = pm_large m, pl_alloc = p\<rparr>) pool large"
    have notin: "large \<notin> set ls"
    proof
      assume "large \<in> set ls"
      then have "region large 16 \<subseteq> taken h bs" using ok(5) by (auto simp: cut_from_def)
      moreover have "region large 16 \<inter> taken h bs = {}" using sv by (simp add: served_def)
      moreover have "unat large \<in> region large 16" by (simp add: region_def)
      ultimately show False by blast
    qed
    have cut: "cut_from h2 bs2 ps large 16" using sv by (auto simp: served_def cut_from_def)
    have h3: "pool_ok h3 pool bs2 (large # ls) ps" "large_allocs h3 (large # ls) = p # large_allocs h ls"
      "taken h3 bs2 = taken h2 bs2" "h_blocks h3 = h_blocks h2"
      using set_head_pool_ok [OF ok2 notin False cut m assms(5)] p2 p_free la2
      by (simp_all add: h3_def Let_def)
    have "live h2 pool 80" using chain_ok_size [OF s(4)] by auto
    then have run: "palloc_large_link env ?h1 pool p = Some (p, h3)"
      using sm(1) False m cut_from_live [OF s(4) cut]
      by (simp add: palloc_large_link_def put_large_def put_pm_def sizeof_defs h3_def set_head_def
          set_large_def live_def)
    have "client_frame (set_large h2 large \<lparr>pl_next = pm_large m, pl_alloc = p\<rparr>) h3"
      unfolding h3_def by (rule client_frame_set_head) (simp add: m)
    then have "client_frame h2 h3" by (rule client_frame_trans [OF client_frame_set_large])
    then have "client_frame h h3" using fr2 client_frame_grab client_frame_trans by blast
    then have "alloc_result h bs ls n p h3 bs2 (large # ls)"
      using fresh_block_result [OF assms(3-5)] h3 pn2 sub s(2) by simp
    then show ?thesis using run h3 pn2 by (metis list.set_intros(1))
  qed
qed

lemma ngx_palloc_large_correct:
  assumes "libc_ok env" "local_null env" "pool_ok h pool bs ls ps"
  shows "\<exists>q h' bs' ls'. ngx_palloc_large env h pool sz = Some (q, h')
    \<and> pool_ok h' pool bs' ls' ps \<and> alloc_result h bs ls sz q h' bs' ls' \<and> 8 dvd unat q
    \<and> (q \<noteq> NULL \<longrightarrow> q \<in> set (large_allocs h' ls') \<and> (q, sz) \<in> set (h_blocks h'))"
proof -
  obtain p h1 where a: "ngx_alloc env h sz = (p, h1)" by fastforce
  note f = ngx_alloc_fresh [OF assms(1) a]
  show ?thesis
  proof (cases "p = NULL")
    case True
    then have "ngx_palloc_large env h pool sz = Some (NULL, h1)" using a by (simp add: ngx_palloc_large_def)
    moreover have "pool_ok h1 pool bs ls ps" "used h1 bs ls = used h bs ls"
      using pool_ok_grab [OF assms(3), of NULL sz] f(1) True by simp_all
    ultimately show ?thesis
      using f(1) True by (intro exI [of _ NULL] exI [of _ h1] exI [of _ bs] exI [of _ ls])
        (simp add: alloc_result_def)
  next
    case False
    then have fr: "fresh (h_blocks h) p sz" "8 dvd unat p" using f(2) by auto
    have ok1: "pool_ok h1 pool bs ls ps" and la1: "large_allocs h1 ls = large_allocs h ls"
      using pool_ok_grab [OF assms(3)] fr f(1) by blast+
    obtain m where m: "h_pms h1 pool = Some m" "linked (pl_next_at h1) (pm_large m) ls"
      using pool_okD(8) [OF ok1] by auto
    obtain r where r: "palloc_large_scan h1 (pm_large m) (lc_uninit_n env (h_clock h)) p = Some r"
      "r = None \<or> (\<exists>l k. r = Some (set_large h1 l (k\<lparr>pl_alloc := p\<rparr>)) \<and> l \<in> set ls
        \<and> h_larges h1 l = Some k \<and> pl_alloc k = NULL)"
      using palloc_large_scan_correct [OF ok1 m(2)] by blast
    show ?thesis
    proof (cases r)
      case None
      then have "ngx_palloc_large env h pool sz = palloc_large_link env (grab h p sz) pool p"
        using a False m r f(1) by (simp add: ngx_palloc_large_def)
      with palloc_large_link_correct [OF assms fr(1) False] fr(2) show ?thesis by (metis dvd_0_right unat_0)
    next
      case (Some h2)
      then obtain l k where l: "h2 = set_large h1 l (k\<lparr>pl_alloc := p\<rparr>)" "l \<in> set ls"
        "h_larges h1 l = Some k" "pl_alloc k = NULL" using r(2) by auto
      obtain xs ys where ls: "ls = xs @ l # ys" using l(2) by (meson split_list)
      have la: "large_allocs h1 xs @ large_allocs h1 ys = large_allocs h ls"
        using l(3,4) la1 by (simp add: ls large_allocs_append large_allocs_Cons alloc_of_def)
      have p_bs: "p \<in> fst ` set (h_blocks h1) - set bs"
        using False f(1) fresh_not_block [OF pool_okD(1) [OF assms(3)] fr(1)] by simp
      have "p \<notin> fst ` set (h_blocks h)" using fr(1) by (auto simp: fresh_def)
      then have p_free: "p \<notin> set (large_allocs h ls)" using pool_okD(7) [OF assms(3)] by blast
      have ok2: "pool_ok h2 pool bs ls ps"
        unfolding l(1) by (rule set_alloc_pool_ok [OF ok1 ls l(3)]) (use la p_bs p_free in simp)
      have la2: "set (large_allocs h2 ls) = insert p (set (large_allocs h ls))"
        using large_allocs_set_large [of xs l ys h1 "k\<lparr>pl_alloc := p\<rparr>"] pool_okD(3) [OF ok1] False
        by (auto simp: l(1) ls [symmetric] la [symmetric])
      have run: "ngx_palloc_large env h pool sz = Some (p, h2)"
        using a False m r(1) Some by (simp add: ngx_palloc_large_def)
      have "client_frame h h2" using f(1) client_frame_trans [of h h1 h2] by (simp add: l(1))
      then have "alloc_result h bs ls sz p h2 bs ls"
        using f(1) False by (intro fresh_block_result [OF assms(3) fr(1) False _ la2]) (auto simp: l(1))
      then show ?thesis
        using run ok2 fr(2) la2 f(1) False
        by (intro exI [of _ p] exI [of _ h2] exI [of _ bs] exI [of _ ls]) (simp add: l(1))
    qed
  qed
qed

lemma pool_max_small:
  assumes "pool_ok h pool bs ls ps" "h_pms h pool = Some m" "sz \<le> pm_max m"
  shows "unat sz \<le> unat ps - 32"
proof -
  have "unat (pm_max m) \<le> unat ps - 80" using pool_okD(1) [OF assms(1)] assms(2) by (auto simp: chain_ok_def)
  then show ?thesis using assms(3) by (simp add: word_le_nat_alt)
qed

lemma pool_small_correct:
  assumes "libc_ok env" "local_null env" "pool_ok h pool bs ls ps" "unat sz \<le> unat ps - 32"
  shows "\<exists>p h' bs'. ngx_palloc_small env h pool sz al = Some (p, h') \<and> pool_ok h' pool bs' ls ps
    \<and> alloc_result h bs ls sz p h' bs' ls \<and> (al \<longrightarrow> 8 dvd unat p)"
proof -
  obtain p h' bs' where s: "ngx_palloc_small env h pool sz al = Some (p, h')"
    "small_result h pool bs ps sz p h' bs'" "p \<noteq> NULL \<and> al \<longrightarrow> 8 dvd unat p"
    using palloc_small_correct [OF assms(1,2) pool_okD(1) [OF assms(3)] assms(4)] by blast
  then show ?thesis
    using small_result_pool_ok(1) [OF assms(3) s(2)] small_result_alloc [OF assms(3) s(2)]
    by (metis dvd_0_right unat_0)
qed

lemma ngx_palloc_correct_pool:
  assumes "libc_ok env" "local_null env" "pool_ok h pool bs ls ps"
  shows "\<exists>p h' bs' ls'. ngx_palloc env h pool sz = Some (p, h') \<and> pool_ok h' pool bs' ls' ps
    \<and> alloc_result h bs ls sz p h' bs' ls' \<and> 8 dvd unat p"
proof -
  obtain m where m: "h_pms h pool = Some m" using pool_okD(8) [OF assms(3)] by auto
  show ?thesis
  proof (cases "sz \<le> pm_max m")
    case True
    then show ?thesis
      using pool_small_correct [OF assms pool_max_small [OF assms(3) m True], of True] m
      by (auto simp: ngx_palloc_def)
  next
    case False
    obtain q h' bs' ls' where q: "ngx_palloc_large env h pool sz = Some (q, h')"
      "pool_ok h' pool bs' ls' ps" "alloc_result h bs ls sz q h' bs' ls'" "8 dvd unat q"
      using ngx_palloc_large_correct [OF assms] by blast
    then show ?thesis using q m False by (auto simp: ngx_palloc_def)
  qed
qed

text \<open>An allocation that the current block has room for.\<close>

lemma palloc_here:
  assumes "pool_ok h pool bs ls ps" "h_pms h pool = Some m" "sz \<le> pm_max m" "h_pds h (pm_current m) = Some d"
    "unat (place True (pd_last d)) + unat sz \<le> unat (pm_current m + ps)"
  shows "ngx_palloc env h pool sz = Some (place True (pd_last d),
    h\<lparr>h_pds := (h_pds h)(pm_current m \<mapsto> d\<lparr>pd_last := place True (pd_last d) + sz\<rparr>)\<rparr>)"
proof -
  note ch = pool_okD(1) [OF assms(1)]
  have "block_ok h pool ps (pm_current m)" using ch assms(2) by (auto simp: chain_ok_def)
  then have d: "pd_end d = pm_current m + ps" "live h (pm_current m) 32"
    using block_okD [OF pool_okD(2) [OF assms(1)]] assms(4) by fastforce+
  have "sz \<le> pd_end d - place True (pd_last d)" using room_test [of "place True (pd_last d)" "pd_end d" sz] assms(5) d(1) by simp
  then show ?thesis
    using assms(2-4) d(2) by (simp add: ngx_palloc_def ngx_palloc_small_def palloc_small_scan.simps put_pd_def
        sizeof_defs Let_def place_def)
qed

lemma ngx_pnalloc_correct_pool:
  assumes "libc_ok env" "local_null env" "pool_ok h pool bs ls ps"
  shows "\<exists>p h' bs' ls'. ngx_pnalloc env h pool sz = Some (p, h') \<and> pool_ok h' pool bs' ls' ps
    \<and> alloc_result h bs ls sz p h' bs' ls'"
proof -
  obtain m where m: "h_pms h pool = Some m" using pool_okD(8) [OF assms(3)] by auto
  show ?thesis
  proof (cases "sz \<le> pm_max m")
    case True
    then show ?thesis
      using pool_small_correct [OF assms pool_max_small [OF assms(3) m True], of False] m
      by (auto simp: ngx_pnalloc_def)
  next
    case False
    then show ?thesis
      using ngx_palloc_large_correct [OF assms, of sz] m by (fastforce simp: ngx_pnalloc_def)
  qed
qed

lemma ngx_pmemalign_correct_pool:
  assumes "libc_ok env" "local_null env" "pool_ok h pool bs ls ps"
  shows "\<exists>p h' bs' ls'. ngx_pmemalign env h pool sz alignment = Some (p, h') \<and> pool_ok h' pool bs' ls' ps
    \<and> alloc_result h bs ls sz p h' bs' ls' \<and> unat alignment dvd unat p"
proof -
  obtain p h1 where ma: "ngx_memalign env h alignment sz = (p, h1)" by fastforce
  show ?thesis
    using assms(1) ma
  proof (cases rule: ngx_memalign_fresh)
    case failed
    then have "p = NULL" using assms(2) unfolding local_null_def by blast
    with failed ma have "ngx_pmemalign env h pool sz alignment = Some (NULL, h1)"
      by (simp add: ngx_pmemalign_def)
    moreover have "pool_ok h1 pool bs ls ps" "used h1 bs ls = used h bs ls"
      using pool_ok_grab [OF assms(3), of NULL sz] failed by simp_all
    ultimately show ?thesis
      using failed by (intro exI [of _ NULL] exI [of _ h1] exI [of _ bs] exI [of _ ls])
        (simp add: alloc_result_def)
  next
    case block
    then show ?thesis
      using palloc_large_link_correct [OF assms block(3,2)] ma
      by (simp add: ngx_pmemalign_def) (metis dvd_0_right unat_0)
  qed
qed

lemma pool_ok_unique:
  assumes "pool_ok h pool bs ls ps" "pool_ok h pool bs' ls' ps"
  shows "bs' = bs" "ls' = ls"
  using assms by (auto simp: pool_ok_def chain_ok_def larges_ok_def dest: linked_unique)

subsection \<open>The pool is an allocator\<close>

datatype pool_request = Palloc u64 | Pnalloc u64 | Pcalloc u64 | Pmemalign u64 u64

fun request_size :: "pool_request \<Rightarrow> u64" where
  "request_size (Palloc n) = n"
| "request_size (Pnalloc n) = n"
| "request_size (Pcalloc n) = n"
| "request_size (Pmemalign n alignment) = n"

fun pool_serve :: "libc \<Rightarrow> heap \<Rightarrow> addr \<Rightarrow> pool_request \<Rightarrow> (addr \<times> heap) option" where
  "pool_serve env h pool (Palloc n) = ngx_palloc env h pool n"
| "pool_serve env h pool (Pnalloc n) = ngx_pnalloc env h pool n"
| "pool_serve env h pool (Pcalloc n) = ngx_pcalloc env h pool n"
| "pool_serve env h pool (Pmemalign n alignment) = ngx_pmemalign env h pool n alignment"

lemma pool_ok_mem [simp]: "pool_ok (h\<lparr>h_mem := m\<rparr>) pool bs ls ps = pool_ok h pool bs ls ps"
  "used (h\<lparr>h_mem := m\<rparr>) bs ls = used h bs ls" "live (h\<lparr>h_mem := m\<rparr>) p n = live h p n"
  by (simp_all add: pool_ok_def chain_ok_def larges_ok_def block_ok_def cut_from_def taken_def
      block_used_def used_def large_allocs_def alloc_of_def [abs_def] pd_next_at_def [abs_def]
      pl_next_at_def [abs_def] live_def)

lemma used_in_block:
  assumes "pool_ok h pool bs ls ps" "x \<in> used h bs ls"
  shows "\<exists>(b, s) \<in> set (h_blocks h). x \<in> region b s"
proof -
  note ok = pool_okD [OF assms(1)]
  from assms(2) consider (cut) b where "b \<in> set bs" "x \<in> block_used h b"
    | (large) a s where "(a, s) \<in> set (h_blocks h)" "x \<in> region a s"
    by (auto simp: used_iff taken_def)
  then show ?thesis
  proof cases
    case cut
    then have "x \<in> region b ps" using chain_okD [OF ok(1) cut(1)] by (auto simp: block_used_def region_def)
    then show ?thesis using chain_ok_block [OF ok(1) cut(1)] by blast
  qed blast
qed

text \<open>The part of a result that the contract states, with \<open>ngx_pcalloc\<close> included.\<close>

definition granted ::
  "heap \<Rightarrow> addr list \<Rightarrow> addr list \<Rightarrow> u64 \<Rightarrow> addr \<Rightarrow> heap \<Rightarrow> addr list \<Rightarrow> addr list \<Rightarrow> bool" where
  "granted h bs ls n p h' bs' ls' \<longleftrightarrow> used h bs ls \<subseteq> used h' bs' ls'
     \<and> (p \<noteq> NULL \<longrightarrow> region p n \<inter> used h bs ls = {} \<and> region p n \<subseteq> used h' bs' ls')
     \<and> (\<forall>a. unat a \<notin> region p n \<longrightarrow> h_mem h' a = h_mem h a)"

lemma alloc_result_granted: "alloc_result h bs ls n p h' bs' ls' \<Longrightarrow> granted h bs ls n p h' bs' ls'"
  by (auto simp: alloc_result_def granted_def client_frame_def split: if_splits)

lemma ngx_pcalloc_correct_pool:
  assumes "libc_ok env" "local_null env" "pool_ok h pool bs ls ps"
  shows "\<exists>p h' bs' ls'. ngx_pcalloc env h pool sz = Some (p, h') \<and> pool_ok h' pool bs' ls' ps
    \<and> granted h bs ls sz p h' bs' ls' \<and> 8 dvd unat p
    \<and> (p \<noteq> NULL \<longrightarrow> (\<forall>a. unat a \<in> region p sz \<longrightarrow> h_mem h' a = 0))"
proof -
  obtain p h1 bs' ls' where p: "ngx_palloc env h pool sz = Some (p, h1)" "pool_ok h1 pool bs' ls' ps"
    "alloc_result h bs ls sz p h1 bs' ls'" "8 dvd unat p"
    using ngx_palloc_correct_pool [OF assms] by blast
  note g = alloc_result_granted [OF p(3)]
  show ?thesis
  proof (cases "p = NULL")
    case True
    then show ?thesis using p g by (auto simp: ngx_pcalloc_def)
  next
    case False
    then have lv: "live h1 p sz" using p(3) by (simp add: alloc_result_def)
    then obtain b s where "(b, s) \<in> set (h_blocks h1)" "unat p + unat sz \<le> unat b + unat s"
      by (auto simp: live_def)
    then have "unat p + unat sz < 2 ^ 64" using blocks_okD(2) [OF pool_okD(2) [OF p(2)]] by force
    note off = offset_less [OF this]
    define h2 where "h2 = h1\<lparr>h_mem := (\<lambda>a. if a - p < sz then 0 else h_mem h1 a)\<rparr>"
    have run: "ngx_pcalloc env h pool sz = Some (p, h2)"
      using p(1) False lv by (simp add: ngx_pcalloc_def ngx_memzero_def h2_def)
    have "pool_ok h2 pool bs' ls' ps" using p(2) by (simp add: h2_def)
    moreover have "granted h bs ls sz p h2 bs' ls'" using g off by (auto simp: granted_def h2_def)
    moreover have "\<forall>a. unat a \<in> region p sz \<longrightarrow> h_mem h2 a = 0" using off by (simp add: h2_def)
    ultimately show ?thesis using run p(4) by blast
  qed
qed

lemma pool_serve_correct:
  assumes "libc_ok env" "local_null env" "pool_ok h pool bs ls ps"
  shows "\<exists>p h' bs' ls'. pool_serve env h pool r = Some (p, h') \<and> pool_ok h' pool bs' ls' ps
    \<and> granted h bs ls (request_size r) p h' bs' ls'"
proof (cases r)
  case (Palloc n)
  then show ?thesis using ngx_palloc_correct_pool [OF assms, of n] alloc_result_granted by fastforce
next
  case (Pnalloc n)
  then show ?thesis using ngx_pnalloc_correct_pool [OF assms, of n] alloc_result_granted by fastforce
next
  case (Pcalloc n)
  then show ?thesis using ngx_pcalloc_correct_pool [OF assms, of n] by fastforce
next
  case (Pmemalign n al)
  then show ?thesis using ngx_pmemalign_correct_pool [OF assms, of n al] alloc_result_granted by fastforce
qed

type_synonym pool_state = "heap \<times> addr list \<times> addr list"

definition pool_inv :: "libc \<Rightarrow> addr \<Rightarrow> u64 \<Rightarrow> pool_state \<Rightarrow> bool" where
  "pool_inv env pool ps = (\<lambda>(h, bs, ls). libc_ok env \<and> local_null env \<and> pool_ok h pool bs ls ps)"

definition pool_busy :: "pool_state \<Rightarrow> nat set" where
  "pool_busy = (\<lambda>(h, bs, ls). used h bs ls)"

definition pool_step ::
  "libc \<Rightarrow> addr \<Rightarrow> u64 \<Rightarrow> pool_state \<Rightarrow> pool_request \<Rightarrow> addr \<Rightarrow> pool_state \<Rightarrow> bool" where
  "pool_step env pool ps = (\<lambda>(h, bs, ls) r p (h', bs', ls').
     pool_serve env h pool r = Some (p, h') \<and> pool_ok h' pool bs' ls' ps)"

lemma pool_step_granted:
  assumes "pool_inv env pool ps (h, bs, ls)" "pool_step env pool ps (h, bs, ls) r p (h', bs', ls')"
  shows "granted h bs ls (request_size r) p h' bs' ls'"
proof -
  obtain q h2 bs2 ls2 where "pool_serve env h pool r = Some (q, h2)" "pool_ok h2 pool bs2 ls2 ps"
    "granted h bs ls (request_size r) q h2 bs2 ls2"
    using pool_serve_correct assms(1) unfolding pool_inv_def by blast
  then show ?thesis
    using assms(2) pool_ok_unique [of h' pool bs' ls' ps bs2 ls2] by (simp add: pool_step_def)
qed

interpretation pool: allocator "pool_inv env pool ps" pool_busy request_size "pool_step env pool ps"
  for env pool ps
proof unfold_locales
  fix s r
  assume "pool_inv env pool ps s"
  then show "\<exists>p s'. pool_step env pool ps s r p s'"
    using pool_serve_correct by (cases s) (fastforce simp: pool_inv_def pool_step_def)
next
  fix s r p s'
  assume inv: "pool_inv env pool ps s" and step: "pool_step env pool ps s r p s'"
  obtain h bs ls h' bs' ls' where s: "s = (h, bs, ls)" "s' = (h', bs', ls')"
    by (cases s, cases s') auto
  from pool_step_granted [OF inv [unfolded s] step [unfolded s]]
  have g: "granted h bs ls (request_size r) p h' bs' ls'" .
  show "pool_inv env pool ps s'" using inv step by (auto simp: s pool_inv_def pool_step_def)
  show "pool_busy s \<subseteq> pool_busy s'" using g by (simp add: s pool_busy_def granted_def)
  show "p \<noteq> NULL \<Longrightarrow> region p (request_size r) \<inter> pool_busy s = {}"
    using g by (simp add: s pool_busy_def granted_def)
  show "p \<noteq> NULL \<Longrightarrow> region p (request_size r) \<subseteq> pool_busy s'"
    using g by (simp add: s pool_busy_def granted_def)
qed

subsection \<open>Creation\<close>

lemma ngx_create_pool_ok:
  assumes "libc_ok env" "local_null env" "blocks_ok (h_blocks h)" "80 \<le> unat sz" "8 dvd unat sz"
  shows "\<exists>p h'. ngx_create_pool env h sz log = Some (p, h')
    \<and> (if p = NULL then h' = grab h NULL sz
       else pool_ok h' p [p] [] sz \<and> fresh (h_blocks h) p sz \<and> h_blocks h' = (p, sz) # h_blocks h
         \<and> used h' [p] [] = {unat p ..< unat p + 80}
         \<and> h_pms h' p = Some \<lparr>pm_max = ngx_min (sz - 80) (lc_pagesize env - 1), pm_current = p,
              pm_chain = NULL, pm_large = NULL, pm_cleanup = NULL, pm_log = log\<rparr>)"
proof -
  obtain p h1 where ma: "ngx_memalign env h NGX_POOL_ALIGNMENT sz = (p, h1)" by fastforce
  show ?thesis
    using assms(1) ma
  proof (cases rule: ngx_memalign_fresh)
    case failed
    then have "p = NULL" using assms(2) unfolding local_null_def by blast
    with failed ma show ?thesis by (simp add: ngx_create_pool_def)
  next
    case block
    have room: "unat p + unat sz < 2 ^ 63" using block(3) by (simp add: fresh_def)
    have s: "unat (p + sz) = unat p + unat sz" "unat (p + 80) = unat p + 80" "unat (sz - 80) = unat sz - 80"
      using room assms(4) by (auto simp: unat_plus_no_wrap unat_minus_le)
    define d where "d = \<lparr>pd_last = p + 80, pd_end = p + sz, pd_next = NULL, pd_failed = 0\<rparr>"
    define m where "m = \<lparr>pm_max = ngx_min (sz - 80) (lc_pagesize env - 1), pm_current = p,
      pm_chain = NULL, pm_large = NULL, pm_cleanup = NULL, pm_log = log\<rparr>"
    define h2 where "h2 = h1\<lparr>h_pds := (h_pds h1)(p \<mapsto> d)\<rparr>"
    define h3 where "h3 = h2\<lparr>h_pms := (h_pms h2)(p \<mapsto> m)\<rparr>"
    have "ngx_min (sz - 80) (lc_pagesize env - 1) =
        (if sz - 80 < lc_pagesize env - 1 then sz - 80 else lc_pagesize env - 1)"
      by (auto simp: ngx_min_def)
    moreover have "put_pd h1 p d = Some h2" "put_pm h2 p m = Some h3"
      using block assms(4) by (auto simp: put_pd_def put_pm_def h2_def h3_def sizeof_defs intro!: liveI)
    ultimately have run: "ngx_create_pool env h sz log = Some (p, h3)"
      using block ma
      by (simp add: ngx_create_pool_def sizeof_defs NGX_MAX_ALLOC_FROM_POOL_def d_def [symmetric] m_def Let_def
          split: if_splits)
    have h3: "h_blocks h3 = (p, sz) # h_blocks h" "h_pds h3 p = Some d" "h_pms h3 p = Some m"
      using block by (simp_all add: h3_def h2_def)
    have ok: "blocks_ok (h_blocks h3)" using blocks_ok_Cons [OF assms(3) block(3,2)] h3(1) by simp
    have "block_ok h3 p sz p"
      using h3 block(4) s assms(4) by (simp add: block_ok_def d_def header_def NGX_POOL_ALIGNMENT_def)
    moreover have "linked (pd_next_at h3) p [p]" using block(2) h3(2) by (simp add: d_def)
    ultimately have "chain_ok h3 p [p] sz"
      using ok assms(4,5) h3(3) s(3) by (simp add: chain_ok_def m_def)
    then have "pool_ok h3 p [p] [] sz"
      using h3(3) by (simp add: pool_ok_def larges_ok_def large_allocs_def m_def)
    moreover have "used h3 [p] [] = {unat p ..< unat p + 80}"
      using h3(2) s(2) by (simp add: used_def taken_def block_used_def large_allocs_def d_def)
    ultimately show ?thesis using run block h3 by (auto simp: m_def)
  qed
qed

subsection \<open>Giving memory back\<close>

lemma outside_upd: "unat l \<notin> region p n \<Longrightarrow> unat p + unat n < 2 ^ 64 \<Longrightarrow>
    outside p n (m(l \<mapsto> x)) = (outside p n m)(l \<mapsto> x)"
  by (rule ext) (auto simp: outside_def offset_less)

lemma released_set_large:
  "unat l \<notin> region p n \<Longrightarrow> unat p + unat n < 2 ^ 64 \<Longrightarrow>
   released (set_large h l x) p n = set_large (released h p n) l x"
  by (simp add: released_def set_large_def outside_upd)

text \<open>The address of a record that was cut from a block lies in none of the other live blocks.\<close>

lemma cut_from_outside:
  assumes "chain_ok h pool bs ps" "cut_from h bs ps l k" "0 < unat k" "(p, n) \<in> set (h_blocks h)" "p \<notin> set bs"
  shows "unat l \<notin> region p n"
proof -
  obtain b where b: "b \<in> set bs" "unat l \<in> region b ps"
    using assms(2,3) by (fastforce simp: cut_from_def region_def)
  have "apart b ps p n"
    using blocks_okD(4) [OF chain_ok_blocks [OF assms(1)] chain_ok_block [OF assms(1) b(1)] assms(4)]
      assms(5) b(1) by auto
  then show ?thesis using b(2) region_disjoint by blast
qed

lemma pfree_scan_correct:
  assumes "pool_ok h pool bs ls ps" "p \<noteq> NULL" "linked (pl_next_at h) q qs" "set qs \<subseteq> set ls"
  shows "if p \<in> set (map (alloc_of h) qs)
    then \<exists>l r n. pfree_scan h q p = Some (NGX_OK, set_large (released h p n) l (r\<lparr>pl_alloc := NULL\<rparr>))
      \<and> l \<in> set ls \<and> h_larges h l = Some r \<and> pl_alloc r = p \<and> (p, n) \<in> set (h_blocks h)
    else pfree_scan h q p = Some (NGX_DECLINED, h)"
  using assms(3,4)
proof (induction qs arbitrary: q)
  case Nil
  then show ?case by (subst pfree_scan.simps) simp
next
  case (Cons l qs)
  then have q: "q = l" "l \<noteq> NULL" "l \<in> set ls" by auto
  note ok = pool_okD [OF assms(1)]
  obtain r where r: "h_larges h l = Some r" "alloc_of h l = pl_alloc r"
    using larges_present [OF assms(1) q(3)] by auto
  show ?case
  proof (cases "p = pl_alloc r")
    case True
    have "p \<in> set (large_allocs h ls)"
      using True r(2) q(3) assms(2) by (force simp: large_allocs_def)
    then obtain n where n: "(p, n) \<in> set (h_blocks h)" "p \<notin> set bs" using ok(7) by fastforce
    have lc: "cut_from h bs ps l 16" using ok(5) q(3) by blast
    have out: "unat l \<notin> region p n" by (rule cut_from_outside [OF ok(1) lc _ n]) simp
    have room: "unat p + unat n < 2 ^ 64" using blocks_okD(2) [OF ok(2) n(1)] by simp
    obtain b where "(b, ps) \<in> set (h_blocks h)" "b \<noteq> p" "unat b \<le> unat l" "unat l + 16 \<le> unat b + unat ps"
      using lc chain_ok_block [OF ok(1)] n(2) by (force simp: cut_from_def)
    then have "live (released h p n) l 16" by (intro liveI [of b ps]) auto
    then have "pfree_scan h q p = Some (NGX_OK, set_large (released h p n) l (r\<lparr>pl_alloc := NULL\<rparr>))"
      using q r True ngx_free_block [OF ok(2) n(1)] outside_other [OF room out, of "h_larges h"]
      by (subst pfree_scan.simps) (simp add: put_large_def sizeof_defs set_large_def)
    then show ?thesis using True r q(3) n(1) by auto
  next
    case False
    have "linked (pl_next_at h) (pl_next r) qs" using Cons.prems r(1) by auto
    then have "if p \<in> set (map (alloc_of h) qs)
      then \<exists>l k n. pfree_scan h (pl_next r) p = Some (NGX_OK, set_large (released h p n) l (k\<lparr>pl_alloc := NULL\<rparr>))
        \<and> l \<in> set ls \<and> h_larges h l = Some k \<and> pl_alloc k = p \<and> (p, n) \<in> set (h_blocks h)
      else pfree_scan h (pl_next r) p = Some (NGX_DECLINED, h)"
      using Cons.IH Cons.prems(2) by simp
    moreover have "pfree_scan h q p = pfree_scan h (pl_next r) p"
      using q r(1) False by (subst pfree_scan.simps) simp
    ultimately show ?thesis using False r(2) by auto
  qed
qed

lemma used_disjoint_block:
  assumes "pool_ok h pool bs ls ps" "(p, n) \<in> set (h_blocks h)" "p \<notin> set bs" "p \<notin> set (large_allocs h ls)"
  shows "region p n \<inter> used h bs ls = {}"
proof -
  note ok = pool_okD [OF assms(1)]
  have "x \<notin> region p n" if x: "x \<in> taken h bs" for x
  proof -
    obtain b where b: "b \<in> set bs" "x \<in> region b ps"
      using x chain_okD [OF ok(1)] by (fastforce simp: taken_def block_used_def region_def)
    have "apart b ps p n"
      using blocks_okD(4) [OF ok(2) chain_ok_block [OF ok(1) b(1)] assms(2)] assms(3) b(1) by auto
    then show ?thesis using b(2) region_disjoint by blast
  qed
  moreover have "x \<notin> region p n"
    if "(a, s) \<in> set (h_blocks h)" "a \<in> set (large_allocs h ls)" "x \<in> region a s" for a s x
  proof -
    have "apart a s p n" using blocks_okD(4) [OF ok(2) that(1) assms(2)] that(2) assms(4) by auto
    then show ?thesis using that(3) region_disjoint by blast
  qed
  ultimately show ?thesis by (auto simp: used_iff)
qed

lemma ngx_pfree_large:
  assumes "pool_ok h pool bs ls ps" "p \<in> set (large_allocs h ls)"
  shows "\<exists>n h'. ngx_pfree h pool p = Some (NGX_OK, h') \<and> pool_ok h' pool bs ls ps
    \<and> (p, n) \<in> set (h_blocks h) \<and> h_blocks h' = filter (\<lambda>b. fst b \<noteq> p) (h_blocks h)
    \<and> set (large_allocs h' ls) = set (large_allocs h ls) - {p}
    \<and> used h' bs ls = used h bs ls - region p n"
proof -
  note ok = pool_okD [OF assms(1)]
  have p0: "p \<noteq> NULL" and pin: "p \<in> set (map (alloc_of h) ls)" using assms(2) by (auto simp: large_allocs_def)
  obtain m where m: "h_pms h pool = Some m" "linked (pl_next_at h) (pm_large m) ls" using ok(8) by auto
  obtain l r n where f: "pfree_scan h (pm_large m) p = Some (NGX_OK, set_large (released h p n) l (r\<lparr>pl_alloc := NULL\<rparr>))"
    "l \<in> set ls" "h_larges h l = Some r" "pl_alloc r = p" "(p, n) \<in> set (h_blocks h)"
    using pfree_scan_correct [OF assms(1) p0 m(2)] pin by auto
  have pbs: "p \<notin> set bs" using ok(7) assms(2) by blast
  have out: "unat l \<notin> region p n"
    using cut_from_outside [OF ok(1) _ _ f(5) pbs, of l 16] ok(5) f(2) by simp
  have room: "unat p + unat n < 2 ^ 64" using blocks_okD(2) [OF ok(2) f(5)] by simp
  define g where "g = set_large h l (r\<lparr>pl_alloc := NULL\<rparr>)"
  define h' where "h' = released g p n"
  have h': "h' = set_large (released h p n) l (r\<lparr>pl_alloc := NULL\<rparr>)"
    using released_set_large [OF out room] by (simp add: h'_def g_def)
  obtain xs ys where ls: "ls = xs @ l # ys" using f(2) by (meson split_list)
  have okg: "pool_ok g pool bs ls ps" unfolding g_def by (rule set_alloc_pool_ok [OF assms(1) ls f(3)]) simp
  have la: "large_allocs h ls = large_allocs h xs @ p # large_allocs h ys"
    using f(3,4) p0 by (simp add: ls large_allocs_append large_allocs_Cons alloc_of_def)
  have lag: "large_allocs g ls = large_allocs h xs @ large_allocs h ys"
    using large_allocs_set_large [of xs l ys h "r\<lparr>pl_alloc := NULL\<rparr>"] ok(3) by (simp add: g_def ls)
  have notin: "p \<notin> set (large_allocs g ls)" and las: "set (large_allocs g ls) = set (large_allocs h ls) - {p}"
    using ok(6) by (auto simp: la lag)
  have png: "(p, n) \<in> set (h_blocks g)" using f(5) by (simp add: g_def)
  note rel = release_pool_ok(1-3) [OF okg png pbs notin, folded h'_def]
  have "region p n \<inter> used g bs ls = {}" by (rule used_disjoint_block [OF okg png pbs notin])
  moreover have "used h bs ls = used g bs ls \<union> region p n"
  proof -
    have g: "taken g bs = taken h bs" "h_blocks g = h_blocks h" by (simp_all add: g_def)
    have "x \<in> used h bs ls \<longleftrightarrow> x \<in> used g bs ls \<or> x \<in> region p n" for x
    proof -
      have "(\<exists>s. (p, s) \<in> set (h_blocks h) \<and> x \<in> region p s) \<longleftrightarrow> x \<in> region p n"
        using f(5) blocks_okD(5) [OF ok(2) f(5)] by blast
      moreover have "(\<exists>a s. (a, s) \<in> set (h_blocks h) \<and> a \<in> set (large_allocs h ls) \<and> x \<in> region a s)
        \<longleftrightarrow> (\<exists>a s. (a, s) \<in> set (h_blocks h) \<and> a \<in> set (large_allocs h ls) - {p} \<and> x \<in> region a s)
          \<or> (\<exists>s. (p, s) \<in> set (h_blocks h) \<and> x \<in> region p s)"
        using assms(2) by blast
      ultimately show ?thesis unfolding used_iff g las by blast
    qed
    then show ?thesis by blast
  qed
  ultimately have "used h' bs ls = used h bs ls - region p n" using rel(3) by auto
  moreover have "ngx_pfree h pool p = Some (NGX_OK, h')" using m(1) f(1) by (simp add: ngx_pfree_def h')
  moreover have "h_blocks h' = filter (\<lambda>b. fst b \<noteq> p) (h_blocks h)" by (simp add: h')
  ultimately show ?thesis using rel(1,2) las f(5) by auto
qed

lemma ngx_pfree_other:
  assumes "pool_ok h pool bs ls ps" "p \<noteq> NULL" "p \<notin> set (large_allocs h ls)"
  shows "ngx_pfree h pool p = Some (NGX_DECLINED, h)"
proof -
  obtain m where m: "h_pms h pool = Some m" "linked (pl_next_at h) (pm_large m) ls"
    using pool_okD(8) [OF assms(1)] by auto
  have "p \<notin> set (map (alloc_of h) ls)" using assms(2,3) by (auto simp: large_allocs_def)
  then show ?thesis
    using pfree_scan_correct [OF assms(1,2) m(2)] m(1) by (auto simp: ngx_pfree_def)
qed

text \<open>
  Freeing all large allocations. Nothing in the blocks of the chain changes; the library's
  blocks of the chain \<open>qs\<close> are gone.
\<close>

definition agree_in :: "heap \<Rightarrow> heap \<Rightarrow> addr list \<Rightarrow> u64 \<Rightarrow> bool" where
  "agree_in h h' bs ps \<longleftrightarrow> (\<forall>b \<in> set bs. \<forall>a. unat a \<in> region b ps \<longrightarrow> h_pds h' a = h_pds h a
     \<and> h_pms h' a = h_pms h a \<and> h_larges h' a = h_larges h a \<and> h_cleanups h' a = h_cleanups h a)"

lemma free_larges_correct:
  assumes "blocks_ok (h_blocks h)" "\<forall>b \<in> set bs. (b, ps) \<in> set (h_blocks h)"
    "linked (pl_next_at h) q qs" "\<forall>l \<in> set qs. \<exists>b \<in> set bs. unat l \<in> region b ps"
    "distinct (large_allocs h qs)" "set (large_allocs h qs) \<subseteq> fst ` set (h_blocks h) - set bs"
  shows "\<exists>h'. free_larges h q = Some h' \<and> agree_in h h' bs ps \<and> h_mem h' = h_mem h \<and> h_calls h' = h_calls h
    \<and> h_blocks h' = filter (\<lambda>b. fst b \<notin> set (large_allocs h qs)) (h_blocks h)"
  using assms
proof (induction qs arbitrary: h q)
  case Nil
  then show ?case by (subst free_larges.simps) (simp add: agree_in_def large_allocs_def)
next
  case (Cons l qs)
  then have q: "q = l" "l \<noteq> NULL" by auto
  obtain q' where q': "pl_next_at h l = Some q'" "linked (pl_next_at h) q' qs"
    using Cons.prems(3) by auto
  then obtain r where r: "h_larges h l = Some r" "linked (pl_next_at h) (pl_next r) qs"
    by (auto simp: pl_next_at_def [of h l])
  define h1 where "h1 = (if pl_alloc r = NULL then h
    else released h (pl_alloc r) (the (map_of (h_blocks h) (pl_alloc r))))"
  have la: "large_allocs h (l # qs) = (if pl_alloc r = NULL then [] else [pl_alloc r]) @ large_allocs h qs"
    using r(1) by (simp add: large_allocs_Cons alloc_of_def)
  have step: "(if pl_alloc r \<noteq> NULL then ngx_free h (pl_alloc r) else Some h) = Some h1
    \<and> agree_in h h1 bs ps \<and> h_mem h1 = h_mem h \<and> h_calls h1 = h_calls h
    \<and> h_blocks h1 = filter (\<lambda>b. fst b \<noteq> pl_alloc r) (h_blocks h) \<and> blocks_ok (h_blocks h1)"
  proof (cases "pl_alloc r = NULL")
    case True
    have "NULL \<notin> fst ` set (h_blocks h)" using Cons.prems(1) by (auto simp: blocks_ok_def)
    then have "filter (\<lambda>b. fst b \<noteq> NULL) (h_blocks h) = h_blocks h" by (force simp: filter_id_conv)
    then show ?thesis using True Cons.prems(1) by (simp add: h1_def agree_in_def)
  next
    case False
    then obtain n where n: "(pl_alloc r, n) \<in> set (h_blocks h)" "pl_alloc r \<notin> set bs"
      using Cons.prems(6) la by force
    note mo = blocks_okD(3) [OF Cons.prems(1) n(1)]
    have out: "outside (pl_alloc r) n f a = f a" if "b \<in> set bs" "unat a \<in> region b ps"
      for f :: "addr \<Rightarrow> 'x option" and a b
      using outside_block [OF Cons.prems(1) n(1), of b ps a f] that Cons.prems(2) n(2) by auto
    show ?thesis
      using False ngx_free_block [OF Cons.prems(1) n(1)] released_blocks_ok [OF Cons.prems(1)]
      by (simp add: h1_def mo agree_in_def out)
  qed
  then have blk1: "h_blocks h1 = filter (\<lambda>b. fst b \<noteq> pl_alloc r) (h_blocks h)" by blast
  have larges: "h_larges h1 a = h_larges h a" if a: "a \<in> set (l # qs)" for a
  proof -
    obtain b where "b \<in> set bs" "unat a \<in> region b ps" using Cons.prems(4) a by blast
    then show ?thesis using step by (auto simp: agree_in_def)
  qed
  have la1: "large_allocs h1 qs = large_allocs h qs"
    unfolding large_allocs_def using larges by (intro arg_cong [of _ _ "filter _"] map_cong) (auto simp: alloc_of_def)
  have "linked (pl_next_at h1) (pl_next r) qs"
    by (rule linked_frame [OF r(2)]) (simp add: pl_next_at_def larges)
  moreover have "\<forall>b \<in> set bs. (b, ps) \<in> set (h_blocks h1)"
  proof
    fix b assume b: "b \<in> set bs"
    then have "(b, ps) \<in> set (h_blocks h)" using Cons.prems(2) by blast
    moreover from this have "b \<noteq> NULL" by (rule blocks_okD(1) [OF Cons.prems(1)])
    moreover have "pl_alloc r = NULL \<or> pl_alloc r \<notin> set bs" using Cons.prems(6) la by auto
    ultimately show "(b, ps) \<in> set (h_blocks h1)" using b blk1 by auto
  qed
  moreover have "distinct (large_allocs h1 qs)" using Cons.prems(5) la la1 by simp
  moreover have "set (large_allocs h1 qs) \<subseteq> fst ` set (h_blocks h1) - set bs"
  proof
    fix a assume a: "a \<in> set (large_allocs h1 qs)"
    have "NULL \<notin> set (large_allocs h qs)" by (simp add: large_allocs_def)
    moreover have "pl_alloc r \<noteq> NULL \<longrightarrow> pl_alloc r \<notin> set (large_allocs h qs)"
      using Cons.prems(5) la by auto
    ultimately have "a \<noteq> pl_alloc r" using a la1 by auto
    moreover have "a \<in> fst ` set (h_blocks h) - set bs" using a Cons.prems(6) la la1 by auto
    ultimately show "a \<in> fst ` set (h_blocks h1) - set bs" using blk1 by auto
  qed
  ultimately obtain h' where h': "free_larges h1 (pl_next r) = Some h'" "agree_in h1 h' bs ps"
    "h_mem h' = h_mem h1" "h_calls h' = h_calls h1"
    "h_blocks h' = filter (\<lambda>b. fst b \<notin> set (large_allocs h1 qs)) (h_blocks h1)"
    using Cons.IH [of h1 "pl_next r"] Cons.prems(4) step by auto
  have "free_larges h q = Some h'"
    using q r(1) step larges h'(1) by (subst free_larges.simps) simp
  moreover have "agree_in h h' bs ps" using step h'(2) by (simp add: agree_in_def)
  moreover have "h_blocks h' = filter (\<lambda>b. fst b \<notin> set (large_allocs h (l # qs))) (h_blocks h)"
  proof -
    have "NULL \<notin> fst ` set (h_blocks h)" using Cons.prems(1) by (auto simp: blocks_ok_def)
    then have "x \<in> set (h_blocks h) \<Longrightarrow> fst x \<noteq> NULL" for x by force
    then show ?thesis unfolding h'(5) blk1 filter_filter la la1 by (intro filter_cong) auto
  qed
  ultimately show ?case using h' step by auto
qed

subsection \<open>Reset\<close>

definition rewound :: "heap \<Rightarrow> addr list \<Rightarrow> heap" where
  "rewound h bs = h\<lparr>h_pds := (\<lambda>a. if a \<in> set bs
     then map_option (\<lambda>d. d\<lparr>pd_last := a + 80, pd_failed := 0\<rparr>) (h_pds h a) else h_pds h a)\<rparr>"

lemma reset_blocks_correct:
  assumes "linked (pd_next_at h) q qs" "\<forall>b \<in> set qs. live h b 32"
  shows "reset_blocks h q = Some (rewound h qs)"
  using assms
proof (induction qs arbitrary: h q)
  case Nil
  then show ?case by (subst reset_blocks.simps) (simp add: rewound_def)
next
  case (Cons b qs)
  then obtain q' where q: "q = b" "b \<noteq> NULL" "pd_next_at h b = Some q'" "linked (pd_next_at h) q' qs"
    by auto
  then obtain d where d: "h_pds h b = Some d" "pd_next d = q'" by (auto simp: pd_next_at_def [of h b])
  have b: "b \<notin> set qs" using linked_distinct [OF Cons.prems(1)] by simp
  define h1 where "h1 = h\<lparr>h_pds := (h_pds h)(b \<mapsto> d\<lparr>pd_last := b + 80, pd_failed := 0\<rparr>)\<rparr>"
  have "linked (pd_next_at h1) q' qs"
    by (rule linked_frame [OF q(4)]) (use b in \<open>auto simp: pd_next_at_def h1_def\<close>)
  moreover have "\<forall>b \<in> set qs. live h1 b 32" using Cons.prems(2) by (simp add: h1_def live_def)
  ultimately have "reset_blocks h1 q' = Some (rewound h1 qs)" by (rule Cons.IH)
  moreover have "rewound h1 qs = rewound h (b # qs)"
    unfolding rewound_def h1_def using b d(1)
    by (intro heap.equality) (auto simp: fun_eq_iff)
  ultimately show ?case
    using q(1,2) d Cons.prems(2)
    by (subst reset_blocks.simps) (simp add: put_pd_def sizeof_defs h1_def)
qed

lemma pool_region: "chain_ok h pool bs ps \<Longrightarrow> b \<in> set bs \<Longrightarrow> unat b \<in> region b ps"
  by (simp add: chain_ok_def region_def)

lemma cut_from_region:
  assumes "cut_from h bs ps l n" "0 < unat n"
  shows "\<exists>b \<in> set bs. unat l \<in> region b ps"
proof -
  obtain b where b: "b \<in> set bs" "unat b + 32 \<le> unat l" "unat l + unat n \<le> unat b + unat ps"
    using assms(1) by (auto simp: cut_from_def)
  then have "unat l \<in> region b ps" using assms(2) by (simp add: region_def)
  with b(1) show ?thesis by blast
qed

lemma pool_larges_freed:
  assumes "pool_ok h pool bs ls ps" "h_pms h pool = Some m"
  shows "\<exists>h'. free_larges h (pm_large m) = Some h' \<and> agree_in h h' bs ps \<and> h_mem h' = h_mem h
    \<and> h_calls h' = h_calls h
    \<and> h_blocks h' = filter (\<lambda>b. fst b \<notin> set (large_allocs h ls)) (h_blocks h)"
proof -
  note ok = pool_okD [OF assms(1)]
  have "linked (pl_next_at h) (pm_large m) ls" using ok(8) assms(2) by auto
  moreover have "\<forall>l \<in> set ls. \<exists>b \<in> set bs. unat l \<in> region b ps"
    using ok(5) cut_from_region [of h bs ps _ 16] by simp
  moreover have "\<forall>b \<in> set bs. (b, ps) \<in> set (h_blocks h)" using chain_ok_block [OF ok(1)] by blast
  ultimately show ?thesis using free_larges_correct [OF ok(2)] ok(6,7) by blast
qed

lemma ngx_reset_pool_ok:
  assumes "pool_ok h pool bs ls ps"
  shows "\<exists>h'. ngx_reset_pool h pool = Some h' \<and> pool_ok h' pool bs [] ps \<and> h_mem h' = h_mem h
    \<and> h_blocks h' = filter (\<lambda>b. fst b \<notin> set (large_allocs h ls)) (h_blocks h)
    \<and> used h' bs [] = (\<Union>b \<in> set bs. {unat b ..< unat b + 80})"
proof -
  note ok = pool_okD [OF assms]
  have ch: "linked (pd_next_at h) pool bs" "8 dvd unat ps" "80 \<le> unat ps" "bs \<noteq> []"
    using ok(1) by (simp_all add: chain_ok_def)
  obtain m where m: "h_pms h pool = Some m" using ok(8) by auto
  obtain h1 where h1: "free_larges h (pm_large m) = Some h1" "agree_in h h1 bs ps" "h_mem h1 = h_mem h"
    "h_blocks h1 = filter (\<lambda>b. fst b \<notin> set (large_allocs h ls)) (h_blocks h)"
    using pool_larges_freed [OF assms m] by blast
  have same: "h_pds h1 b = h_pds h b" "h_pms h1 b = h_pms h b" if "b \<in> set bs" for b
    using h1(2) that pool_region [OF ok(1) that] by (auto simp: agree_in_def)
  have blk: "(b, ps) \<in> set (h_blocks h1)" if "b \<in> set bs" for b
    using chain_ok_block [OF ok(1) that] ok(7) that h1(4) by auto
  have pool: "pool \<in> set bs" using chain_ok_pool [OF ok(1)] by auto
  have lk1: "linked (pd_next_at h1) pool bs"
    by (rule linked_frame [OF ch(1)]) (simp add: pd_next_at_def same)
  have "live h1 b 32" if "b \<in> set bs" for b using blk [OF that] ch(3) by (intro liveI) auto
  then have rs: "reset_blocks h1 pool = Some (rewound h1 bs)"
    using reset_blocks_correct [OF lk1] by blast
  define m' where "m' = m\<lparr>pm_current := pool, pm_chain := NULL, pm_large := NULL\<rparr>"
  define h' where "h' = (rewound h1 bs)\<lparr>h_pms := (h_pms h1)(pool \<mapsto> m')\<rparr>"
  have "live (rewound h1 bs) pool 80"
    using blk [OF pool] ch(3) by (intro liveI [of pool ps]) (auto simp: rewound_def)
  then have run: "ngx_reset_pool h pool = Some h'"
    using m h1(1) rs same(2) [OF pool]
    by (simp add: ngx_reset_pool_def put_pm_def sizeof_defs h'_def m'_def) (simp add: rewound_def)
  have pd': "\<exists>d. h_pds h b = Some d \<and> h_pds h' b = Some (d\<lparr>pd_last := b + 80, pd_failed := 0\<rparr>)
      \<and> pd_end d = b + ps \<and> unat (b + 80) = unat b + 80 \<and> unat b + unat ps < 2 ^ 63"
    if b: "b \<in> set bs" for b
  proof -
    have "unat (b + 80) = unat b + 80"
      using chain_okD [OF ok(1) b] ch(3) by (subst unat_plus_no_wrap) auto
    then show ?thesis
      using chain_okD [OF ok(1) b] b same(1) [OF b] by (auto simp: h'_def rewound_def)
  qed
  have h'b: "h_blocks h' = h_blocks h1" by (simp add: h'_def rewound_def)
  have "linked (pd_next_at h') pool bs"
    by (rule linked_frame [OF ch(1)]) (use pd' in \<open>fastforce simp: pd_next_at_def\<close>)
  moreover have "block_ok h' pool ps b" if b: "b \<in> set bs" for b
    using pd' [OF b] blk [OF b] ok(1) b ch(3) by (auto simp: block_ok_def chain_ok_def h'b header_def)
  moreover have "blocks_ok (h_blocks h')" using h1(4) h'b blocks_ok_filter [OF ok(2)] by simp
  moreover have pm': "h_pms h' pool = Some m'" by (simp add: h'_def)
  moreover have "unat (pm_max m') \<le> unat ps - 80" using ok(1) m by (auto simp: chain_ok_def m'_def)
  ultimately have "chain_ok h' pool bs ps"
    using ch pool by (simp add: chain_ok_def m'_def)
  then have "pool_ok h' pool bs [] ps"
    using pm' by (simp add: pool_ok_def larges_ok_def large_allocs_def m'_def)
  moreover have "block_used h' b = {unat b ..< unat b + 80}" if "b \<in> set bs" for b
    using pd' [OF that] by (auto simp: block_used_def)
  then have "used h' bs [] = (\<Union>b \<in> set bs. {unat b ..< unat b + 80})"
    by (simp add: used_def taken_def large_allocs_def)
  ultimately show ?thesis
    using run h1(3,4) h'b by (auto simp: h'_def rewound_def)
qed

subsection \<open>Cleanups and destruction\<close>

definition pc_next_at :: "heap \<Rightarrow> addr \<Rightarrow> addr option" where
  "pc_next_at h c = map_option pc_next (h_cleanups h c)"

definition cleanups_ok :: "heap \<Rightarrow> addr \<Rightarrow> addr list \<Rightarrow> addr list \<Rightarrow> addr list \<Rightarrow> bool" where
  "cleanups_ok h pool bs ls cs \<longleftrightarrow>
     (\<exists>m. h_pms h pool = Some m \<and> linked (pc_next_at h) (pm_cleanup m) cs)
     \<and> (\<forall>c \<in> set cs. live h c 24 \<and> region c 24 \<subseteq> used h bs ls)"

text \<open>The calls that destroying the pool makes: the registered handlers, latest first.\<close>

definition cleanup_calls :: "heap \<Rightarrow> addr list \<Rightarrow> (addr \<times> addr) list" where
  "cleanup_calls h cs = filter (\<lambda>c. fst c \<noteq> NULL)
     (map (\<lambda>c. case h_cleanups h c of None \<Rightarrow> (NULL, NULL) | Some r \<Rightarrow> (pc_handler r, pc_data r)) cs)"

text \<open>A handler works on its data and leaves the allocator's structures alone.\<close>

definition handlers_ok :: "libc \<Rightarrow> bool" where
  "handlers_ok env \<longleftrightarrow> (\<forall>f d h. \<exists>m. lc_handler env f d h = Some (h\<lparr>h_mem := m\<rparr>))"

lemma run_cleanups_correct:
  assumes "handlers_ok env" "linked (pc_next_at h) q cs"
  shows "\<exists>m. run_cleanups env h q = Some (h\<lparr>h_mem := m, h_calls := h_calls h @ cleanup_calls h cs\<rparr>)"
  using assms(2)
proof (induction cs arbitrary: h q)
  case Nil
  then show ?case by (subst run_cleanups.simps) (auto simp: cleanup_calls_def intro: exI [of _ "h_mem h"])
next
  case (Cons c cs)
  then obtain q' where q: "q = c" "c \<noteq> NULL" "pc_next_at h c = Some q'" "linked (pc_next_at h) q' cs" by auto
  then obtain r where r: "h_cleanups h c = Some r" "pc_next r = q'" by (auto simp: pc_next_at_def [of h c])
  define cl where "cl = (if pc_handler r = NULL then [] else [(pc_handler r, pc_data r)])"
  obtain m where m: "(if pc_handler r \<noteq> NULL
      then lc_handler env (pc_handler r) (pc_data r) (h\<lparr>h_calls := h_calls h @ [(pc_handler r, pc_data r)]\<rparr>)
      else Some h) = Some (h\<lparr>h_mem := m, h_calls := h_calls h @ cl\<rparr>)"
  proof (cases "pc_handler r = NULL")
    case True
    then show ?thesis using that [of "h_mem h"] by (simp add: cl_def)
  next
    case False
    obtain m where "lc_handler env (pc_handler r) (pc_data r) (h\<lparr>h_calls := h_calls h @ [(pc_handler r, pc_data r)]\<rparr>)
      = Some (h\<lparr>h_calls := h_calls h @ [(pc_handler r, pc_data r)], h_mem := m\<rparr>)"
      using assms(1) unfolding handlers_ok_def by blast
    then show ?thesis using that [of m] False by (simp add: cl_def)
  qed
  define h1 where "h1 = h\<lparr>h_mem := m, h_calls := h_calls h @ cl\<rparr>"
  have "linked (pc_next_at h1) q' cs" by (rule linked_frame [OF q(4)]) (simp add: pc_next_at_def h1_def)
  then obtain m' where m': "run_cleanups env h1 q' = Some (h1\<lparr>h_mem := m', h_calls := h_calls h1 @ cleanup_calls h1 cs\<rparr>)"
    using Cons.IH [of h1 q'] by blast
  have "cleanup_calls h (c # cs) = cl @ cleanup_calls h1 cs"
    using r(1) by (simp add: cleanup_calls_def cl_def h1_def)
  then have "run_cleanups env h q = Some (h\<lparr>h_mem := m', h_calls := h_calls h @ cleanup_calls h (c # cs)\<rparr>)"
    using q(1,2) r m m' by (subst run_cleanups.simps) (simp add: h1_def)
  then show ?case by blast
qed

lemma pool_ok_calls [simp]:
  "pool_ok (h\<lparr>h_calls := x\<rparr>) pool bs ls ps = pool_ok h pool bs ls ps"
  by (simp add: pool_ok_def chain_ok_def larges_ok_def block_ok_def cut_from_def taken_def
      block_used_def large_allocs_def alloc_of_def [abs_def] pd_next_at_def [abs_def]
      pl_next_at_def [abs_def])

lemma large_allocs_mem_calls [simp]:
  "large_allocs (h\<lparr>h_mem := m\<rparr>) ls = large_allocs h ls" "large_allocs (h\<lparr>h_calls := x\<rparr>) ls = large_allocs h ls"
  by (simp_all add: large_allocs_def alloc_of_def [abs_def])

lemma destroy_pool_reaches:
  assumes "handlers_ok env" "pool_ok h pool bs ls ps" "cleanups_ok h pool bs ls cs"
  obtains h2 and d :: ngx_pool_data_t and cs' where "\<forall>fr. destroy_pool_with fr env h pool = free_blocks fr pool h2 (pd_next d)"
    "blocks_ok (h_blocks h2)" "\<forall>b \<in> set bs. (b, ps) \<in> set (h_blocks h2) \<and> (\<exists>e. h_pds h2 b = Some e)"
    "bs = pool # cs'" "linked (pd_next_at h2) (pd_next d) cs'" "h_calls h2 = h_calls h @ cleanup_calls h cs"
    "h_blocks h2 = filter (\<lambda>b. fst b \<notin> set (large_allocs h ls)) (h_blocks h)"
    "\<forall>b \<in> set bs. unat b \<in> region b ps" "distinct bs"
proof -
  obtain m where m: "h_pms h pool = Some m" "linked (pc_next_at h) (pm_cleanup m) cs"
    using assms(3) by (auto simp: cleanups_ok_def)
  obtain x where x: "run_cleanups env h (pm_cleanup m) = Some (h\<lparr>h_mem := x, h_calls := h_calls h @ cleanup_calls h cs\<rparr>)"
    using run_cleanups_correct [OF assms(1) m(2)] by blast
  define h1 where "h1 = h\<lparr>h_mem := x, h_calls := h_calls h @ cleanup_calls h cs\<rparr>"
  have ok1: "pool_ok h1 pool bs ls ps" and la1: "large_allocs h1 ls = large_allocs h ls"
    using assms(2) by (simp_all add: h1_def)
  note ok = pool_okD [OF ok1]
  have m1: "h_pms h1 pool = Some m" using m(1) by (simp add: h1_def)
  obtain h2 where h2: "free_larges h1 (pm_large m) = Some h2" "agree_in h1 h2 bs ps" "h_calls h2 = h_calls h1"
    "h_blocks h2 = filter (\<lambda>b. fst b \<notin> set (large_allocs h1 ls)) (h_blocks h1)"
    using pool_larges_freed [OF ok1 m1] by blast
  have b2: "blocks_ok (h_blocks h2)" using h2(4) blocks_ok_filter [OF ok(2)] by simp
  have blk: "(b, ps) \<in> set (h_blocks h2)" if "b \<in> set bs" for b
    using chain_ok_block [OF ok(1) that] ok(7) that h2(4) by auto
  have pds: "h_pds h2 b = h_pds h1 b" if "b \<in> set bs" for b
    using h2(2) that pool_region [OF ok(1) that] by (auto simp: agree_in_def)
  obtain cs' where bs: "bs = pool # cs'" using chain_ok_pool [OF ok(1)] by blast
  then have pool: "pool \<in> set bs" by simp
  obtain d where d: "h_pds h1 pool = Some d" using chain_okD [OF ok(1) pool] by blast
  have dist: "distinct bs" using ok(1) linked_distinct unfolding chain_ok_def by blast
  have "linked (pd_next_at h1) (pd_next d) cs'"
    using ok(1) bs d by (auto simp: chain_ok_def)
  then have lk: "linked (pd_next_at h2) (pd_next d) cs'"
    by (rule linked_frame) (use pds bs in \<open>simp add: pd_next_at_def\<close>)
  have run: "\<forall>fr. destroy_pool_with fr env h pool = free_blocks fr pool h2 (pd_next d)"
    using m(1) x m1 h2(1) d pds [OF pool] by (simp add: destroy_pool_with_def h1_def [symmetric])
  have ex: "\<exists>e. h_pds h2 b = Some e" if "b \<in> set bs" for b
    using chain_okD [OF ok(1) that] pds [OF that] by metis
  have logs: "h_calls h2 = h_calls h @ cleanup_calls h cs"
    "h_blocks h2 = filter (\<lambda>b. fst b \<notin> set (large_allocs h ls)) (h_blocks h)"
    using h2(3,4) la1 by (simp_all add: h1_def)
  show ?thesis
  proof (rule that [of h2 d cs'])
    show "\<forall>b \<in> set bs. (b, ps) \<in> set (h_blocks h2) \<and> (\<exists>e. h_pds h2 b = Some e)" using blk ex by blast
    show "\<forall>b \<in> set bs. unat b \<in> region b ps" using pool_region [OF ok(1)] by blast
  qed (use run b2 bs lk logs dist in simp_all)
qed

lemma ngx_destroy_pool_effect:
  assumes "handlers_ok env" "pool_ok h pool bs ls ps" "cleanups_ok h pool bs ls cs"
  shows "if bs = [pool]
    then \<exists>h'. ngx_destroy_pool env h pool = Some h' \<and> h_calls h' = h_calls h @ cleanup_calls h cs
      \<and> h_blocks h' = filter (\<lambda>b. fst b \<notin> insert pool (set (large_allocs h ls))) (h_blocks h)
    else ngx_destroy_pool env h pool = None"
proof (rule destroy_pool_reaches [OF assms])
  fix h2 and d :: ngx_pool_data_t and cs' assume r: "\<forall>fr. destroy_pool_with fr env h pool = free_blocks fr pool h2 (pd_next d)"
    "blocks_ok (h_blocks h2)" "\<forall>b \<in> set bs. (b, ps) \<in> set (h_blocks h2) \<and> (\<exists>e. h_pds h2 b = Some e)"
    "bs = pool # cs'" "linked (pd_next_at h2) (pd_next d) cs'" "h_calls h2 = h_calls h @ cleanup_calls h cs"
    "h_blocks h2 = filter (\<lambda>b. fst b \<notin> set (large_allocs h ls)) (h_blocks h)"
    "\<forall>b \<in> set bs. unat b \<in> region b ps" "distinct bs"
  have pool: "(pool, ps) \<in> set (h_blocks h2)" using r(3,4) by simp
  define h3 where "h3 = released h2 pool ps"
  have f1: "ngx_free h2 pool = Some h3" using ngx_free_block [OF r(2) pool] by (simp add: h3_def)
  have run: "ngx_destroy_pool env h pool = free_blocks ngx_free pool h2 (pd_next d)"
    by (simp add: ngx_destroy_pool_def r(1))
  show ?thesis
  proof (cases cs')
    case Nil
    then have "ngx_destroy_pool env h pool = Some h3"
      using r(5) f1 run by (simp add: free_blocks.simps)
    moreover have "h_blocks h3 = filter (\<lambda>b. fst b \<notin> insert pool (set (large_allocs h ls))) (h_blocks h)"
      by (auto simp: h3_def r(7) intro: filter_cong)
    moreover have "h_calls h3 = h_calls h @ cleanup_calls h cs" by (simp add: h3_def r(6))
    ultimately show ?thesis using r(4) Nil by simp
  next
    case (Cons b ds)
    then have n: "pd_next d = b" "b \<noteq> NULL" using r(5) by auto
    have b: "b \<in> set bs" "b \<noteq> pool" using r(4,9) Cons by auto
    then obtain e where e: "h_pds h2 b = Some e" "(b, ps) \<in> set (h_blocks h2)" "unat b \<in> region b ps" using r(3,8) by blast
    have "h_pds h3 b = Some e"
      using outside_block [OF r(2) pool e(2) b(2) e(3), of "h_pds h2"] e(1) by (simp add: h3_def)
    moreover have "ngx_free h3 pool = None"
      using blocks_okD(1) [OF r(2) pool] by (intro ngx_free_unknown) (auto simp: h3_def)
    ultimately have "free_blocks ngx_free pool h2 (pd_next d) = None"
      using f1 n by (subst free_blocks.simps) (simp, subst free_blocks.simps, simp)
    then show ?thesis using run r(4) Cons by simp
  qed
qed

text \<open>A \<^verbatim>\<open>free\<close> that only notes its argument, as a call of no handler: what the loop passes to it.\<close>

definition note_free :: "heap \<Rightarrow> addr \<Rightarrow> heap option" where
  "note_free h p = Some (h\<lparr>h_calls := h_calls h @ [(NULL, p)]\<rparr>)"

lemma free_blocks_noted:
  "linked (pd_next_at h) n qs \<Longrightarrow>
   \<exists>h'. free_blocks note_free pool h n = Some h' \<and> h_calls h' = h_calls h @ replicate (Suc (length qs)) (NULL, pool)"
proof (induction qs arbitrary: h n)
  case Nil
  then show ?case by (simp add: free_blocks.simps note_free_def)
next
  case (Cons b qs)
  define g where "g = h\<lparr>h_calls := h_calls h @ [(NULL, pool)]\<rparr>"
  obtain d where d: "n = b" "b \<noteq> NULL" "h_pds h b = Some d" "linked (pd_next_at h) (pd_next d) qs"
    using Cons.prems that by (cases "h_pds h b") (auto simp: pd_next_at_def [of h b])
  have "pd_next_at g = pd_next_at h" by (rule ext) (simp add: g_def pd_next_at_def)
  then obtain h' where "free_blocks note_free pool g (pd_next d) = Some h'"
    "h_calls h' = h_calls g @ replicate (Suc (length qs)) (NULL, pool)"
    using Cons.IH [of g "pd_next d"] d(4) by auto
  then show ?case
    using d by (subst free_blocks.simps) (simp add: note_free_def g_def [symmetric], simp add: g_def)
qed

lemma destroy_pool_noted:
  assumes "handlers_ok env" "pool_ok h pool bs ls ps" "cleanups_ok h pool bs ls cs"
  shows "\<exists>h'. destroy_pool_with note_free env h pool = Some h'
    \<and> h_calls h' = h_calls h @ cleanup_calls h cs @ replicate (length bs) (NULL, pool)"
proof (rule destroy_pool_reaches [OF assms])
  fix h2 d cs' assume r: "\<forall>fr. destroy_pool_with fr env h pool = free_blocks fr pool h2 (pd_next d)"
    "bs = pool # cs'" "linked (pd_next_at h2) (pd_next d) cs'" "h_calls h2 = h_calls h @ cleanup_calls h cs"
  show ?thesis using free_blocks_noted [OF r(3), of pool] r by auto
qed


text \<open>Registering a cleanup.\<close>

lemma cleanups_ok_frame:
  assumes "cleanups_ok h pool bs ls cs" "client_frame h h'" "used h bs ls \<subseteq> used h' bs' ls'" "live h pool 80"
  shows "cleanups_ok h' pool bs' ls' cs"
proof -
  obtain m where m: "h_pms h pool = Some m" "linked (pc_next_at h) (pm_cleanup m) cs"
    using assms(1) by (auto simp: cleanups_ok_def)
  have lv: "live h a 1" if "live h a n" "0 < unat n" for a n using live_1 that by blast
  have "map_option (\<lambda>m. m\<lparr>pm_current := NULL, pm_large := NULL\<rparr>) (h_pms h' pool)
      = Some (m\<lparr>pm_current := NULL, pm_large := NULL\<rparr>)"
    using assms(2) lv [OF assms(4)] m(1) by (simp add: client_frame_def)
  then obtain m' where m': "h_pms h' pool = Some m'"
    "m'\<lparr>pm_current := NULL, pm_large := NULL\<rparr> = m\<lparr>pm_current := NULL, pm_large := NULL\<rparr>" by auto
  have "pm_cleanup m' = pm_cleanup (m'\<lparr>pm_current := NULL, pm_large := NULL\<rparr>)" by simp
  also have "\<dots> = pm_cleanup m" unfolding m'(2) by simp
  finally have "pm_cleanup m' = pm_cleanup m" .
  moreover have "linked (pc_next_at h') (pm_cleanup m) cs"
    by (rule linked_frame [OF m(2)])
      (use assms(1,2) lv [of _ 24] in \<open>auto simp: cleanups_ok_def client_frame_def pc_next_at_def\<close>)
  ultimately show ?thesis
    using assms(1-3) m'(1) by (auto simp: cleanups_ok_def client_frame_def)
qed

lemma pool_ok_cleanup [simp]:
  "pool_ok (h\<lparr>h_cleanups := x\<rparr>) pool bs ls ps = pool_ok h pool bs ls ps"
  "used (h\<lparr>h_cleanups := x\<rparr>) bs ls = used h bs ls" "live (h\<lparr>h_cleanups := x\<rparr>) p n = live h p n"
  by (simp_all add: pool_ok_def chain_ok_def larges_ok_def block_ok_def cut_from_def taken_def
      block_used_def used_def large_allocs_def alloc_of_def [abs_def] pd_next_at_def [abs_def]
      pl_next_at_def [abs_def] live_def)

lemma pool_ok_head_cleanup:
  assumes "pool_ok h pool bs ls ps" "h_pms h pool = Some m"
  shows "pool_ok (h\<lparr>h_pms := (h_pms h)(pool \<mapsto> m\<lparr>pm_cleanup := c\<rparr>)\<rparr>) pool bs ls ps"
    "used (h\<lparr>h_pms := x\<rparr>) bs ls = used h bs ls" "live (h\<lparr>h_pms := x\<rparr>) p n = live h p n"
proof -
  let ?h = "h\<lparr>h_pms := (h_pms h)(pool \<mapsto> m\<lparr>pm_cleanup := c\<rparr>)\<rparr>"
  have "pd_next_at ?h = pd_next_at h" "pl_next_at ?h = pl_next_at h" "alloc_of ?h = alloc_of h"
    by (simp_all add: pd_next_at_def [abs_def] pl_next_at_def [abs_def] alloc_of_def [abs_def])
  then show "pool_ok ?h pool bs ls ps"
    using assms by (auto simp: pool_ok_def chain_ok_def larges_ok_def block_ok_def cut_from_def taken_def
      block_used_def large_allocs_def)
  show "used (h\<lparr>h_pms := x\<rparr>) bs ls = used h bs ls" "live (h\<lparr>h_pms := x\<rparr>) p n = live h p n"
    by (simp_all add: used_def taken_def block_used_def large_allocs_def alloc_of_def [abs_def] live_def)
qed

definition set_cleanup :: "heap \<Rightarrow> addr \<Rightarrow> ngx_pool_cleanup_t \<Rightarrow> heap" where
  "set_cleanup h c r = h\<lparr>h_cleanups := (h_cleanups h)(c \<mapsto> r)\<rparr>"

lemma cleanup_link:
  assumes "pool_ok h pool bs ls ps" "cleanups_ok h pool bs ls cs" "h_pms h pool = Some m" "c \<noteq> NULL"
    "c \<notin> set cs" "live h c 24" "region c 24 \<subseteq> used h bs ls"
  shows "let h' = (set_cleanup h c \<lparr>pc_handler = f, pc_data = d, pc_next = pm_cleanup m\<rparr>)
      \<lparr>h_pms := (h_pms h)(pool \<mapsto> m\<lparr>pm_cleanup := c\<rparr>)\<rparr>
    in pool_ok h' pool bs ls ps \<and> cleanups_ok h' pool bs ls (c # cs) \<and> used h' bs ls = used h bs ls"
proof -
  define g where "g = set_cleanup h c \<lparr>pc_handler = f, pc_data = d, pc_next = pm_cleanup m\<rparr>"
  define h' where "h' = g\<lparr>h_pms := (h_pms g)(pool \<mapsto> m\<lparr>pm_cleanup := c\<rparr>)\<rparr>"
  have g: "pool_ok g pool bs ls ps" "used g bs ls = used h bs ls" "h_pms g pool = Some m" "\<And>p n. live g p n = live h p n"
    using assms(1,3) by (simp_all add: g_def set_cleanup_def)
  note p = pool_ok_head_cleanup [OF g(1,3)]
  have ok: "pool_ok h' pool bs ls ps" and u: "used h' bs ls = used h bs ls"
    and lv: "\<And>p n. live h' p n = live h p n"
    using p(1) by (simp_all add: h'_def p(2,3) g)
  have lk: "linked (pc_next_at h) (pm_cleanup m) cs" using assms(2,3) by (auto simp: cleanups_ok_def)
  have "linked (pc_next_at h') (pm_cleanup m) cs"
    by (rule linked_frame [OF lk]) (use assms(5) in \<open>auto simp: pc_next_at_def h'_def g_def set_cleanup_def\<close>)
  moreover have "pc_next_at h' c = Some (pm_cleanup m)"
    by (simp add: pc_next_at_def h'_def g_def set_cleanup_def)
  ultimately have "linked (pc_next_at h') c (c # cs)" using assms(4) by simp
  moreover have "h_pms h' pool = Some (m\<lparr>pm_cleanup := c\<rparr>)" by (simp add: h'_def)
  ultimately have "cleanups_ok h' pool bs ls (c # cs)"
    using assms(2,6,7) by (simp add: cleanups_ok_def u lv)
  with ok u show ?thesis by (simp add: h'_def g_def Let_def set_cleanup_def)
qed

lemma alloc_result_used: "alloc_result h bs ls n p h' bs' ls' \<Longrightarrow> used h bs ls \<subseteq> used h' bs' ls'"
  by (auto simp: alloc_result_def split: if_splits)

lemma ngx_pool_cleanup_add_ok:
  assumes "libc_ok env" "local_null env" "pool_ok h pool bs ls ps" "cleanups_ok h pool bs ls cs"
  shows "\<exists>c h' bs' ls'. ngx_pool_cleanup_add env h pool sz = Some (c, h') \<and> pool_ok h' pool bs' ls' ps
    \<and> used h bs ls \<subseteq> used h' bs' ls' \<and> (\<forall>a \<in> set cs. h_cleanups h' a = h_cleanups h a)
    \<and> (if c = NULL then cleanups_ok h' pool bs' ls' cs
       else cleanups_ok h' pool bs' ls' (c # cs) \<and> region c 24 \<inter> used h bs ls = {}
         \<and> (\<exists>data nx. h_cleanups h' c = Some \<lparr>pc_handler = NULL, pc_data = data, pc_next = nx\<rparr>
              \<and> (if sz = 0 then data = NULL
                 else data \<noteq> NULL \<and> region data sz \<inter> (used h bs ls \<union> region c 24) = {}
                   \<and> region data sz \<subseteq> used h' bs' ls')))"
proof -
  have live_pool: "live h pool 80" using chain_ok_size [OF pool_okD(1) [OF assms(3)]] by blast
  have old: "h_cleanups h' a = h_cleanups h a" if "client_frame h h'" "a \<in> set cs" for h' a
    using that assms(4) live_1 [of h a 24] by (simp add: client_frame_def cleanups_ok_def)
  obtain c h1 bs1 ls1 where c: "ngx_palloc env h pool 24 = Some (c, h1)" "pool_ok h1 pool bs1 ls1 ps"
    "alloc_result h bs ls 24 c h1 bs1 ls1"
    using ngx_palloc_correct_pool [OF assms(1-3)] by blast
  have fr1: "client_frame h h1" using c(3) by (simp add: alloc_result_def)
  note u1 = alloc_result_used [OF c(3)]
  have co1: "cleanups_ok h1 pool bs1 ls1 cs" by (rule cleanups_ok_frame [OF assms(4) fr1 u1 live_pool])
  show ?thesis
  proof (cases "c = NULL")
    case True
    then have "ngx_pool_cleanup_add env h pool sz = Some (NULL, h1)"
      using c(1) by (simp add: ngx_pool_cleanup_add_def sizeof_defs)
    then show ?thesis using True c(2) u1 co1 old [OF fr1] by auto
  next
    case False
    then have c1: "live h1 c 24" "region c 24 \<inter> used h bs ls = {}" "region c 24 \<subseteq> used h1 bs1 ls1"
      using c(3) by (auto simp: alloc_result_def)
    have cin: "unat c \<in> region c 24" by (simp add: region_def)
    have c_new: "c \<notin> set cs"
      using cin c1(2) assms(4) unfolding cleanups_ok_def by blast
    obtain data h2 bs2 ls2 where d: "(if sz \<noteq> 0 then ngx_palloc env h1 pool sz else Some (NULL, h1)) = Some (data, h2)"
      "pool_ok h2 pool bs2 ls2 ps" "client_frame h1 h2" "used h1 bs1 ls1 \<subseteq> used h2 bs2 ls2"
      "sz = 0 \<longrightarrow> data = NULL"
      "data \<noteq> NULL \<longrightarrow> region data sz \<inter> used h1 bs1 ls1 = {} \<and> region data sz \<subseteq> used h2 bs2 ls2"
    proof (cases "sz = 0")
      case True
      then show ?thesis using that [of NULL h1 bs1 ls1] c(2) by simp
    next
      case False
      obtain p h2 bs2 ls2 where p: "ngx_palloc env h1 pool sz = Some (p, h2)" "pool_ok h2 pool bs2 ls2 ps"
        "alloc_result h1 bs1 ls1 sz p h2 bs2 ls2"
        using ngx_palloc_correct_pool [OF assms(1,2) c(2)] by blast
      have "client_frame h1 h2" "p \<noteq> NULL \<longrightarrow> region p sz \<inter> used h1 bs1 ls1 = {} \<and> region p sz \<subseteq> used h2 bs2 ls2"
        using p(3) by (auto simp: alloc_result_def)
      then show ?thesis using that [of p h2 bs2 ls2] False p(1,2) alloc_result_used [OF p(3)] by simp
    qed
    have live1: "live h1 pool 80" using chain_ok_size [OF pool_okD(1) [OF c(2)]] by blast
    have co2: "cleanups_ok h2 pool bs2 ls2 cs" by (rule cleanups_ok_frame [OF co1 d(3,4) live1])
    have fr2: "client_frame h h2" by (rule client_frame_trans [OF fr1 d(3)])
    have lc2: "live h2 c 24" using d(3) c1(1) by (simp add: client_frame_def)
    have live2: "live h2 pool 80" using chain_ok_size [OF pool_okD(1) [OF d(2)]] by blast
    obtain m where m: "h_pms h2 pool = Some m" using pool_okD(8) [OF d(2)] by auto
    define j where "j = \<lparr>pc_handler = lc_uninit env (h_clock h2), pc_data = data, pc_next = lc_uninit env (h_clock h2)\<rparr>"
    define h3 where "h3 = set_cleanup h2 c j"
    have put: "put_cleanup h2 c j = Some h3" using lc2 by (simp add: put_cleanup_def sizeof_defs h3_def set_cleanup_def)
    have co3: "cleanups_ok h3 pool bs2 ls2 cs"
    proof -
      have "linked (pc_next_at h3) q cs" if "linked (pc_next_at h2) q cs" for q
        by (rule linked_frame [OF that]) (use c_new in \<open>auto simp: pc_next_at_def h3_def set_cleanup_def\<close>)
      then show ?thesis using co2 by (auto simp: cleanups_ok_def h3_def set_cleanup_def)
    qed
    have ok3: "pool_ok h3 pool bs2 ls2 ps" and u3: "used h3 bs2 ls2 = used h2 bs2 ls2"
      using d(2) by (simp_all add: h3_def set_cleanup_def)
    have u: "used h bs ls \<subseteq> used h2 bs2 ls2" using u1 d(4) by blast
    have old3: "\<forall>a \<in> set cs. h_cleanups h3 a = h_cleanups h a"
      using old [OF fr2] c_new by (auto simp: h3_def set_cleanup_def)
    show ?thesis
    proof (cases "sz \<noteq> 0 \<and> data = NULL")
      case True
      then have "ngx_pool_cleanup_add env h pool sz = Some (NULL, h3)"
        using c(1) False d(1) put by (simp add: ngx_pool_cleanup_add_def sizeof_defs j_def)
      then show ?thesis using ok3 u3 u co3 old3 by auto
    next
      case no_fail: False
      define h4 where "h4 = (set_cleanup h3 c \<lparr>pc_handler = NULL, pc_data = data, pc_next = pm_cleanup m\<rparr>)
        \<lparr>h_pms := (h_pms h3)(pool \<mapsto> m\<lparr>pm_cleanup := c\<rparr>)\<rparr>"
      have m3: "h_pms h3 pool = Some m" using m by (simp add: h3_def set_cleanup_def)
      have lc3: "live h3 c 24" using lc2 by (simp add: h3_def set_cleanup_def)
      have cu: "region c 24 \<subseteq> used h3 bs2 ls2" using c1(3) d(4) u3 by blast
      have res: "pool_ok h4 pool bs2 ls2 ps" "cleanups_ok h4 pool bs2 ls2 (c # cs)" "used h4 bs2 ls2 = used h2 bs2 ls2"
        using cleanup_link [OF ok3 co3 m3 False c_new lc3 cu, of NULL data] u3
        by (simp_all add: h4_def Let_def)
      have run: "ngx_pool_cleanup_add env h pool sz = Some (c, h4)"
        using c(1) False d(1) put no_fail m3 lc3 live2
        by (simp add: ngx_pool_cleanup_add_def sizeof_defs j_def [symmetric])
          (simp add: put_cleanup_def put_pm_def sizeof_defs h4_def h3_def set_cleanup_def live_def)
      have old4: "\<forall>a \<in> set cs. h_cleanups h4 a = h_cleanups h a"
        using old3 c_new by (auto simp: h4_def set_cleanup_def)
      have rec: "h_cleanups h4 c = Some \<lparr>pc_handler = NULL, pc_data = data, pc_next = pm_cleanup m\<rparr>"
        by (simp add: h4_def set_cleanup_def)
      have data: "if sz = 0 then data = NULL else data \<noteq> NULL
          \<and> region data sz \<inter> (used h bs ls \<union> region c 24) = {} \<and> region data sz \<subseteq> used h4 bs2 ls2"
        using d(5,6) no_fail u1 c1(3) res(3) by auto
      show ?thesis
        using run res(1,2) u res(3) old4 False c1(2) rec data
        by (intro exI [of _ c] exI [of _ h4] exI [of _ bs2] exI [of _ ls2]) simp
    qed
  qed
qed

end
