(* ===== verification/Ngx_Pool_Props.thy ===== *)
theory Ngx_Pool_Props
  imports Ngx_Pool
begin

text \<open>
  The properties of the memory pool (\<^verbatim>\<open>src/core/ngx_palloc.c\<close>), each applied to a pool of 1024
  bytes at address 4096.
\<close>

subsection \<open>The pool of the witnesses\<close>

definition demo_heap :: heap where
  "demo_heap = snd (the (ngx_create_pool bump_libc empty_heap 1024 0))"

text \<open>What evaluates operations on this pool.\<close>

lemmas demo_eval =
  demo_heap_def ngx_create_pool_def ngx_memalign_def bump_libc_def bump_place_def empty_heap_def
  fresh_def pointer_alignment_def NGX_POOL_ALIGNMENT_def grab_def put_pd_def put_pm_def live_def sizeof_defs
  ngx_palloc_def ngx_palloc_small_def palloc_small_scan.simps ngx_min_def
  NGX_MAX_ALLOC_FROM_POOL_def ngx_align_ptr_def NGX_ALIGMENT_def NGX_OK_def

lemma demo_create: "ngx_create_pool bump_libc empty_heap 1024 0 = Some (4096, demo_heap)"
  by (simp add: demo_heap_def ngx_create_pool_def ngx_memalign_def bump_libc_def bump_place_def
      empty_heap_def fresh_def pointer_alignment_def NGX_POOL_ALIGNMENT_def grab_def put_pd_def put_pm_def live_def sizeof_defs)

lemma demo_values: "h_blocks empty_heap = []" "lc_pagesize bump_libc = 4096"
  by (simp_all add: empty_heap_def bump_libc_def)

lemma demo_ok: "pool_ok demo_heap 4096 [4096] [] 1024"
  "h_blocks demo_heap = [(4096, 1024)]" "used demo_heap [4096] [] = {4096 ..< 4176}"
  "h_pms demo_heap 4096 = Some \<lparr>pm_max = ngx_min 944 4095, pm_current = 4096, pm_chain = NULL,
     pm_large = NULL, pm_cleanup = NULL, pm_log = 0\<rparr>"
  using ngx_create_pool_ok [OF bump_libc_ok bump_libc_local empty_blocks_ok, of 1024 0]
  by (auto simp: demo_create demo_values)

lemma demo_cleanups: "cleanups_ok demo_heap 4096 [4096] [] []"
  by (simp add: cleanups_ok_def demo_ok)

lemma bump_handlers: "handlers_ok bump_libc"
  unfolding handlers_ok_def
proof (intro allI exI)
  show "lc_handler bump_libc f d h = Some (h\<lparr>h_mem := h_mem h\<rparr>)" for f d h by (simp add: bump_libc_def)
qed

subsection \<open>Allocation\<close>

text \<open>
  C10: \<open>ngx_create_pool\<close> with a size of at least 80 bytes that is a multiple of 8 either reports
  a failure and allocates nothing, or returns a fresh block of that size set up as an empty
  pool: only the header is in use, and the largest small request is the smaller of what is left
  and the page size less one. The one other outcome is that \<^verbatim>\<open>posix_memalign\<close> fails while the local that
  \<open>ngx_memalign\<close> returns in its place holds a value other than \<open>NULL\<close>: the header is then stored through that
  value, which is undefined unless it points into live memory.
\<close>

theorem ngx_create_pool_correct:
  assumes "libc_ok env" "blocks_ok (h_blocks h)" "80 \<le> unat sz" "8 dvd unat sz"
  shows "(\<exists>p h'. ngx_create_pool env h sz log = Some (p, h')
    \<and> (p = NULL \<longrightarrow> h_blocks h' = h_blocks h)
    \<and> (p \<noteq> NULL \<longrightarrow> pool_ok h' p [p] [] sz \<and> h_blocks h' = (p, sz) # h_blocks h
         \<and> (\<forall>(b, n) \<in> set (h_blocks h). region p sz \<inter> region b n = {})
         \<and> used h' [p] [] = {unat p ..< unat p + 80}
         \<and> (\<exists>m. h_pms h' p = Some m \<and> unat (pm_max m) = min (unat sz - 80) (unat (lc_pagesize env - 1)))))
    \<or> (wild env h NGX_POOL_ALIGNMENT sz
         \<and> (\<not> live h (lc_local env (h_clock h)) sizeof_ngx_pool_data_t \<longrightarrow> ngx_create_pool env h sz log = None))"
proof (cases "wild env h NGX_POOL_ALIGNMENT sz")
  case True
  have "\<not> live (grab h NULL sz) p n" if "\<not> live h p n" for p n using that by (simp add: live_def)
  then have "ngx_create_pool env h sz log = None" if "\<not> live h (lc_local env (h_clock h)) sizeof_ngx_pool_data_t"
    using that True by (simp add: ngx_create_pool_def ngx_memalign_def wild_def put_pd_def)
  with True show ?thesis by simp
next
  case False
  have "unat (sz - 80) = unat sz - 80" using assms(3) by (simp add: unat_minus_le)
  moreover have "\<forall>(b, n) \<in> set (h_blocks h). region p sz \<inter> region b n = {}"
    if "fresh (h_blocks h) p sz" for p
    using that region_disjoint by (fastforce simp: fresh_def)
  moreover have "ngx_create_pool env h sz log = ngx_create_pool (calm env) h sz log"
    unfolding ngx_create_pool_def calm_max using calm_memalign [OF False] by simp
  ultimately show ?thesis
    using ngx_create_pool_ok [of "calm env", OF _ _ assms(2-4), of log] assms(1) by (auto split: if_splits)
qed

theorem ngx_create_pool_correct_witness:
  "\<exists>h' m. ngx_create_pool bump_libc empty_heap 1024 0 = Some (4096, h') \<and> pool_ok h' 4096 [4096] [] 1024
    \<and> h_pms h' 4096 = Some m \<and> unat (pm_max m) = 944"
  using ngx_create_pool_correct [OF bump_libc_ok empty_blocks_ok, of 1024 0] demo_create
  by (auto simp: demo_values)

text \<open>
  C2: \<open>ngx_palloc\<close> on a well-formed pool returns and keeps the pool well-formed. A pointer
  other than \<open>NULL\<close> is a multiple of 8 and names live memory of the requested size that shares
  no byte with the headers, with an earlier request or with a block of anybody else, and no
  byte of memory is changed. After a failure the same memory is in use as before. The one other
  outcome is that a \<^verbatim>\<open>posix_memalign\<close> call of the request fails while the local that \<open>ngx_memalign\<close>
  returns in its place is not \<open>NULL\<close>: the request is then undefined unless that value points into live memory.
\<close>

theorem ngx_palloc_correct:
  assumes "libc_ok env" "pool_ok h pool bs ls ps"
  shows "(\<exists>p h' bs' ls'. ngx_palloc env h pool sz = Some (p, h') \<and> pool_ok h' pool bs' ls' ps
    \<and> 8 dvd unat p \<and> h_mem h' = h_mem h
    \<and> (p = NULL \<longrightarrow> used h' bs' ls' = used h bs ls)
    \<and> (p \<noteq> NULL \<longrightarrow> live h' p sz \<and> region p sz \<inter> used h bs ls = {}
         \<and> used h bs ls \<union> region p sz \<subseteq> used h' bs' ls'
         \<and> (\<forall>(a, s) \<in> set (h_blocks h). a \<notin> set bs \<longrightarrow> region p sz \<inter> region a s = {})))
    \<or> (\<exists>g. palloc_wild env h pool sz True g
         \<and> (\<not> live g (lc_local env (h_clock g)) sizeof_ngx_pool_data_t \<longrightarrow> ngx_palloc env h pool sz = None))"
proof (cases "\<exists>g. palloc_wild env h pool sz True g")
  case True
  then show ?thesis using wild_palloc by blast
next
  case False
  have "libc_ok (calm env)" "local_null (calm env)" using assms(1) by simp_all
  from ngx_palloc_correct_pool [OF this assms(2), of sz] obtain p h' bs' ls'
    where p: "ngx_palloc env h pool sz = Some (p, h')" "pool_ok h' pool bs' ls' ps"
      "alloc_result h bs ls sz p h' bs' ls'" "8 dvd unat p"
    using calm_palloc False by metis
  then show ?thesis
    by (intro disjI1 exI [of _ p] exI [of _ h'] exI [of _ bs'] exI [of _ ls'])
      (simp add: alloc_result_def client_frame_def split: if_splits)
qed

theorem ngx_palloc_correct_witness:
  "\<exists>p h' bs' ls'. ngx_palloc bump_libc demo_heap 4096 100 = Some (p, h') \<and> 8 dvd unat p
    \<and> pool_ok h' 4096 bs' ls' 1024 \<and> region p 100 \<inter> {4096 ..< 4176} = {}"
proof -
  obtain p h' bs' ls' where "ngx_palloc bump_libc demo_heap 4096 100 = Some (p, h')" "8 dvd unat p"
    "pool_ok h' 4096 bs' ls' 1024" "p \<noteq> NULL \<longrightarrow> region p 100 \<inter> {4096 ..< 4176} = {}"
    using ngx_palloc_correct [OF bump_libc_ok demo_ok(1), of 100] bump_never_wild(3)
    unfolding demo_ok(3) by blast
  moreover have "region NULL 100 \<inter> {4096 ..< 4176} = {}" by (auto simp: region_def)
  ultimately show ?thesis by metis
qed

fun serve_all :: "libc \<Rightarrow> addr \<Rightarrow> heap \<Rightarrow> pool_request list \<Rightarrow> (addr list \<times> heap) option" where
  "serve_all env pool h [] = Some ([], h)"
| "serve_all env pool h (r # rs) = do {
     (p, h) \<leftarrow> pool_serve env h pool r;
     (as, h) \<leftarrow> serve_all env pool h rs;
     Some (p # as, h) }"

lemma run_requests_serve_all:
  "run_requests (pool_step env pool ps) s xs s' \<Longrightarrow>
   serve_all env pool (fst s) (map fst xs) = Some (map snd xs, fst s')"
proof (induction rule: run_requests.induct)
  case (run_one s r p s1 rs s2)
  then show ?case by (auto simp: pool_step_def split: prod.splits)
qed simp

lemma calm_requests_disjoint:
  assumes "libc_ok env" "local_null env" "pool_ok h pool bs ls ps"
  shows "\<exists>as h' bs' ls'. serve_all env pool h rs = Some (as, h') \<and> length as = length rs
    \<and> pool_ok h' pool bs' ls' ps
    \<and> sorted_wrt (\<lambda>(r, p) (t, q). p = NULL \<or> q = NULL
         \<or> region p (request_size r) \<inter> region q (request_size t) = {}) (zip rs as)
    \<and> (\<forall>(r, p) \<in> set (zip rs as). p \<noteq> NULL \<longrightarrow> region p (request_size r) \<inter> used h bs ls = {}
         \<and> (\<forall>x \<in> region p (request_size r). \<exists>(b, n) \<in> set (h_blocks h'). x \<in> region b n))"
proof -
  let ?step = "pool_step env pool ps"
  have inv: "pool_inv env pool ps (h, bs, ls)" using assms by (simp add: pool_inv_def)
  obtain as s' where run: "length as = length rs" "run_requests ?step (h, bs, ls) (zip rs as) s'"
    using pool.run_answers [OF inv] by blast
  obtain h' bs' ls' where s': "s' = (h', bs', ls')" by (cases s') auto
  note busy = pool.run_busy [OF run(2) inv, unfolded s']
  have ok: "pool_ok h' pool bs' ls' ps" using busy by (simp add: pool_inv_def)
  have "sorted_wrt (\<lambda>(r, p) (t, q). p = NULL \<or> q = NULL
      \<or> region p (request_size r) \<inter> region q (request_size t) = {}) (zip rs as)"
    using pool.run_disjoint [OF run(2) inv] by (rule sorted_wrt_mono_rel [rotated]) (auto simp: separate_def)
  moreover have "serve_all env pool h rs = Some (as, h')"
    using run_requests_serve_all [OF run(2)] run(1) by (simp add: s')
  moreover have "\<forall>(r, p) \<in> set (zip rs as). p \<noteq> NULL \<longrightarrow> region p (request_size r) \<inter> used h bs ls = {}
      \<and> (\<forall>x \<in> region p (request_size r). \<exists>(b, n) \<in> set (h_blocks h'). x \<in> region b n)"
    using busy used_in_block [OF ok] by (fastforce simp: pool_busy_def)
  ultimately show ?thesis using ok run(1) by blast
qed

text \<open>
  A request of the sequence meets a wild call. A prefix of the sequence is served without one,
  and is then served as by the library in which no call is wild.
\<close>

fun serve_wild :: "libc \<Rightarrow> heap \<Rightarrow> addr \<Rightarrow> pool_request \<Rightarrow> bool" where
  "serve_wild env h pool (Palloc n) = (\<exists>g. palloc_wild env h pool n True g)"
| "serve_wild env h pool (Pnalloc n) = (\<exists>g. palloc_wild env h pool n False g)"
| "serve_wild env h pool (Pcalloc n) = (\<exists>g. palloc_wild env h pool n True g)"
| "serve_wild env h pool (Pmemalign n alignment) = pmemalign_wild env h pool n alignment"

lemma calm_serve: "\<not> serve_wild env h pool r \<Longrightarrow> pool_serve env h pool r = pool_serve (calm env) h pool r"
  using calm_palloc calm_pnalloc calm_pcalloc calm_pmemalign by (cases r) auto

lemma calm_prefix:
  "\<exists>k \<le> length rs. serve_all env pool h (take k rs) = serve_all (calm env) pool h (take k rs)
     \<and> (\<forall>as h'. k < length rs \<longrightarrow> serve_all env pool h (take k rs) = Some (as, h') \<longrightarrow> serve_wild env h' pool (rs ! k))"
proof (induction rs arbitrary: h)
  case (Cons r rs)
  show ?case
  proof (cases "serve_wild env h pool r")
    case False
    note c = calm_serve [OF False]
    show ?thesis
    proof (cases "pool_serve (calm env) h pool r")
      case None
      then show ?thesis using c by (intro exI [of _ 1]) simp
    next
      case (Some x)
      obtain p h1 where x: "x = (p, h1)" by fastforce
      obtain k where "k \<le> length rs" "serve_all env pool h1 (take k rs) = serve_all (calm env) pool h1 (take k rs)"
        "\<forall>as h'. k < length rs \<longrightarrow> serve_all env pool h1 (take k rs) = Some (as, h') \<longrightarrow> serve_wild env h' pool (rs ! k)"
        using Cons.IH [of h1] by blast
      then show ?thesis using c Some x by (intro exI [of _ "Suc k"]) (auto split: Option.bind_splits)
    qed
  qed (auto intro: exI [of _ 0])
qed simp

text \<open>
  C3: of whatever sequence of \<open>ngx_palloc\<close>, \<open>ngx_pnalloc\<close>, \<open>ngx_pcalloc\<close> and \<open>ngx_pmemalign\<close>
  requests a pool is given, every request is answered up to the first one, if any, in which a \<^verbatim>\<open>posix_memalign\<close>
  call fails while the local \<open>ngx_memalign\<close> returns for it is not \<open>NULL\<close>. The regions handed out are pairwise
  disjoint, none of them meets the headers or what was in use before, and all of them lie in live memory.
\<close>

theorem pool_requests_disjoint:
  assumes "libc_ok env" "pool_ok h pool bs ls ps"
  shows "\<exists>k as h' bs' ls'. k \<le> length rs \<and> (k < length rs \<longrightarrow> serve_wild env h' pool (rs ! k))
    \<and> serve_all env pool h (take k rs) = Some (as, h') \<and> length as = k
    \<and> pool_ok h' pool bs' ls' ps
    \<and> sorted_wrt (\<lambda>(r, p) (t, q). p = NULL \<or> q = NULL
         \<or> region p (request_size r) \<inter> region q (request_size t) = {}) (zip (take k rs) as)
    \<and> (\<forall>(r, p) \<in> set (zip (take k rs) as). p \<noteq> NULL \<longrightarrow> region p (request_size r) \<inter> used h bs ls = {}
         \<and> (\<forall>x \<in> region p (request_size r). \<exists>(b, n) \<in> set (h_blocks h'). x \<in> region b n))"
proof -
  obtain k where k: "k \<le> length rs" "serve_all env pool h (take k rs) = serve_all (calm env) pool h (take k rs)"
    "\<forall>as h'. k < length rs \<longrightarrow> serve_all env pool h (take k rs) = Some (as, h') \<longrightarrow> serve_wild env h' pool (rs ! k)"
    using calm_prefix by blast
  have "libc_ok (calm env)" "local_null (calm env)" using assms(1) by simp_all
  note served = calm_requests_disjoint [OF this assms(2), of "take k rs", folded k(2)]
  moreover have "length (take k rs) = k" using k(1) by simp
  ultimately show ?thesis using k(1,3) by (elim exE conjE, intro exI [of _ k]) (simp, blast?)
qed

theorem pool_requests_disjoint_witness:
  "\<exists>as h' bs' ls'. serve_all bump_libc 4096 demo_heap [Palloc 100, Pmemalign 5000 64] = Some (as, h')
    \<and> length as = 2 \<and> pool_ok h' 4096 bs' ls' 1024"
proof -
  have calm: "\<not> serve_wild bump_libc h' 4096 r" for h' r by (cases r) simp_all
  obtain k as h' bs' ls' where k: "k \<le> length [Palloc 100, Pmemalign 5000 64]"
    "k < length [Palloc 100, Pmemalign 5000 64] \<longrightarrow> serve_wild bump_libc h' 4096 ([Palloc 100, Pmemalign 5000 64] ! k)"
    "serve_all bump_libc 4096 demo_heap (take k [Palloc 100, Pmemalign 5000 64]) = Some (as, h')" "length as = k"
    "pool_ok h' 4096 bs' ls' 1024"
    using pool_requests_disjoint [OF bump_libc_ok demo_ok(1), of "[Palloc 100, Pmemalign 5000 64]"] by blast
  then have "k = 2" using calm by auto
  with k show ?thesis by auto
qed

text \<open>
  C35: a small request is served first fit: from the first block, starting at the pool's current
  one, whose free end holds it at the (aligned) address; the answer is that address and only
  the end of the used part of this one block moves.
\<close>

theorem palloc_small_first_fit:
  assumes "pool_ok h pool bs ls ps" "h_pms h pool = Some m" "bs = xs @ pm_current m # ys"
    "find (\<lambda>b. \<exists>d. h_pds h b = Some d \<and> unat (place al (pd_last d)) + unat sz \<le> unat (b + ps))
       (pm_current m # ys) = Some b"
    "h_pds h b = Some d"
  shows "ngx_palloc_small env h pool sz al = Some (place al (pd_last d),
    h\<lparr>h_pds := (h_pds h)(b \<mapsto> d\<lparr>pd_last := place al (pd_last d) + sz\<rparr>)\<rparr>)"
proof -
  have ch: "chain_ok h pool bs ps" by (rule pool_okD(1) [OF assms(1)])
  have lk: "linked (pd_next_at h) (pm_current m) (pm_current m # ys)"
    using ch linked_suffix unfolding chain_ok_def assms(3) by blast
  have "palloc_small_scan h (pm_current m) sz al =
    Some (case find (fits h ps sz al) (pm_current m # ys) of None \<Rightarrow> None
      | Some b \<Rightarrow> let m = place al (pd_last (the (h_pds h b))) in Some (m, bump h b (m + sz)))"
    by (rule palloc_small_scan_correct [OF _ _ lk, where pool = pool])
      (use ch in \<open>auto simp: chain_ok_def assms(3)\<close>)
  moreover have "find (fits h ps sz al) (pm_current m # ys) = Some b"
    using assms(4) by (simp add: fits_def [abs_def])
  ultimately show ?thesis
    using assms(2,5) by (simp add: ngx_palloc_small_def bump_def Let_def)
qed

theorem palloc_small_first_fit_witness:
  "\<exists>h'. ngx_palloc_small bump_libc demo_heap 4096 100 True = Some (4176, h')"
proof -
  obtain d where d: "h_pds demo_heap 4096 = Some d" "pd_last d = 4176"
    by (simp add: demo_heap_def ngx_create_pool_def ngx_memalign_def bump_libc_def bump_place_def
        empty_heap_def fresh_def pointer_alignment_def NGX_POOL_ALIGNMENT_def grab_def put_pd_def put_pm_def live_def sizeof_defs)
  have al: "place True 4176 = 4176"
    by (simp add: place_def ngx_align_ptr_def NGX_ALIGMENT_def)
  show ?thesis
    using palloc_small_first_fit [OF demo_ok(1,4), of "[]" "[]" True 100 4096 d bump_libc] d al by simp
qed

text \<open>
  \<open>ngx_pmemalign\<close> keeps the pool well-formed and returns \<open>NULL\<close> or a multiple of the
  requested alignment with fresh memory of the requested size, whatever the size, or meets a wild call.
\<close>

theorem ngx_pmemalign_correct:
  assumes "libc_ok env" "pool_ok h pool bs ls ps"
  shows "(\<exists>p h' bs' ls'. ngx_pmemalign env h pool sz alignment = Some (p, h') \<and> pool_ok h' pool bs' ls' ps
    \<and> unat alignment dvd unat p \<and> h_mem h' = h_mem h
    \<and> (p = NULL \<longrightarrow> used h' bs' ls' = used h bs ls)
    \<and> (p \<noteq> NULL \<longrightarrow> live h' p sz \<and> region p sz \<inter> used h bs ls = {}
         \<and> used h bs ls \<union> region p sz \<subseteq> used h' bs' ls'))
    \<or> pmemalign_wild env h pool sz alignment"
proof (cases "pmemalign_wild env h pool sz alignment")
  case False
  have "libc_ok (calm env)" "local_null (calm env)" using assms(1) by simp_all
  from ngx_pmemalign_correct_pool [OF this assms(2), of sz alignment] obtain p h' bs' ls'
    where p: "ngx_pmemalign env h pool sz alignment = Some (p, h')"
    "pool_ok h' pool bs' ls' ps" "alloc_result h bs ls sz p h' bs' ls'" "unat alignment dvd unat p"
    using calm_pmemalign False by metis
  then show ?thesis
    by (intro disjI1 exI [of _ p] exI [of _ h'] exI [of _ bs'] exI [of _ ls'])
      (simp add: alloc_result_def client_frame_def split: if_splits)
qed simp

theorem ngx_pmemalign_correct_witness:
  "\<exists>p h' bs' ls'. ngx_pmemalign bump_libc demo_heap 4096 5000 256 = Some (p, h') \<and> 256 dvd unat p
    \<and> pool_ok h' 4096 bs' ls' 1024"
proof -
  have "unat (256 :: u64) = 256" by simp
  then show ?thesis
    using ngx_pmemalign_correct [OF bump_libc_ok demo_ok(1), of 5000 256] bump_never_wild(4)
    by (simp only: split_paired_all) metis
qed

text \<open>
  The memory that \<open>ngx_pcalloc\<close> returns is zero, and no other byte changes.
\<close>

theorem ngx_pcalloc_correct:
  assumes "libc_ok env" "pool_ok h pool bs ls ps"
  shows "(\<exists>p h' bs' ls'. ngx_pcalloc env h pool sz = Some (p, h') \<and> pool_ok h' pool bs' ls' ps
    \<and> (p \<noteq> NULL \<longrightarrow> (\<forall>a. h_mem h' a = (if unat a \<in> region p sz then 0 else h_mem h a))
         \<and> region p sz \<inter> used h bs ls = {}))
    \<or> (\<exists>g. palloc_wild env h pool sz True g)"
proof (cases "\<exists>g. palloc_wild env h pool sz True g")
  case False
  have "libc_ok (calm env)" "local_null (calm env)" using assms(1) by simp_all
  from ngx_pcalloc_correct_pool [OF this assms(2), of sz] show ?thesis
    using calm_pcalloc [of env h pool sz] False by (simp add: granted_def) metis
qed blast

theorem ngx_pcalloc_correct_witness:
  "\<exists>p h' bs' ls'. ngx_pcalloc bump_libc demo_heap 4096 64 = Some (p, h') \<and> pool_ok h' 4096 bs' ls' 1024
    \<and> (p \<noteq> NULL \<longrightarrow> h_mem h' p = 0)"
proof -
  obtain p h' bs' ls' where "ngx_pcalloc bump_libc demo_heap 4096 64 = Some (p, h')"
    "pool_ok h' 4096 bs' ls' 1024"
    "p \<noteq> NULL \<longrightarrow> (\<forall>a. h_mem h' a = (if unat a \<in> region p 64 then 0 else h_mem demo_heap a))"
    using ngx_pcalloc_correct [OF bump_libc_ok demo_ok(1), of 64] bump_never_wild(3) by blast
  moreover have "unat p \<in> region p 64" by (simp add: region_def)
  ultimately show ?thesis by (metis (full_types))
qed

subsection \<open>Giving memory back\<close>



text \<open>
  C21: \<open>ngx_reset_pool\<close> returns every large allocation to the library and makes every block of
  the chain empty again, keeping the pool well-formed and its blocks.
\<close>

theorem ngx_reset_pool_correct:
  assumes "pool_ok h pool bs ls ps"
  shows "\<exists>h'. ngx_reset_pool h pool = Some h' \<and> pool_ok h' pool bs [] ps
    \<and> h_blocks h' = filter (\<lambda>b. fst b \<notin> set (large_allocs h ls)) (h_blocks h)
    \<and> used h' bs [] = (\<Union>b \<in> set bs. {unat b ..< unat b + 80}) \<and> h_mem h' = h_mem h"
  using ngx_reset_pool_ok [OF assms] by blast

theorem ngx_reset_pool_correct_witness:
  "\<exists>h'. ngx_reset_pool demo_heap 4096 = Some h' \<and> pool_ok h' 4096 [4096] [] 1024
    \<and> used h' [4096] [] = {4096 ..< 4176}"
  using ngx_reset_pool_correct [OF demo_ok(1)] by auto

subsection \<open>Cleanups and destruction\<close>

text \<open>
  C28: destroying a pool whose chain is a single block runs the registered handlers, latest
  first and each with its data, and then releases the block and every large allocation and
  nothing else.
\<close>

theorem ngx_destroy_pool_single:
  assumes "handlers_ok env" "pool_ok h pool [pool] ls ps" "cleanups_ok h pool [pool] ls cs"
  shows "\<exists>h'. ngx_destroy_pool env h pool = Some h'
    \<and> h_calls h' = h_calls h @ cleanup_calls h cs
    \<and> h_blocks h' = filter (\<lambda>b. fst b \<noteq> pool \<and> fst b \<notin> set (large_allocs h ls)) (h_blocks h)"
  using ngx_destroy_pool_effect [OF assms] by simp

theorem ngx_destroy_pool_single_witness:
  "\<exists>h'. ngx_destroy_pool bump_libc demo_heap 4096 = Some h' \<and> h_blocks h' = []"
  using ngx_destroy_pool_single [OF bump_handlers demo_ok(1) demo_cleanups] demo_ok(2) by auto

text \<open>
  C27: destroying a pool that has grown beyond one block frees its first block once for every block of
  the chain: with a \<^verbatim>\<open>free\<close> that only notes its argument, the loop over the chain passes the first block to it each
  time (and never another block), after the handlers. With the library's \<^verbatim>\<open>free\<close> the second of these is a double free.
\<close>

theorem ngx_destroy_pool_double_free:
  assumes "handlers_ok env" "pool_ok h pool bs ls ps" "cleanups_ok h pool bs ls cs" "2 \<le> length bs"
  shows "ngx_destroy_pool env h pool = None \<and>
    (\<exists>h'. destroy_pool_with note_free env h pool = Some h'
       \<and> h_calls h' = h_calls h @ cleanup_calls h cs @ replicate (length bs) (NULL, pool))"
proof -
  have "bs \<noteq> [pool]" using assms(4) by auto
  then show ?thesis using ngx_destroy_pool_effect [OF assms(1-3)] destroy_pool_noted [OF assms(1-3)] by simp
qed

definition two_blocks :: heap where
  "two_blocks = empty_heap\<lparr>h_blocks := [(8192, 1024), (4096, 1024)],
     h_pds := [4096 \<mapsto> \<lparr>pd_last = 5000, pd_end = 5120, pd_next = 8192, pd_failed = 1\<rparr>,
               8192 \<mapsto> \<lparr>pd_last = 8624, pd_end = 9216, pd_next = NULL, pd_failed = 0\<rparr>],
     h_pms := [4096 \<mapsto> \<lparr>pm_max = 944, pm_current = 4096, pm_chain = NULL, pm_large = NULL,
               pm_cleanup = NULL, pm_log = NULL\<rparr>]\<rparr>"

lemma two_blocks_ok: "pool_ok two_blocks 4096 [4096, 8192] [] 1024"
  "cleanups_ok two_blocks 4096 [4096, 8192] [] []"
  by (simp_all add: two_blocks_def empty_heap_def pool_ok_def chain_ok_def larges_ok_def blocks_ok_def
      apart_def block_ok_def header_def large_allocs_def pd_next_at_def cleanups_ok_def)

theorem ngx_destroy_pool_double_free_witness:
  "ngx_destroy_pool bump_libc two_blocks 4096 = None \<and>
   (\<exists>h'. destroy_pool_with note_free bump_libc two_blocks 4096 = Some h' \<and> h_calls h' = [(NULL, 4096), (NULL, 4096)])"
proof -
  have "h_calls two_blocks = []" "cleanup_calls two_blocks [] = []"
    by (simp_all add: two_blocks_def empty_heap_def cleanup_calls_def)
  then show ?thesis
    using ngx_destroy_pool_double_free [OF bump_handlers two_blocks_ok] by (simp add: numeral_2_eq_2)
qed

lemma calm_cleanup_add:
  assumes "\<not> pallocs_wild env pool h (sizeof_ngx_pool_cleanup_t # (if sz = 0 then [] else [sz]))"
  shows "ngx_pool_cleanup_add env h pool sz = ngx_pool_cleanup_add (calm env) h pool sz"
proof -
  have one: "ngx_palloc env h pool sizeof_ngx_pool_cleanup_t = ngx_palloc (calm env) h pool sizeof_ngx_pool_cleanup_t"
    using assms by (intro calm_palloc) simp
  have two: "ngx_palloc env h1 pool sz = ngx_palloc (calm env) h1 pool sz"
    if "ngx_palloc (calm env) h pool sizeof_ngx_pool_cleanup_t = Some (c, h1)" "c \<noteq> NULL" "sz \<noteq> 0" for c h1
    using assms that one by (intro calm_palloc) auto
  show ?thesis
    using two by (auto simp: ngx_pool_cleanup_add_def one intro!: Option.bind_cong)
qed

text \<open>
  C29: \<open>ngx_pool_cleanup_add\<close> puts a new record with no handler in front of the registered
  ones, which stay as they were; the data it points to is fresh memory of the requested size,
  disjoint from the record and from everything in use. When memory runs out the list stays as
  it was. The one other outcome is that a \<^verbatim>\<open>posix_memalign\<close> call for one of its two allocations fails while
  the local that \<open>ngx_memalign\<close> returns for it is not \<open>NULL\<close>.
\<close>

theorem ngx_pool_cleanup_add_correct:
  assumes "libc_ok env" "pool_ok h pool bs ls ps" "cleanups_ok h pool bs ls cs"
  shows "(\<exists>c h' bs' ls'. ngx_pool_cleanup_add env h pool sz = Some (c, h') \<and> pool_ok h' pool bs' ls' ps
    \<and> used h bs ls \<subseteq> used h' bs' ls' \<and> (\<forall>a \<in> set cs. h_cleanups h' a = h_cleanups h a)
    \<and> (c = NULL \<longrightarrow> cleanups_ok h' pool bs' ls' cs)
    \<and> (c \<noteq> NULL \<longrightarrow> cleanups_ok h' pool bs' ls' (c # cs) \<and> region c 24 \<inter> used h bs ls = {}
         \<and> (\<exists>data nx. h_cleanups h' c = Some \<lparr>pc_handler = NULL, pc_data = data, pc_next = nx\<rparr>
              \<and> (sz = 0 \<longrightarrow> data = NULL)
              \<and> (sz \<noteq> 0 \<longrightarrow> data \<noteq> NULL \<and> region data sz \<inter> (used h bs ls \<union> region c 24) = {}
                   \<and> region data sz \<subseteq> used h' bs' ls'))))
    \<or> pallocs_wild env pool h (sizeof_ngx_pool_cleanup_t # (if sz = 0 then [] else [sz]))"
proof (cases "pallocs_wild env pool h (sizeof_ngx_pool_cleanup_t # (if sz = 0 then [] else [sz]))")
  case False
  have "libc_ok (calm env)" "local_null (calm env)" using assms(1) by simp_all
  from ngx_pool_cleanup_add_ok [OF this assms(2,3), of sz] obtain c h' bs' ls'
    where r: "ngx_pool_cleanup_add env h pool sz = Some (c, h')" "pool_ok h' pool bs' ls' ps"
    "used h bs ls \<subseteq> used h' bs' ls'" "\<forall>a \<in> set cs. h_cleanups h' a = h_cleanups h a"
    "if c = NULL then cleanups_ok h' pool bs' ls' cs
       else cleanups_ok h' pool bs' ls' (c # cs) \<and> region c 24 \<inter> used h bs ls = {}
         \<and> (\<exists>data nx. h_cleanups h' c = Some \<lparr>pc_handler = NULL, pc_data = data, pc_next = nx\<rparr>
              \<and> (if sz = 0 then data = NULL
                 else data \<noteq> NULL \<and> region data sz \<inter> (used h bs ls \<union> region c 24) = {}
                   \<and> region data sz \<subseteq> used h' bs' ls'))"
    unfolding calm_cleanup_add [OF False] by blast
  then show ?thesis
    by (intro disjI1 exI [of _ c] exI [of _ h'] exI [of _ bs'] exI [of _ ls']) (cases "c = NULL"; cases "sz = 0"; simp)
qed simp

theorem ngx_pool_cleanup_add_correct_witness:
  "\<exists>c h' bs' ls'. ngx_pool_cleanup_add bump_libc demo_heap 4096 40 = Some (c, h')
    \<and> pool_ok h' 4096 bs' ls' 1024 \<and> (c \<noteq> NULL \<longrightarrow> cleanups_ok h' 4096 bs' ls' [c])"
  using ngx_pool_cleanup_add_correct [OF bump_libc_ok demo_ok(1) demo_cleanups, of 40] bump_pallocs_wild by blast

text \<open>
  A pool size below the 80 bytes of the pool's own header makes \<open>ngx_create_pool\<close> write
  past the block it was given.
\<close>

theorem ngx_create_pool_too_small:
  assumes "libc_ok env" "unat sz < 80"
    "lc_posix_memalign env (h_clock h) (h_blocks h) NGX_POOL_ALIGNMENT sz \<noteq> NULL"
  shows "ngx_create_pool env h sz log = None"
proof -
  define p where "p = lc_posix_memalign env (h_clock h) (h_blocks h) NGX_POOL_ALIGNMENT sz"
  have p: "p \<noteq> NULL" using assms(3) by (simp add: p_def)
  then have fr: "fresh (h_blocks h) p sz" using assms(1) by (auto simp: libc_ok_def p_def)
  have "\<not> (unat b \<le> unat p \<and> unat p + 80 \<le> unat b + unat n)" if "(b, n) \<in> set (h_blocks h)" for b n
  proof -
    have "p \<noteq> b" "apart p sz b n" using fr that by (auto simp: fresh_def)
    then have "unat p \<noteq> unat b" "unat p + unat sz \<le> unat b \<or> unat b + unat n \<le> unat p"
      by (simp_all add: apart_def word_unat_eq_iff)
    then show ?thesis by arith
  qed
  then have "\<not> live (grab h p sz) p 80" using assms(2) p by (auto simp: live_def)
  then have "put_pm g p m = None" if "h_blocks g = h_blocks (grab h p sz)" for g m
    using that by (simp add: put_pm_def live_def sizeof_defs)
  moreover have "h_blocks g = h_blocks h0" if "put_pd h0 p d = Some g" for h0 g d
    using that by (auto simp: put_pd_def split: if_splits)
  ultimately show ?thesis
    using p by (auto simp: ngx_create_pool_def ngx_memalign_def p_def [symmetric] Let_def
        split: Option.bind_splits)
qed

theorem ngx_create_pool_too_small_witness: "ngx_create_pool bump_libc empty_heap 64 0 = None"
  by (rule ngx_create_pool_too_small [OF bump_libc_ok])
    (simp_all add: bump_libc_def empty_heap_def bump_place_def fresh_def pointer_alignment_def NGX_POOL_ALIGNMENT_def)

end
