(* ===== verification/Ngx_Buf.thy ===== *)
theory Ngx_Buf
  imports Ngx_Pool_Props
begin

text \<open>
  \<^verbatim>\<open>src/core/ngx_buf.h\<close>: the structure \<open>ngx_buf_t\<close>, read from the bytes of the heap, and the macros that
  allocate one from a pool.
\<close>

record ngx_buf_t =
  bf_pos :: addr
  bf_last :: addr
  bf_file_pos :: u64
  bf_file_last :: u64
  bf_start :: addr
  bf_end :: addr
  bf_tag :: addr
  bf_file :: addr
  bf_shadow :: addr
  bf_temporary :: bool
  bf_memory :: bool
  bf_mmap :: bool
  bf_recycled :: bool
  bf_in_file :: bool
  bf_flush :: bool
  bf_sync :: bool
  bf_last_buf :: bool
  bf_last_in_chain :: bool
  bf_last_shadow :: bool
  bf_temp_file :: bool
  bf_num :: u32

definition sizeof_ngx_buf_t :: u64 where "sizeof_ngx_buf_t = 80"

text \<open>Little-endian loads; the bit fields share the word at offset 72, the first in its lowest bit.\<close>

fun load_bytes :: "heap \<Rightarrow> addr \<Rightarrow> nat \<Rightarrow> nat" where
  "load_bytes h a 0 = 0"
| "load_bytes h a (Suc k) = unat (h_mem h a) + 256 * load_bytes h (a + 1) k"

definition load_word :: "heap \<Rightarrow> addr \<Rightarrow> u64" where "load_word h a = of_nat (load_bytes h a 8)"
definition load_int :: "heap \<Rightarrow> addr \<Rightarrow> u32" where "load_int h a = of_nat (load_bytes h a 4)"

definition load_buf :: "heap \<Rightarrow> addr \<Rightarrow> ngx_buf_t" where
  "load_buf h b = (let flag = (\<lambda>i. bit (load_int h (b + 72)) i) in
     \<lparr>bf_pos = load_word h b, bf_last = load_word h (b + 8),
      bf_file_pos = load_word h (b + 16), bf_file_last = load_word h (b + 24),
      bf_start = load_word h (b + 32), bf_end = load_word h (b + 40), bf_tag = load_word h (b + 48),
      bf_file = load_word h (b + 56), bf_shadow = load_word h (b + 64),
      bf_temporary = flag 0, bf_memory = flag 1, bf_mmap = flag 2, bf_recycled = flag 3, bf_in_file = flag 4,
      bf_flush = flag 5, bf_sync = flag 6, bf_last_buf = flag 7, bf_last_in_chain = flag 8,
      bf_last_shadow = flag 9, bf_temp_file = flag 10, bf_num = load_int h (b + 76)\<rparr>)"

definition ngx_alloc_buf :: "libc \<Rightarrow> heap \<Rightarrow> addr \<Rightarrow> (addr \<times> heap) option" where
  "ngx_alloc_buf env h pool = ngx_palloc env h pool sizeof_ngx_buf_t"

definition ngx_calloc_buf :: "libc \<Rightarrow> heap \<Rightarrow> addr \<Rightarrow> (addr \<times> heap) option" where
  "ngx_calloc_buf env h pool = ngx_pcalloc env h pool sizeof_ngx_buf_t"

subsection \<open>A buffer of zeroed memory\<close>

definition empty_buf :: ngx_buf_t where
  "empty_buf = \<lparr>bf_pos = NULL, bf_last = NULL, bf_file_pos = 0, bf_file_last = 0, bf_start = NULL, bf_end = NULL,
     bf_tag = NULL, bf_file = NULL, bf_shadow = NULL, bf_temporary = False, bf_memory = False, bf_mmap = False,
     bf_recycled = False, bf_in_file = False, bf_flush = False, bf_sync = False, bf_last_buf = False,
     bf_last_in_chain = False, bf_last_shadow = False, bf_temp_file = False, bf_num = 0\<rparr>"

lemma load_bytes_zero:
  "unat a + k < 2 ^ 64 \<Longrightarrow> (\<And>b. unat a \<le> unat b \<Longrightarrow> unat b < unat a + k \<Longrightarrow> h_mem h b = 0) \<Longrightarrow> load_bytes h a k = 0"
proof (induction k arbitrary: a)
  case (Suc k)
  have s: "unat (a + 1) = unat a + 1" using Suc.prems(1) by (simp add: unat_word_ariths)
  have "h_mem h a = 0" using Suc.prems(2) by simp
  moreover have "load_bytes h (a + 1) k = 0"
    by (rule Suc.IH) (use Suc.prems s in simp_all)
  ultimately show ?case by simp
qed simp

lemma load_buf_zero:
  assumes "unat p + 80 < 2 ^ 64" "\<And>b. unat b \<in> region p 80 \<Longrightarrow> h_mem h b = 0"
  shows "load_buf h p = empty_buf"
proof -
  have z: "load_bytes h (p + k) n = 0" if "unat k + n \<le> 80" for k n
  proof (rule load_bytes_zero)
    have s: "unat (p + k) = unat p + unat k" using assms(1) that by (simp add: unat_word_ariths)
    then show "unat (p + k) + n < 2 ^ 64" using assms(1) that by simp
    show "h_mem h b = 0" if "unat (p + k) \<le> unat b" "unat b < unat (p + k) + n" for b
      using that s \<open>unat k + n \<le> 80\<close> by (intro assms(2)) (simp add: region_def)
  qed
  have "load_bytes h p 8 = 0" using z [of 0 8] by simp
  then show ?thesis by (simp add: load_buf_def load_word_def load_int_def z empty_buf_def)
qed

lemma pcalloc_live:
  "ngx_pcalloc env h pool n = Some (p, h') \<Longrightarrow> p \<noteq> NULL \<Longrightarrow> live h' p n"
  unfolding ngx_pcalloc_def ngx_memzero_def live_def by (force split: if_splits Option.bind_splits)

lemma calloc_buf_calm:
  assumes "libc_ok env" "local_null env" "pool_ok h pool bs ls ps"
  shows "(\<exists>p h' bs' ls'. ngx_alloc_buf env h pool = Some (p, h') \<and> pool_ok h' pool bs' ls' ps)
    \<and> (\<exists>p h' bs' ls'. ngx_calloc_buf env h pool = Some (p, h') \<and> pool_ok h' pool bs' ls' ps \<and> 8 dvd unat p
        \<and> (p = NULL \<or> load_buf h' p = empty_buf \<and> live h' p sizeof_ngx_buf_t
            \<and> region p sizeof_ngx_buf_t \<inter> used h bs ls = {} \<and> region p sizeof_ngx_buf_t \<subseteq> used h' bs' ls'))"
proof (rule conjI)
  show "\<exists>p h' bs' ls'. ngx_alloc_buf env h pool = Some (p, h') \<and> pool_ok h' pool bs' ls' ps"
    using ngx_palloc_correct_pool [OF assms] unfolding ngx_alloc_buf_def by blast
next
  obtain p h' bs' ls' where p: "ngx_calloc_buf env h pool = Some (p, h')" "pool_ok h' pool bs' ls' ps"
    "granted h bs ls sizeof_ngx_buf_t p h' bs' ls'" "8 dvd unat p"
    "p \<noteq> NULL \<longrightarrow> (\<forall>a. unat a \<in> region p sizeof_ngx_buf_t \<longrightarrow> h_mem h' a = 0)"
    using ngx_pcalloc_correct_pool [OF assms] unfolding ngx_calloc_buf_def by blast
  have lv: "live h' p sizeof_ngx_buf_t" if "p \<noteq> NULL"
    using pcalloc_live [OF p(1) [unfolded ngx_calloc_buf_def] that] .
  have "load_buf h' p = empty_buf" if nn: "p \<noteq> NULL"
  proof (rule load_buf_zero)
    from live_bounds(2) [OF pool_okD(2) [OF p(2)] lv [OF nn]] show "unat p + 80 < 2 ^ 64" by (simp add: sizeof_ngx_buf_t_def)
    show "h_mem h' b = 0" if "unat b \<in> region p 80" for b using p(5) nn that by (simp add: sizeof_ngx_buf_t_def)
  qed
  then show "\<exists>p h' bs' ls'. ngx_calloc_buf env h pool = Some (p, h') \<and> pool_ok h' pool bs' ls' ps \<and> 8 dvd unat p
      \<and> (p = NULL \<or> load_buf h' p = empty_buf \<and> live h' p sizeof_ngx_buf_t
          \<and> region p sizeof_ngx_buf_t \<inter> used h bs ls = {} \<and> region p sizeof_ngx_buf_t \<subseteq> used h' bs' ls')"
    using p(1-4) lv by (intro exI [of _ p] exI [of _ h'] exI [of _ bs'] exI [of _ ls']) (auto simp: granted_def)
qed

text \<open>
  C36: On a well-formed pool both macros return, and keep the pool well-formed. What \<open>ngx_calloc_buf\<close> returns is \<open>NULL\<close>,
  or an aligned buffer of fresh memory, apart from all that the pool has handed out before, all
  of whose fields are zero. The one other outcome is that a \<^verbatim>\<open>posix_memalign\<close> call of the request fails while
  the local that \<open>ngx_memalign\<close> returns for it is not \<open>NULL\<close>.
\<close>

theorem ngx_calloc_buf_correct:
  assumes "libc_ok env" "pool_ok h pool bs ls ps"
  shows "((\<exists>p h' bs' ls'. ngx_alloc_buf env h pool = Some (p, h') \<and> pool_ok h' pool bs' ls' ps)
    \<and> (\<exists>p h' bs' ls'. ngx_calloc_buf env h pool = Some (p, h') \<and> pool_ok h' pool bs' ls' ps \<and> 8 dvd unat p
        \<and> (p = NULL \<or> load_buf h' p = empty_buf \<and> live h' p sizeof_ngx_buf_t
            \<and> region p sizeof_ngx_buf_t \<inter> used h bs ls = {} \<and> region p sizeof_ngx_buf_t \<subseteq> used h' bs' ls')))
    \<or> (\<exists>g. palloc_wild env h pool sizeof_ngx_buf_t True g)"
proof (cases "\<exists>g. palloc_wild env h pool sizeof_ngx_buf_t True g")
  case False
  have env: "libc_ok (calm env)" "local_null (calm env)" using assms(1) by simp_all
  have "ngx_alloc_buf env h pool = ngx_alloc_buf (calm env) h pool" "ngx_calloc_buf env h pool = ngx_calloc_buf (calm env) h pool"
    using calm_palloc calm_pcalloc False by (simp_all add: ngx_alloc_buf_def ngx_calloc_buf_def)
  then show ?thesis using calloc_buf_calm [OF env assms(2)] by simp
qed simp

lemma demo_palloc_buf: "\<exists>h'. ngx_palloc bump_libc demo_heap 4096 80 = Some (4176, h')"
  by (simp add: ngx_palloc_def ngx_palloc_small_def palloc_small_scan.simps NGX_MAX_ALLOC_FROM_POOL_def
      demo_heap_def ngx_create_pool_def ngx_memalign_def bump_libc_def bump_place_def ngx_align_ptr_def NGX_ALIGMENT_def
        empty_heap_def fresh_def pointer_alignment_def NGX_POOL_ALIGNMENT_def grab_def put_pd_def put_pm_def live_def sizeof_defs)

theorem ngx_calloc_buf_correct_witness:
  "\<exists>h' bs' ls'. ngx_calloc_buf bump_libc demo_heap 4096 = Some (4176, h') \<and> pool_ok h' 4096 bs' ls' 1024
    \<and> load_buf h' 4176 = empty_buf"
proof -
  obtain p h' bs' ls' where p: "ngx_calloc_buf bump_libc demo_heap 4096 = Some (p, h')" "pool_ok h' 4096 bs' ls' 1024"
    "p = NULL \<or> load_buf h' p = empty_buf"
    using ngx_calloc_buf_correct [OF bump_libc_ok demo_ok(1)] bump_never_wild(3) by blast
  have "p = 4176"
    using p(1) demo_palloc_buf by (auto simp: ngx_calloc_buf_def ngx_pcalloc_def sizeof_ngx_buf_t_def split: if_splits Option.bind_splits)
  then show ?thesis using p by auto
qed

end
