(* ===== verification/Ngx_List.thy ===== *)
theory Ngx_List
  imports Ngx_Pool_Props
begin

text \<open>
  \<^verbatim>\<open>src/core/ngx_list.c\<close> and \<^verbatim>\<open>ngx_list.h\<close>: a list of parts, each an array of \<open>nalloc\<close> elements,
  allocated from a pool. The first part is embedded in the list, at offset 8. A push takes the
  next element of the last part and chains a new part when that one is full, so elements never
  move. The abstract value of a list is the sequence of the addresses of its elements.
\<close>

subsection \<open>Operations\<close>

definition ngx_list_part :: "addr \<Rightarrow> addr" where
  "ngx_list_part list = list + 8"

text \<open>
  Memory from the pool is not initialised: until they are written, the fields of a part that
  was not there before have any value.
\<close>

definition part_or_garbage :: "libc \<Rightarrow> heap \<Rightarrow> addr \<Rightarrow> ngx_list_part_t" where
  "part_or_garbage env h a = (case h_parts h a of Some q \<Rightarrow> q
     | None \<Rightarrow> \<lparr>lp_elts = lc_uninit env (h_clock h), lp_nelts = lc_uninit_n env (h_clock h),
               lp_next = lc_uninit env (h_clock h)\<rparr>)"

definition ngx_list_init ::
  "libc \<Rightarrow> heap \<Rightarrow> addr \<Rightarrow> addr \<Rightarrow> u64 \<Rightarrow> u64 \<Rightarrow> (u64 \<times> heap) option" where
  "ngx_list_init env h list pool n sz = do {
     (p, h) \<leftarrow> ngx_palloc env h pool (n * sz);
     h \<leftarrow> put_part h (ngx_list_part list) ((part_or_garbage env h (ngx_list_part list))\<lparr>lp_elts := p\<rparr>);
     if p = NULL then Some (NGX_ERROR, h) else do {
       h \<leftarrow> put_part h (ngx_list_part list) \<lparr>lp_elts = p, lp_nelts = 0, lp_next = NULL\<rparr>;
       h \<leftarrow> put_list h list \<lparr>ls_last = ngx_list_part list, ls_size = sz, ls_nalloc = n, ls_pool = pool\<rparr>;
       Some (NGX_OK, h) } }"

definition ngx_list_create ::
  "libc \<Rightarrow> heap \<Rightarrow> addr \<Rightarrow> u64 \<Rightarrow> u64 \<Rightarrow> (addr \<times> heap) option" where
  "ngx_list_create env h pool n sz = do {
     (list, h) \<leftarrow> ngx_palloc env h pool sizeof_ngx_list_t;
     if list = NULL then Some (NULL, h) else do {
       (rc, h) \<leftarrow> ngx_list_init env h list pool n sz;
       if rc \<noteq> NGX_OK then Some (NULL, h) else Some (list, h) } }"

text \<open>The end of \<^verbatim>\<open>ngx_list_push\<close>: the next element of the part \<open>lst\<close>.\<close>

definition list_slot :: "heap \<Rightarrow> addr \<Rightarrow> addr \<Rightarrow> (addr \<times> heap) option" where
  "list_slot h l lst = do {
     r \<leftarrow> h_lists h l;
     q \<leftarrow> h_parts h lst;
     h \<leftarrow> put_part h lst (q\<lparr>lp_nelts := lp_nelts q + 1\<rparr>);
     Some (lp_elts q + ls_size r * lp_nelts q, h) }"

text \<open>Making the fresh part \<open>lst\<close> the last one.\<close>

definition list_link :: "heap \<Rightarrow> addr \<Rightarrow> addr \<Rightarrow> addr \<Rightarrow> heap option" where
  "list_link h l lst elts = do {
     h \<leftarrow> put_part h lst \<lparr>lp_elts = elts, lp_nelts = 0, lp_next = NULL\<rparr>;
     r \<leftarrow> h_lists h l;
     q \<leftarrow> h_parts h (ls_last r);
     h \<leftarrow> put_part h (ls_last r) (q\<lparr>lp_next := lst\<rparr>);
     put_list h l (r\<lparr>ls_last := lst\<rparr>) }"

definition ngx_list_push :: "libc \<Rightarrow> heap \<Rightarrow> addr \<Rightarrow> (addr \<times> heap) option" where
  "ngx_list_push env h l = do {
     r \<leftarrow> h_lists h l;
     q \<leftarrow> h_parts h (ls_last r);
     if lp_nelts q = ls_nalloc r then do {
       (lst, h) \<leftarrow> ngx_palloc env h (ls_pool r) sizeof_ngx_list_part_t;
       if lst = NULL then Some (NULL, h) else do {
         r \<leftarrow> h_lists h l;
         (elts, h) \<leftarrow> ngx_palloc env h (ls_pool r) (ls_nalloc r * ls_size r);
         h \<leftarrow> put_part h lst ((part_or_garbage env h lst)\<lparr>lp_elts := elts\<rparr>);
         if elts = NULL then Some (NULL, h) else do {
           h \<leftarrow> list_link h l lst elts;
           list_slot h l lst } } }
     else list_slot h l (ls_last r) }"

subsection \<open>The invariant\<close>

definition lp_next_at :: "heap \<Rightarrow> addr \<Rightarrow> addr option" where
  "lp_next_at h a = map_option lp_next (h_parts h a)"

text \<open>The regions a list owns: its own record, its later parts and the elements of each part.\<close>

definition elts_of :: "heap \<Rightarrow> addr \<Rightarrow> addr" where
  "elts_of h a = (case h_parts h a of None \<Rightarrow> NULL | Some q \<Rightarrow> lp_elts q)"

definition nelts_of :: "heap \<Rightarrow> addr \<Rightarrow> nat" where
  "nelts_of h a = (case h_parts h a of None \<Rightarrow> 0 | Some q \<Rightarrow> unat (lp_nelts q))"

definition owned :: "heap \<Rightarrow> addr \<Rightarrow> addr list \<Rightarrow> u64 \<Rightarrow> block list" where
  "owned h l as n = (l, 56) # (elts_of h (hd as), n) #
     concat (map (\<lambda>a. [(a, 24), (elts_of h a, n)]) (tl as))"

definition owned_ok :: "heap \<Rightarrow> nat set \<Rightarrow> block list \<Rightarrow> bool" where
  "owned_ok h us xs \<longleftrightarrow> (\<forall>(a, n) \<in> set xs. live h a n \<and> region a n \<subseteq> us)
     \<and> sorted_wrt (\<lambda>(a, n) (b, m). region a n \<inter> region b m = {}) xs"

definition list_inv ::
  "heap \<Rightarrow> addr \<Rightarrow> addr list \<Rightarrow> addr list \<Rightarrow> u64 \<Rightarrow> addr \<Rightarrow> ngx_list_rest \<Rightarrow> addr list \<Rightarrow> bool" where
  "list_inv h pool bs ls ps l r as \<longleftrightarrow> pool_ok h pool bs ls ps
     \<and> h_lists h l = Some r \<and> ls_pool r = pool \<and> as \<noteq> [] \<and> ls_last r = last as
     \<and> 0 < unat (ls_nalloc r) \<and> unat (ls_nalloc r) * unat (ls_size r) < 2 ^ 64
     \<and> linked (lp_next_at h) (ngx_list_part l) as
     \<and> (\<forall>a \<in> set (butlast as). nelts_of h a = unat (ls_nalloc r))
     \<and> nelts_of h (last as) \<le> unat (ls_nalloc r)
     \<and> owned_ok h (used h bs ls) (owned h l as (ls_nalloc r * ls_size r))"

text \<open>The abstract value.\<close>

definition part_slots :: "heap \<Rightarrow> u64 \<Rightarrow> addr \<Rightarrow> addr list" where
  "part_slots h sz a = map (\<lambda>i. elts_of h a + sz * of_nat i) [0 ..< nelts_of h a]"

definition list_elements :: "heap \<Rightarrow> ngx_list_rest \<Rightarrow> addr list \<Rightarrow> addr list" where
  "list_elements h r as = concat (map (part_slots h (ls_size r)) as)"


subsection \<open>Lemmas\<close>

lemma pool_ok_parts [simp]:
  "pool_ok (h\<lparr>h_parts := x\<rparr>) pool bs ls ps = pool_ok h pool bs ls ps"
  "used (h\<lparr>h_parts := x\<rparr>) bs ls = used h bs ls" "live (h\<lparr>h_parts := x\<rparr>) p n = live h p n"
  "pool_ok (h\<lparr>h_lists := y\<rparr>) pool bs ls ps = pool_ok h pool bs ls ps"
  "used (h\<lparr>h_lists := y\<rparr>) bs ls = used h bs ls" "live (h\<lparr>h_lists := y\<rparr>) p n = live h p n"
  by (simp_all add: pool_ok_def chain_ok_def larges_ok_def block_ok_def cut_from_def taken_def
      block_used_def used_def large_allocs_def alloc_of_def [abs_def] pd_next_at_def [abs_def]
      pl_next_at_def [abs_def] live_def)

lemma list_invD:
  assumes "list_inv h pool bs ls ps l r as"
  shows "pool_ok h pool bs ls ps" "blocks_ok (h_blocks h)" "h_lists h l = Some r" "as \<noteq> []"
    "linked (lp_next_at h) (ngx_list_part l) as" "distinct as" "as = ngx_list_part l # tl as"
    "owned_ok h (used h bs ls) (owned h l as (ls_nalloc r * ls_size r))"
    "unat (ls_nalloc r * ls_size r) = unat (ls_nalloc r) * unat (ls_size r)"
proof -
  show lk: "linked (lp_next_at h) (ngx_list_part l) as" and ne: "as \<noteq> []"
    and "pool_ok h pool bs ls ps" "h_lists h l = Some r"
    "owned_ok h (used h bs ls) (owned h l as (ls_nalloc r * ls_size r))"
    using assms by (simp_all add: list_inv_def)
  then show "blocks_ok (h_blocks h)" by (simp add: pool_okD(2))
  show "distinct as" by (rule linked_distinct [OF lk])
  show "as = ngx_list_part l # tl as" using lk ne by (cases as) auto
  show "unat (ls_nalloc r * ls_size r) = unat (ls_nalloc r) * unat (ls_size r)"
    using assms by (simp add: list_inv_def unat_word_ariths)
qed

lemma owned_okD: "owned_ok h us xs \<Longrightarrow> (a, n) \<in> set xs \<Longrightarrow> live h a n \<and> region a n \<subseteq> us"
  by (auto simp: owned_ok_def)

lemma list_record_live:
  assumes "list_inv h pool bs ls ps l r as"
  shows "live h l 56" "region l 56 \<subseteq> used h bs ls"
  using owned_okD [OF list_invD(8) [OF assms], of l 56] by (simp_all add: owned_def)

text \<open>Every part lies in memory that the list owns.\<close>

lemma list_part_within:
  assumes "list_inv h pool bs ls ps l r as" "a \<in> set as"
  shows "live h a 24 \<and> region a 24 \<subseteq> used h bs ls
    \<and> (\<exists>(b, n) \<in> set (owned h l as m). region a 24 \<subseteq> region b n)"
proof -
  note D = list_invD [OF assms(1)]
  consider "a = ngx_list_part l" | "a \<in> set (tl as)"
    using assms(2) D(7) by (metis set_ConsD)
  then show ?thesis
  proof cases
    case 1
    have "live h (l + 8) 24" "region (l + 8) 24 \<subseteq> region l 56"
      by (rule live_sub [OF D(2) list_record_live(1) [OF assms(1)]]; simp)+
    then show ?thesis
      using 1 list_record_live(2) [OF assms(1)] by (auto simp: ngx_list_part_def owned_def)
  next
    case 2
    then have "(a, 24) \<in> set (owned h l as n)" for n by (auto simp: owned_def)
    then show ?thesis using owned_okD [OF D(8), of a 24] by blast
  qed
qed

lemma list_part_record:
  assumes "list_inv h pool bs ls ps l r as" "a \<in> set as"
  shows "\<exists>q. h_parts h a = Some q \<and> elts_of h a = lp_elts q \<and> nelts_of h a = unat (lp_nelts q)"
  using linked_Some [OF list_invD(5) [OF assms(1)] assms(2)]
  by (auto simp: lp_next_at_def elts_of_def nelts_of_def)

lemma parts_agree:
  assumes "\<forall>a \<in> set as. h_parts h' a = h_parts h a"
  shows "a \<in> set as \<Longrightarrow> elts_of h' a = elts_of h a" "a \<in> set as \<Longrightarrow> nelts_of h' a = nelts_of h a"
    "a \<in> set as \<Longrightarrow> lp_next_at h' a = lp_next_at h a"
    "as \<noteq> [] \<Longrightarrow> owned h' l as n = owned h l as n" "list_elements h' r as = list_elements h r as"
proof -
  show el: "elts_of h' a = elts_of h a" and ne: "nelts_of h' a = nelts_of h a"
    and "lp_next_at h' a = lp_next_at h a" if "a \<in> set as" for a
    using assms that by (simp_all add: elts_of_def nelts_of_def lp_next_at_def)
  show "owned h' l as n = owned h l as n" if "as \<noteq> []"
    using that el by (cases as) (simp_all add: owned_def cong: map_cong)
  show "list_elements h' r as = list_elements h r as"
    by (auto simp: list_elements_def part_slots_def el ne intro!: arg_cong [where f = concat])
qed

lemma owned_ok_mono:
  assumes "owned_ok h us xs" "us \<subseteq> us'" "\<And>a n. live h a n \<Longrightarrow> live h' a n"
  shows "owned_ok h' us' xs"
  using assms unfolding owned_ok_def by blast

text \<open>What happens elsewhere, in memory the list does not own, leaves the list as it is.\<close>

lemma list_inv_frame:
  assumes "list_inv h pool bs ls ps l r as" "pool_ok h' pool bs' ls' ps" "used h bs ls \<subseteq> used h' bs' ls'"
    "h_lists h' l = h_lists h l" "\<forall>a \<in> set as. h_parts h' a = h_parts h a"
    "\<And>a n. live h a n \<Longrightarrow> live h' a n"
  shows "list_inv h' pool bs' ls' ps l r as" "list_elements h' r as = list_elements h r as"
    "owned h' l as n = owned h l as n" "nelts_of h' (last as) = nelts_of h (last as)"
proof -
  note P = parts_agree [OF assms(5)]
  note D = list_invD [OF assms(1)]
  have "linked (lp_next_at h') (ngx_list_part l) as"
    by (rule linked_frame [OF D(5)]) (simp add: P)
  moreover have "owned_ok h' (used h' bs' ls') (owned h' l as (ls_nalloc r * ls_size r))"
    unfolding P(4) [OF D(4)] by (rule owned_ok_mono [OF D(8) assms(3,6)])
  moreover have "nelts_of h' a = nelts_of h a" if "a \<in> set (butlast as)" for a
    using that P(2) in_set_butlastD by fast
  moreover have "nelts_of h' (last as) = nelts_of h (last as)" using P(2) D(4) by simp
  ultimately show "list_inv h' pool bs' ls' ps l r as"
    using assms(1,2,4) by (simp add: list_inv_def)
  show "list_elements h' r as = list_elements h r as" by (rule P(5))
  show "owned h' l as n = owned h l as n" using P(4) D(4) by blast
  show "nelts_of h' (last as) = nelts_of h (last as)" using P(2) D(4) by simp
qed

lemma list_inv_client_frame:
  assumes "list_inv h pool bs ls ps l r as" "client_frame h h'" "pool_ok h' pool bs' ls' ps"
    "used h bs ls \<subseteq> used h' bs' ls'"
  shows "list_inv h' pool bs' ls' ps l r as" "list_elements h' r as = list_elements h r as"
    "owned h' l as n = owned h l as n" "nelts_of h' (last as) = nelts_of h (last as)"
proof -
  have l: "live h l 1" using live_1 [OF list_record_live(1) [OF assms(1)]] by simp
  have "live h a 1" if "a \<in> set as" for a
    using list_part_within [OF assms(1) that] live_1 [of h a 24] by simp
  with l have "h_lists h' l = h_lists h l" "\<forall>a \<in> set as. h_parts h' a = h_parts h a"
    using assms(2) by (auto simp: client_frame_def)
  moreover have "live h a n \<Longrightarrow> live h' a n" for a n using assms(2) by (simp add: client_frame_def)
  ultimately show "list_inv h' pool bs' ls' ps l r as" "list_elements h' r as = list_elements h r as"
    "owned h' l as n = owned h l as n" "nelts_of h' (last as) = nelts_of h (last as)"
    using list_inv_frame [OF assms(1,3,4)] by blast+
qed


text \<open>Element \<open>i\<close> of a part is within the memory of that part's elements.\<close>

lemma list_elts_owned:
  assumes "list_inv h pool bs ls ps l r as" "a \<in> set as"
  shows "live h (elts_of h a) (ls_nalloc r * ls_size r)"
    "region (elts_of h a) (ls_nalloc r * ls_size r) \<subseteq> used h bs ls"
proof -
  have "(elts_of h a, ls_nalloc r * ls_size r) \<in> set (owned h l as (ls_nalloc r * ls_size r))"
    using assms(2) list_invD(4) [OF assms(1)] by (cases as) (auto simp: owned_def)
  then show "live h (elts_of h a) (ls_nalloc r * ls_size r)"
    "region (elts_of h a) (ls_nalloc r * ls_size r) \<subseteq> used h bs ls"
    using owned_okD [OF list_invD(8) [OF assms(1)]] by blast+
qed

lemma slot_offset:
  assumes "list_inv h pool bs ls ps l r as" "unat i < unat (ls_nalloc r)"
  shows "unat (ls_size r * i) = unat (ls_size r) * unat i"
    "unat (ls_size r * i) + unat (ls_size r) \<le> unat (ls_nalloc r * ls_size r)"
proof -
  have le: "unat (ls_size r) * unat i + unat (ls_size r) \<le> unat (ls_nalloc r) * unat (ls_size r)"
    using mult_le_mono1 [of "unat i + 1" "unat (ls_nalloc r)" "unat (ls_size r)"] assms(2)
    by (simp add: algebra_simps)
  moreover have "unat (ls_nalloc r) * unat (ls_size r) < 2 ^ 64" using assms(1) by (simp add: list_inv_def)
  ultimately show m: "unat (ls_size r * i) = unat (ls_size r) * unat i" by (simp add: unat_word_ariths)
  show "unat (ls_size r * i) + unat (ls_size r) \<le> unat (ls_nalloc r * ls_size r)"
    using le by (simp add: m list_invD(9) [OF assms(1)])
qed

lemma list_slot_ok:
  assumes "list_inv h pool bs ls ps l r as" "nelts_of h (last as) < unat (ls_nalloc r)"
  shows "\<exists>p h'. list_slot h l (last as) = Some (p, h') \<and> list_inv h' pool bs ls ps l r as
    \<and> list_elements h' r as = list_elements h r as @ [p]
    \<and> (\<exists>x. h' = h\<lparr>h_parts := x\<rparr>) \<and> p \<noteq> NULL"
proof -
  note D = list_invD [OF assms(1)]
  let ?a = "last as" and ?sz = "ls_size r"
  have mem: "?a \<in> set as" using D(4) by simp
  obtain q where q: "h_parts h ?a = Some q" "elts_of h ?a = lp_elts q" "nelts_of h ?a = unat (lp_nelts q)"
    using list_part_record [OF assms(1) mem] by auto
  have lv: "live h ?a 24" using list_part_within [OF assms(1) mem] by simp
  define h' where "h' = h\<lparr>h_parts := (h_parts h)(?a \<mapsto> q\<lparr>lp_nelts := lp_nelts q + 1\<rparr>)\<rparr>"
  have run: "list_slot h l ?a = Some (lp_elts q + ?sz * lp_nelts q, h')"
    using D(3) q(1) lv by (simp add: list_slot_def put_part_def sizeof_defs h'_def)
  have lt: "unat (lp_nelts q) < unat (ls_nalloc r)" using assms(2) q(3) by simp
  then have inc: "unat (lp_nelts q + 1) = unat (lp_nelts q) + 1"
    by (intro unat_plus_1 [of _ "ls_nalloc r"]) (simp add: word_less_nat_alt)
  have el: "elts_of h' a = elts_of h a" for a using q(1) by (simp add: elts_of_def h'_def)
  have nx: "lp_next_at h' a = lp_next_at h a" for a using q(1) by (simp add: lp_next_at_def h'_def)
  have ne: "nelts_of h' a = (if a = ?a then nelts_of h a + 1 else nelts_of h a)" for a
    using q(1) inc by (simp add: nelts_of_def h'_def)
  have us: "used h' bs ls = used h bs ls" "\<And>a n. live h' a n = live h a n" by (simp_all add: h'_def)
  have split: "as = butlast as @ [?a]" using D(4) by simp
  then have nin: "?a \<notin> set (butlast as)" using D(6) by (metis distinct_append disjoint_insert(1) list.set(2) inf_commute)
  have ow: "owned h' l as n = owned h l as n" for n by (simp add: owned_def el)
  have lk: "linked (lp_next_at h') (ngx_list_part l) as"
    by (rule linked_frame [OF D(5)]) (simp add: nx)
  have full: "\<forall>a \<in> set (butlast as). nelts_of h' a = unat (ls_nalloc r)"
    using assms(1) nin by (auto simp: ne list_inv_def)
  have own: "owned_ok h' (used h' bs ls) (owned h' l as (ls_nalloc r * ls_size r))"
    unfolding ow by (rule owned_ok_mono [OF D(8)]) (simp_all add: us)
  have ok: "pool_ok h' pool bs ls ps" and rec: "h_lists h' l = Some r"
    using D(1,3) by (simp_all add: h'_def)
  have inv: "list_inv h' pool bs ls ps l r as"
    using assms(1) lk full own ok rec lt q(3) by (simp add: list_inv_def ne)
  have slots: "part_slots h' sz a = part_slots h sz a @ (if a = ?a then [lp_elts q + sz * lp_nelts q] else [])" for a sz
    using q(2,3) by (simp add: part_slots_def ne el)
  have old: "map (part_slots h' ?sz) (butlast as) = map (part_slots h ?sz) (butlast as)"
    using nin by (auto simp: slots)
  have "list_elements h' r (butlast as @ [?a]) = list_elements h r (butlast as @ [?a]) @ [lp_elts q + ?sz * lp_nelts q]"
    by (simp add: list_elements_def old slots)
  then have els: "list_elements h' r as = list_elements h r as @ [lp_elts q + ?sz * lp_nelts q]"
    using split by simp
  have reg: "live h (lp_elts q) (ls_nalloc r * ?sz)"
    using list_elts_owned(1) [OF assms(1) mem] q(2) by simp
  note k = slot_offset(2) [OF assms(1) lt]
  have "lp_elts q + ?sz * lp_nelts q \<noteq> NULL"
    using live_bounds(1) [OF D(2) live_sub(2) [OF D(2) reg k]] .
  with run inv els show ?thesis unfolding h'_def by blast
qed


text \<open>Chaining a new part whose two regions come fresh from the pool.\<close>

lemma owned_ok_snoc:
  "owned_ok h us (xs @ [(a, n)]) \<longleftrightarrow> owned_ok h us xs \<and> live h a n \<and> region a n \<subseteq> us
     \<and> (\<forall>(b, m) \<in> set xs. region b m \<inter> region a n = {})"
  by (auto simp: owned_ok_def sorted_wrt_append)

lemma list_link_ok:
  assumes "list_inv h pool bs ls ps l r as" "nelts_of h (last as) = unat (ls_nalloc r)"
    "live h b 24" "live h e (ls_nalloc r * ls_size r)"
    "region b 24 \<subseteq> used h bs ls" "region e (ls_nalloc r * ls_size r) \<subseteq> used h bs ls"
    "\<forall>(a, n) \<in> set (owned h l as (ls_nalloc r * ls_size r)). region a n \<inter> region b 24 = {}
        \<and> region a n \<inter> region e (ls_nalloc r * ls_size r) = {}"
    "region b 24 \<inter> region e (ls_nalloc r * ls_size r) = {}"
  shows "\<exists>h'. list_link h l b e = Some h' \<and> list_inv h' pool bs ls ps l (r\<lparr>ls_last := b\<rparr>) (as @ [b])
    \<and> list_elements h' (r\<lparr>ls_last := b\<rparr>) (as @ [b]) = list_elements h r as \<and> nelts_of h' b = 0
    \<and> (\<exists>x y. h' = h\<lparr>h_parts := x, h_lists := y\<rparr>)"
proof -
  note D = list_invD [OF assms(1)]
  let ?a = "last as" and ?N = "ls_nalloc r * ls_size r"
  have mem: "?a \<in> set as" using D(4) by simp
  have b24: "unat b \<in> region b 24" by (simp add: region_def)
  have nin: "b \<notin> set as"
  proof
    assume "b \<in> set as"
    then show False using list_part_within [OF assms(1), of b ?N] assms(7) b24 by fastforce
  qed
  obtain q where q: "h_parts h ?a = Some q" "elts_of h ?a = lp_elts q" "nelts_of h ?a = unat (lp_nelts q)"
    using list_part_record [OF assms(1) mem] by auto
  define parts where "parts = (h_parts h)(b \<mapsto> \<lparr>lp_elts = e, lp_nelts = 0, lp_next = NULL\<rparr>, ?a \<mapsto> q\<lparr>lp_next := b\<rparr>)"
  define h' where "h' = h\<lparr>h_parts := parts, h_lists := (h_lists h)(l \<mapsto> r\<lparr>ls_last := b\<rparr>)\<rparr>"
  have ab: "?a \<noteq> b" using mem nin by auto
  have lst: "ls_last r = ?a" using assms(1) by (simp add: list_inv_def)
  have run: "list_link h l b e = Some h'"
    using D(3) q(1) ab assms(3) list_part_within [OF assms(1) mem] list_record_live(1) [OF assms(1)]
    by (simp add: list_link_def put_part_def put_list_def sizeof_defs lst h'_def parts_def)
  have el: "elts_of h' x = (if x = b then e else elts_of h x)" for x
    using q(1) ab by (simp add: elts_of_def h'_def parts_def)
  have ne: "nelts_of h' x = (if x = b then 0 else nelts_of h x)" for x
    using q(1) ab by (simp add: nelts_of_def h'_def parts_def)
  have nx: "lp_next_at h' x = (if x = ?a then Some b else if x = b then Some NULL else lp_next_at h x)" for x
    using ab by (simp add: lp_next_at_def h'_def parts_def)
  have us: "used h' bs ls = used h bs ls" "\<And>a n. live h' a n = live h a n" by (simp_all add: h'_def)
  have split: "as = butlast as @ [?a]" using D(4) by simp
  then have nin2: "?a \<notin> set (butlast as)" using D(6) by (metis distinct_append disjoint_insert(1) list.set(2) inf_commute)
  have lk0: "linked (lp_next_at h) (ngx_list_part l) (butlast as @ [?a])" using D(4,5) by simp
  have frame: "\<forall>x \<in> set (butlast as). lp_next_at h' x = lp_next_at h x"
    using nin nin2 by (auto simp: nx dest: in_set_butlastD)
  have "linked (lp_next_at h') (ngx_list_part l) (butlast as @ [?a, b])"
    by (rule linked_snoc [OF lk0 frame]) (use ab live_bounds(1) [OF D(2) assms(3)] in \<open>auto simp: nx\<close>)
  then have lk: "linked (lp_next_at h') (ngx_list_part l) (as @ [b])"
    by (subst split) simp
  have old: "elts_of h' x = elts_of h x" "nelts_of h' x = nelts_of h x" if "x \<in> set as" for x
    using that nin by (auto simp: el ne)
  have ow: "owned h' l (as @ [b]) ?N = owned h l as ?N @ [(b, 24), (e, ?N)]"
    using old D(4) by (cases as) (simp_all add: owned_def el cong: map_cong)
  have "owned_ok h (used h bs ls) (owned h l as ?N @ [(b, 24), (e, ?N)])"
    using owned_ok_snoc [of h "used h bs ls" "owned h l as ?N" b 24]
      owned_ok_snoc [of h "used h bs ls" "owned h l as ?N @ [(b, 24)]" e ?N] D(8) assms(3-8) by auto
  then have own: "owned_ok h' (used h' bs ls) (owned h' l (as @ [b]) ?N)"
    unfolding ow by (rule owned_ok_mono) (simp_all add: us)
  have full: "\<forall>a \<in> set as. nelts_of h' a = unat (ls_nalloc r)"
  proof
    fix a assume a: "a \<in> set as"
    then have "a \<in> set (butlast as @ [?a])" using split by simp
    then have "a \<in> set (butlast as) \<or> a = ?a" by auto
    then show "nelts_of h' a = unat (ls_nalloc r)"
      using old(2) [OF a] assms(1,2) by (auto simp: list_inv_def)
  qed
  have rec: "h_lists h' l = Some (r\<lparr>ls_last := b\<rparr>)" and ok: "pool_ok h' pool bs ls ps"
    using D(1) by (simp_all add: h'_def)
  have inv: "list_inv h' pool bs ls ps l (r\<lparr>ls_last := b\<rparr>) (as @ [b])"
    using assms(1) lk own full rec ok by (simp add: list_inv_def ne)
  have "map (part_slots h' (ls_size r)) as = map (part_slots h (ls_size r)) as"
    by (intro map_cong) (auto simp: part_slots_def old)
  moreover have "part_slots h' (ls_size r) b = []" by (simp add: part_slots_def ne)
  ultimately have els: "list_elements h' (r\<lparr>ls_last := b\<rparr>) (as @ [b]) = list_elements h r as"
    by (simp add: list_elements_def cong: map_cong)
  have "nelts_of h' b = 0" by (simp add: ne)
  with run inv els show ?thesis unfolding h'_def by blast
qed


subsection \<open>Push and creation\<close>

text \<open>A region fresh from the pool meets nothing the list owns.\<close>

lemma owned_fresh:
  assumes "list_inv h pool bs ls ps l r as" "region p n \<inter> used h bs ls = {}"
  shows "\<forall>(a, m) \<in> set (owned h l as (ls_nalloc r * ls_size r)). region a m \<inter> region p n = {}"
  using list_invD(8) [OF assms(1)] assms(2) unfolding owned_ok_def by blast

lemma list_extend_ok:
  assumes "list_inv h pool bs ls ps l r as" "nelts_of h (last as) = unat (ls_nalloc r)"
    "live h b 24" "live h e (ls_nalloc r * ls_size r)"
    "region b 24 \<subseteq> used h bs ls" "region e (ls_nalloc r * ls_size r) \<subseteq> used h bs ls"
    "\<forall>(a, n) \<in> set (owned h l as (ls_nalloc r * ls_size r)). region a n \<inter> region b 24 = {}
        \<and> region a n \<inter> region e (ls_nalloc r * ls_size r) = {}"
    "region b 24 \<inter> region e (ls_nalloc r * ls_size r) = {}"
  shows "\<exists>h1 p h2. list_link h l b e = Some h1 \<and> list_slot h1 l b = Some (p, h2) \<and> p \<noteq> NULL
    \<and> list_inv h2 pool bs ls ps l (r\<lparr>ls_last := b\<rparr>) (as @ [b])
    \<and> list_elements h2 (r\<lparr>ls_last := b\<rparr>) (as @ [b]) = list_elements h r as @ [p]
    \<and> used h2 bs ls = used h bs ls \<and> h_mem h2 = h_mem h"
proof -
  obtain h1 where h1: "list_link h l b e = Some h1" "list_inv h1 pool bs ls ps l (r\<lparr>ls_last := b\<rparr>) (as @ [b])"
    "list_elements h1 (r\<lparr>ls_last := b\<rparr>) (as @ [b]) = list_elements h r as" "nelts_of h1 b = 0"
    "\<exists>x y. h1 = h\<lparr>h_parts := x, h_lists := y\<rparr>"
    using list_link_ok [OF assms] by blast
  have "0 < unat (ls_nalloc r)" using assms(1) by (simp add: list_inv_def)
  then obtain p h2 where "list_slot h1 l b = Some (p, h2)" "list_inv h2 pool bs ls ps l (r\<lparr>ls_last := b\<rparr>) (as @ [b])"
    "list_elements h2 (r\<lparr>ls_last := b\<rparr>) (as @ [b]) = list_elements h1 (r\<lparr>ls_last := b\<rparr>) (as @ [b]) @ [p]"
    "\<exists>x. h2 = h1\<lparr>h_parts := x\<rparr>" "p \<noteq> NULL"
    using list_slot_ok [OF h1(2)] h1(4) by auto
  with h1 show ?thesis by fastforce
qed

lemma list_store_other:
  assumes "list_inv h pool bs ls ps l r as" "b \<notin> set as"
  shows "list_inv (h\<lparr>h_parts := (h_parts h)(b \<mapsto> x)\<rparr>) pool bs ls ps l r as"
    "list_elements (h\<lparr>h_parts := (h_parts h)(b \<mapsto> x)\<rparr>) r as = list_elements h r as"
    "owned (h\<lparr>h_parts := (h_parts h)(b \<mapsto> x)\<rparr>) l as n = owned h l as n"
    "nelts_of (h\<lparr>h_parts := (h_parts h)(b \<mapsto> x)\<rparr>) (last as) = nelts_of h (last as)"
proof -
  let ?h = "h\<lparr>h_parts := (h_parts h)(b \<mapsto> x)\<rparr>"
  have "pool_ok ?h pool bs ls ps" "used h bs ls \<subseteq> used ?h bs ls" "h_lists ?h l = h_lists h l"
    "\<forall>a \<in> set as. h_parts ?h a = h_parts h a" "\<And>a n. live h a n \<Longrightarrow> live ?h a n"
    using list_invD(1) [OF assms(1)] assms(2) by auto
  note F = list_inv_frame [OF assms(1) this]
  show "list_inv ?h pool bs ls ps l r as" "list_elements ?h r as = list_elements h r as"
    "owned ?h l as n = owned h l as n" "nelts_of ?h (last as) = nelts_of h (last as)"
    by (rule F, assumption)+
qed

text \<open>The part of \<^verbatim>\<open>ngx_list_push\<close> that serves a list whose last part is full.\<close>

definition list_pushed ::
  "heap \<Rightarrow> addr \<Rightarrow> addr list \<Rightarrow> addr list \<Rightarrow> u64 \<Rightarrow> addr \<Rightarrow> ngx_list_rest \<Rightarrow> addr list \<Rightarrow> addr \<Rightarrow> heap \<Rightarrow> bool" where
  "list_pushed h pool bs ls ps l r as p h' \<longleftrightarrow> (\<exists>bs' ls' r' as'.
     list_inv h' pool bs' ls' ps l r' as' \<and> used h bs ls \<subseteq> used h' bs' ls' \<and> h_mem h' = h_mem h
     \<and> ls_size r' = ls_size r \<and> ls_nalloc r' = ls_nalloc r
     \<and> list_elements h' r' as' = list_elements h r as @ (if p = NULL then [] else [p]))"

lemma list_pushedI:
  assumes "list_inv h' pool bs' ls' ps l r' as'" "used h bs ls \<subseteq> used h' bs' ls'" "h_mem h' = h_mem h"
    "ls_size r' = ls_size r" "ls_nalloc r' = ls_nalloc r"
    "list_elements h' r' as' = list_elements h r as @ (if p = NULL then [] else [p])"
  shows "list_pushed h pool bs ls ps l r as p h'"
  using assms unfolding list_pushed_def by blast

lemma list_push_elts:
  assumes "libc_ok env" "local_null env" "list_inv h1 pool bs1 ls1 ps l r as"
    "nelts_of h1 (last as) = unat (ls_nalloc r)" "live h1 b 24" "region b 24 \<subseteq> used h1 bs1 ls1"
    "\<forall>(a, n) \<in> set (owned h1 l as (ls_nalloc r * ls_size r)). region a n \<inter> region b 24 = {}" "b \<notin> set as"
  shows "\<exists>p h'. (do {
      (elts, h) \<leftarrow> ngx_palloc env h1 pool (ls_nalloc r * ls_size r);
      h \<leftarrow> put_part h b ((part_or_garbage env h b)\<lparr>lp_elts := elts\<rparr>);
      if elts = NULL then Some (NULL, h) else do {
        h \<leftarrow> list_link h l b elts;
        list_slot h l b } }) = Some (p, h') \<and> list_pushed h1 pool bs1 ls1 ps l r as p h'"
proof -
  let ?N = "ls_nalloc r * ls_size r"
  note D = list_invD [OF assms(3)]
  obtain e h2 bs2 ls2 where e: "ngx_palloc env h1 pool ?N = Some (e, h2)" "pool_ok h2 pool bs2 ls2 ps"
    "alloc_result h1 bs1 ls1 ?N e h2 bs2 ls2"
    using ngx_palloc_correct_pool [OF assms(1,2) D(1)] by blast
  have fr: "client_frame h1 h2" using e(3) by (simp add: alloc_result_def)
  note u = alloc_result_used [OF e(3)]
  note i2 = list_inv_client_frame [OF assms(3) fr e(2) u]
  have lv: "live h2 b 24" using fr assms(5) by (simp add: client_frame_def)
  define h3 where "h3 = h2\<lparr>h_parts := (h_parts h2)(b \<mapsto> (part_or_garbage env h2 b)\<lparr>lp_elts := e\<rparr>)\<rparr>"
  note i3 = list_store_other [OF i2(1) assms(8), of "(part_or_garbage env h2 b)\<lparr>lp_elts := e\<rparr>", folded h3_def]
  have h3: "used h3 bs2 ls2 = used h2 bs2 ls2" "\<And>a n. live h3 a n = live h2 a n" "h_mem h3 = h_mem h1"
    using fr by (simp_all add: h3_def client_frame_def)
  have put: "put_part h2 b ((part_or_garbage env h2 b)\<lparr>lp_elts := e\<rparr>) = Some h3"
    using lv by (simp add: put_part_def sizeof_defs h3_def)
  show ?thesis
  proof (cases "e = NULL")
    case True
    have "list_pushed h1 pool bs1 ls1 ps l r as NULL h3"
      using i3(1,2) i2(2) u h3 by (intro list_pushedI) auto
    then show ?thesis using e(1) put True by auto
  next
    case False
    have eN: "region e ?N \<inter> used h1 bs1 ls1 = {}" "region e ?N \<subseteq> used h3 bs2 ls2" "live h3 e ?N"
      using e(3) False by (auto simp: alloc_result_def h3)
    have ow: "owned h3 l as ?N = owned h1 l as ?N" using i3(3) i2(3) by simp
    have apart: "\<forall>(a, n) \<in> set (owned h3 l as ?N). region a n \<inter> region b 24 = {} \<and> region a n \<inter> region e ?N = {}"
      using assms(7) owned_fresh [OF assms(3) eN(1)] unfolding ow by blast
    have be: "region b 24 \<inter> region e ?N = {}" using assms(6) eN(1) by blast
    have full: "nelts_of h3 (last as) = unat (ls_nalloc r)" using i3(4) i2(4) assms(4) by simp
    have b3: "region b 24 \<subseteq> used h3 bs2 ls2" "live h3 b 24" using assms(6) u lv by (auto simp: h3)
    obtain h4 p h5 where h5: "list_link h3 l b e = Some h4" "list_slot h4 l b = Some (p, h5)" "p \<noteq> NULL"
      "list_inv h5 pool bs2 ls2 ps l (r\<lparr>ls_last := b\<rparr>) (as @ [b])"
      "list_elements h5 (r\<lparr>ls_last := b\<rparr>) (as @ [b]) = list_elements h3 r as @ [p]"
      "used h5 bs2 ls2 = used h3 bs2 ls2" "h_mem h5 = h_mem h3"
      using list_extend_ok [OF i3(1) full b3(2) eN(3) b3(1) eN(2) apart be] by blast
    have "list_pushed h1 pool bs1 ls1 ps l r as p h5"
      using h5(3-7) i3(2) i2(2) u h3 by (intro list_pushedI [OF h5(4)]) auto
    then show ?thesis using e(1) put h5(1,2) False by auto
  qed
qed

lemma list_pushed_trans:
  assumes "client_frame h h1" "used h bs ls \<subseteq> used h1 bs1 ls1" "list_elements h1 r as = list_elements h r as"
    "list_pushed h1 pool bs1 ls1 ps l r as p h'"
  shows "list_pushed h pool bs ls ps l r as p h'"
  using assms unfolding list_pushed_def client_frame_def by (metis (no_types, lifting) subset_trans)

lemma list_push_room:
  assumes "list_inv h pool bs ls ps l r as" "nelts_of h (last as) < unat (ls_nalloc r)"
  shows "\<exists>p h'. list_slot h l (last as) = Some (p, h') \<and> list_pushed h pool bs ls ps l r as p h'"
proof -
  obtain p h' where p: "list_slot h l (last as) = Some (p, h')" "list_inv h' pool bs ls ps l r as"
    "list_elements h' r as = list_elements h r as @ [p]" "\<exists>x. h' = h\<lparr>h_parts := x\<rparr>" "p \<noteq> NULL"
    using list_slot_ok [OF assms] by blast
  then have "list_pushed h pool bs ls ps l r as p h'" by (intro list_pushedI [OF p(2)]) auto
  with p(1) show ?thesis by blast
qed

lemma ngx_list_push_ok:
  assumes "libc_ok env" "local_null env" "list_inv h pool bs ls ps l r as"
  shows "\<exists>p h'. ngx_list_push env h l = Some (p, h') \<and> list_pushed h pool bs ls ps l r as p h'"
proof -
  note D = list_invD [OF assms(3)]
  have lst: "ls_last r = last as" and pl: "ls_pool r = pool" and le: "nelts_of h (last as) \<le> unat (ls_nalloc r)"
    using assms(3) by (simp_all add: list_inv_def)
  obtain q where q: "h_parts h (last as) = Some q" "nelts_of h (last as) = unat (lp_nelts q)"
    using list_part_record [OF assms(3), of "last as"] D(4) by auto
  show ?thesis
  proof (cases "lp_nelts q = ls_nalloc r")
    case False
    then have "nelts_of h (last as) < unat (ls_nalloc r)" using le q(2) by (simp add: le_less word_unat_eq_iff)
    from list_push_room [OF assms(3) this] show ?thesis
      using D(3) q(1) False by (simp add: ngx_list_push_def lst)
  next
    case True
    obtain b h1 bs1 ls1 where b: "ngx_palloc env h pool 24 = Some (b, h1)" "pool_ok h1 pool bs1 ls1 ps"
      "alloc_result h bs ls 24 b h1 bs1 ls1"
      using ngx_palloc_correct_pool [OF assms(1,2) D(1)] by blast
    have fr: "client_frame h h1" using b(3) by (simp add: alloc_result_def)
    note u = alloc_result_used [OF b(3)]
    note i = list_inv_client_frame [OF assms(3) fr b(2) u]
    show ?thesis
    proof (cases "b = NULL")
      case Null: True
      then have "ngx_list_push env h l = Some (NULL, h1)"
        using D(3) q(1) True b(1) by (simp add: ngx_list_push_def lst pl sizeof_defs)
      moreover have "list_pushed h pool bs ls ps l r as NULL h1"
        using i(1,2) u fr by (intro list_pushedI [OF i(1)]) (auto simp: client_frame_def)
      ultimately show ?thesis by blast
    next
      case False
      have b24: "region b 24 \<inter> used h bs ls = {}" "region b 24 \<subseteq> used h1 bs1 ls1" "live h1 b 24"
        using b(3) False by (auto simp: alloc_result_def)
      have "unat b \<in> region b 24" by (simp add: region_def)
      then have nin: "b \<notin> set as" using b24(1) list_part_within [OF assms(3)] by blast
      have full: "nelts_of h1 (last as) = unat (ls_nalloc r)" using i(4) q(2) True by simp
      note apart = owned_fresh [OF assms(3) b24(1), folded i(3)]
      obtain p h' where "ngx_list_push env h l = Some (p, h')" "list_pushed h1 pool bs1 ls1 ps l r as p h'"
        using list_push_elts [OF assms(1,2) i(1) full b24(3,2) apart nin] D(3) q(1) True b(1) False list_invD(3) [OF i(1)]
        by (auto simp: ngx_list_push_def lst pl sizeof_defs)
      then show ?thesis using list_pushed_trans [OF fr u i(2)] by blast
    qed
  qed
qed

lemma ngx_list_create_ok:
  assumes "libc_ok env" "local_null env" "pool_ok h pool bs ls ps" "n \<noteq> 0" "unat n * unat sz < 2 ^ 64"
  shows "\<exists>l h' bs' ls'. ngx_list_create env h pool n sz = Some (l, h') \<and> pool_ok h' pool bs' ls' ps
    \<and> used h bs ls \<subseteq> used h' bs' ls' \<and> h_mem h' = h_mem h
    \<and> (l \<noteq> NULL \<longrightarrow> region l 56 \<inter> used h bs ls = {}
         \<and> (\<exists>r as. list_inv h' pool bs' ls' ps l r as \<and> list_elements h' r as = []
              \<and> ls_size r = sz \<and> ls_nalloc r = n))"
proof -
  obtain l h1 bs1 ls1 where l: "ngx_palloc env h pool 56 = Some (l, h1)" "pool_ok h1 pool bs1 ls1 ps"
    "alloc_result h bs ls 56 l h1 bs1 ls1"
    using ngx_palloc_correct_pool [OF assms(1-3)] by blast
  note u1 = alloc_result_used [OF l(3)]
  have m1: "h_mem h1 = h_mem h" using l(3) by (simp add: alloc_result_def client_frame_def)
  show ?thesis
  proof (cases "l = NULL")
    case True
    then have "ngx_list_create env h pool n sz = Some (NULL, h1)"
      using l(1) by (simp add: ngx_list_create_def sizeof_defs)
    then show ?thesis using l(2) u1 m1 by blast
  next
    case False
    have l56: "region l 56 \<inter> used h bs ls = {}" "region l 56 \<subseteq> used h1 bs1 ls1" "live h1 l 56"
      using l(3) False by (auto simp: alloc_result_def)
    obtain e h2 bs2 ls2 where e: "ngx_palloc env h1 pool (n * sz) = Some (e, h2)" "pool_ok h2 pool bs2 ls2 ps"
      "alloc_result h1 bs1 ls1 (n * sz) e h2 bs2 ls2"
      using ngx_palloc_correct_pool [OF assms(1,2) l(2)] by blast
    note u2 = alloc_result_used [OF e(3)]
    have fr2: "client_frame h1 h2" using e(3) by (simp add: alloc_result_def)
    then have m2: "h_mem h2 = h_mem h" and l2: "live h2 l 56"
      using m1 l56(3) by (simp_all add: client_frame_def)
    note ok2 = pool_okD(2) [OF e(2)]
    have p24: "live h2 (ngx_list_part l) 24" and p8: "ngx_list_part l \<noteq> NULL"
      using live_sub(2) [OF ok2 l2, of 8 24] live_bounds(1) [OF ok2 live_sub(2) [OF ok2 l2, of 8 24]]
      by (simp_all add: ngx_list_part_def)
    show ?thesis
    proof (cases "e = NULL")
      case Null: True
      define h3 where "h3 = h2\<lparr>h_parts := (h_parts h2)(ngx_list_part l \<mapsto>
        (part_or_garbage env h2 (ngx_list_part l))\<lparr>lp_elts := NULL\<rparr>)\<rparr>"
      have "ngx_list_create env h pool n sz = Some (NULL, h3)"
        using l(1) False e(1) Null p24
        by (simp add: ngx_list_create_def ngx_list_init_def sizeof_defs put_part_def h3_def NGX_OK_def NGX_ERROR_def)
      moreover have "pool_ok h3 pool bs2 ls2 ps" "used h3 bs2 ls2 = used h2 bs2 ls2" "h_mem h3 = h_mem h"
        using e(2) m2 by (simp_all add: h3_def)
      ultimately show ?thesis using u1 u2 by blast
    next
      case Elts: False
      define r where "r = \<lparr>ls_last = ngx_list_part l, ls_size = sz, ls_nalloc = n, ls_pool = pool\<rparr>"
      define h3 where "h3 = h2\<lparr>h_parts := (h_parts h2)(ngx_list_part l \<mapsto> \<lparr>lp_elts = e, lp_nelts = 0, lp_next = NULL\<rparr>),
        h_lists := (h_lists h2)(l \<mapsto> r)\<rparr>"
      have run: "ngx_list_create env h pool n sz = Some (l, h3)"
        using l(1) False e(1) Elts p24 l2
        by (simp add: ngx_list_create_def ngx_list_init_def sizeof_defs put_part_def put_list_def h3_def r_def NGX_OK_def NGX_ERROR_def)
      have eN: "region e (n * sz) \<inter> used h1 bs1 ls1 = {}" "region e (n * sz) \<subseteq> used h2 bs2 ls2" "live h2 e (n * sz)"
        using e(3) Elts by (auto simp: alloc_result_def)
      have h3: "pool_ok h3 pool bs2 ls2 ps" "used h3 bs2 ls2 = used h2 bs2 ls2" "h_mem h3 = h_mem h"
        "\<And>a n. live h3 a n = live h2 a n" "h_lists h3 l = Some r"
        using e(2) m2 by (simp_all add: h3_def)
      have part: "lp_next_at h3 (ngx_list_part l) = Some NULL" "elts_of h3 (ngx_list_part l) = e"
        "nelts_of h3 (ngx_list_part l) = 0"
        by (simp_all add: h3_def lp_next_at_def elts_of_def nelts_of_def)
      have "region l 56 \<inter> region e (n * sz) = {}" using l56(2) eN(1) by blast
      then have "owned_ok h3 (used h3 bs2 ls2) (owned h3 l [ngx_list_part l] (n * sz))"
        using l2 eN(2,3) l56(2) u2 by (simp add: owned_ok_def owned_def part h3)
      moreover have "0 < unat n" using assms(4) by (simp add: unat_gt_0)
      ultimately have "list_inv h3 pool bs2 ls2 ps l r [ngx_list_part l]"
        using h3 p8 part assms(5) by (simp add: list_inv_def r_def)
      moreover have "list_elements h3 r [ngx_list_part l] = []"
        by (simp add: list_elements_def part_slots_def part)
      ultimately show ?thesis using run h3(1-3) l56(1) u1 u2 by (fastforce simp: r_def)
    qed
  qed
qed

text \<open>The elements of a list lie apart from each other.\<close>

lemma sorted_wrt_concat:
  assumes "\<forall>xs \<in> set xss. sorted_wrt P xs" "sorted_wrt (\<lambda>xs ys. \<forall>x \<in> set xs. \<forall>y \<in> set ys. P x y) xss"
  shows "sorted_wrt P (concat xss)"
  using assms by (induction xss) (auto simp: sorted_wrt_append)

lemma owned_elts_apart:
  assumes "owned_ok h us (owned h l as n)" "as \<noteq> []"
  shows "sorted_wrt (\<lambda>a b. region (elts_of h a) n \<inter> region (elts_of h b) n = {}) as"
proof -
  let ?P = "\<lambda>(a, n) (b, m). region a n \<inter> region b m = {}"
  have tail: "sorted_wrt (\<lambda>a b. region (elts_of h a) n \<inter> region (elts_of h b) n = {}) xs"
    if "sorted_wrt ?P (concat (map (\<lambda>a. [(a, 24), (elts_of h a, n)]) xs))" for xs
    using that by (induction xs) auto
  obtain a xs where "as = a # xs" using assms(2) by (cases as) auto
  then show ?thesis using assms(1) tail by (auto simp: owned_ok_def owned_def)
qed

lemma slot_region:
  assumes "list_inv h pool bs ls ps l r as" "a \<in> set as" "i < nelts_of h a"
  shows "unat (elts_of h a + ls_size r * of_nat i) = unat (elts_of h a) + unat (ls_size r) * i"
    "live h (elts_of h a + ls_size r * of_nat i) (ls_size r)"
    "region (elts_of h a + ls_size r * of_nat i) (ls_size r) \<subseteq> region (elts_of h a) (ls_nalloc r * ls_size r)"
proof -
  note D = list_invD [OF assms(1)]
  have "a \<in> set (butlast as @ [last as])" using assms(2) D(4) by simp
  then have "nelts_of h a \<le> unat (ls_nalloc r)"
    using assms(1) by (auto simp: list_inv_def)
  then have i: "i < unat (ls_nalloc r)" using assms(3) by simp
  also have "\<dots> < 2 ^ 64" using unsigned_less [of "ls_nalloc r", where ?'a = nat] by simp
  finally have u: "unat (of_nat i :: u64) = i" by (rule unat_of_nat_64)
  note k = slot_offset [OF assms(1), of "of_nat i", unfolded u, OF i]
  note s = live_sub [OF D(2) list_elts_owned(1) [OF assms(1,2)] k(2)]
  show "unat (elts_of h a + ls_size r * of_nat i) = unat (elts_of h a) + unat (ls_size r) * i"
    using s(1) k(1) by simp
  show "live h (elts_of h a + ls_size r * of_nat i) (ls_size r)"
    "region (elts_of h a + ls_size r * of_nat i) (ls_size r) \<subseteq> region (elts_of h a) (ls_nalloc r * ls_size r)"
    using s(2,3) by simp_all
qed

lemma list_elements_apart:
  assumes "list_inv h pool bs ls ps l r as"
  shows "sorted_wrt (\<lambda>p q. region p (ls_size r) \<inter> region q (ls_size r) = {}) (list_elements h r as)"
    "\<forall>p \<in> set (list_elements h r as). live h p (ls_size r) \<and> region p (ls_size r) \<subseteq> used h bs ls"
proof -
  note D = list_invD [OF assms]
  let ?sz = "ls_size r" and ?N = "ls_nalloc r * ls_size r"
  let ?P = "\<lambda>p q. region p ?sz \<inter> region q ?sz = {}"
  have within: "region p ?sz \<subseteq> region (elts_of h a) ?N" if "a \<in> set as" "p \<in> set (part_slots h ?sz a)" for a p
  proof -
    note ap = that
    obtain i where "i < nelts_of h a" "p = elts_of h a + ?sz * of_nat i"
      using ap(2) by (auto simp: part_slots_def)
    then show ?thesis using slot_region(3) [OF assms ap(1), of i] by simp
  qed
  have "sorted_wrt ?P (part_slots h ?sz a)" if a: "a \<in> set as" for a
    unfolding part_slots_def
  proof (subst sorted_wrt_iff_nth_less, intro allI impI)
    fix i j assume ij: "i < j" "j < length (map (\<lambda>i. elts_of h a + ?sz * of_nat i) [0 ..< nelts_of h a])"
    have "unat ?sz * i + unat ?sz \<le> unat ?sz * j"
      using mult_le_mono2 [of "i + 1" j "unat ?sz"] ij(1) by (simp add: algebra_simps)
    then show "?P (map (\<lambda>i. elts_of h a + ?sz * of_nat i) [0 ..< nelts_of h a] ! i)
        (map (\<lambda>i. elts_of h a + ?sz * of_nat i) [0 ..< nelts_of h a] ! j)"
      using ij slot_region(1) [OF assms a, of i] slot_region(1) [OF assms a, of j]
      by (auto simp: region_def)
  qed
  moreover have "sorted_wrt (\<lambda>xs ys. \<forall>x \<in> set xs. \<forall>y \<in> set ys. ?P x y) (map (part_slots h ?sz) as)"
    unfolding sorted_wrt_map
    by (rule sorted_wrt_mono_rel [OF _ owned_elts_apart [OF D(8,4)]]) (use within in blast)
  ultimately show "sorted_wrt ?P (list_elements h r as)"
    unfolding list_elements_def by (intro sorted_wrt_concat) auto
  show "\<forall>p \<in> set (list_elements h r as). live h p ?sz \<and> region p ?sz \<subseteq> used h bs ls"
  proof
    fix p assume "p \<in> set (list_elements h r as)"
    then obtain a where a: "a \<in> set as" "p \<in> set (part_slots h ?sz a)" by (auto simp: list_elements_def)
    then have "live h p ?sz" using slot_region(2) [OF assms] by (auto simp: part_slots_def)
    then show "live h p ?sz \<and> region p ?sz \<subseteq> used h bs ls"
      using within [OF a] list_elts_owned(2) [OF assms a(1)] by blast
  qed
qed


subsection \<open>A list is an append-only container\<close>

text \<open>\<open>holds\<close>: the list at \<open>l\<close> has the elements \<open>xs\<close>, in a heap whose bytes are \<open>m\<close>.\<close>

definition holds ::
  "libc \<Rightarrow> addr \<Rightarrow> u64 \<Rightarrow> addr \<Rightarrow> u64 \<Rightarrow> u64 \<Rightarrow> (addr \<Rightarrow> 8 word) \<Rightarrow> heap \<Rightarrow> addr list \<Rightarrow> bool" where
  "holds env pool ps l n sz m h xs \<longleftrightarrow> libc_ok env \<and> local_null env \<and> h_mem h = m
     \<and> (\<exists>bs ls r as. list_inv h pool bs ls ps l r as \<and> list_elements h r as = xs
          \<and> ls_size r = sz \<and> ls_nalloc r = n)"

interpretation ngx_list: appender "holds env pool ps l n sz m" "\<lambda>h. ngx_list_push env h l"
  for env pool ps l n sz m
proof unfold_locales
  fix h xs
  assume "holds env pool ps l n sz m h xs"
  then obtain bs ls r as where h: "libc_ok env" "local_null env" "h_mem h = m"
    "list_inv h pool bs ls ps l r as" "list_elements h r as = xs" "ls_size r = sz" "ls_nalloc r = n"
    by (auto simp: holds_def)
  from ngx_list_push_ok [OF h(1,2,4)]
  show "\<exists>p h'. ngx_list_push env h l = Some (p, h')
      \<and> holds env pool ps l n sz m h' (xs @ (if p = NULL then [] else [p]))"
    using h unfolding holds_def list_pushed_def by (metis (no_types, lifting))
qed

lemma holds_apart:
  assumes "holds env pool ps l n sz m h xs"
  shows "sorted_wrt (\<lambda>p q. region p sz \<inter> region q sz = {}) xs \<and> (\<forall>p \<in> set xs. live h p sz)"
  using assms list_elements_apart by (auto simp: holds_def)

subsection \<open>Pushes without a wild call\<close>

text \<open>
  A push makes requests only when the last part is full: the new part's and its elements'. One of
  them meets a wild call of \<^verbatim>\<open>posix_memalign\<close>, or one of a number of pushes does.
\<close>

definition push_wild :: "libc \<Rightarrow> heap \<Rightarrow> addr \<Rightarrow> bool" where
  "push_wild env h l \<longleftrightarrow> (\<exists>r q. h_lists h l = Some r \<and> h_parts h (ls_last r) = Some q \<and> lp_nelts q = ls_nalloc r
     \<and> pallocs_wild env (ls_pool r) h [sizeof_ngx_list_part_t, ls_nalloc r * ls_size r])"

fun pushes_wild :: "libc \<Rightarrow> addr \<Rightarrow> nat \<Rightarrow> heap \<Rightarrow> bool" where
  "pushes_wild env l 0 h = False"
| "pushes_wild env l (Suc k) h = (push_wild env h l
     \<or> (\<exists>p h'. ngx_list_push env h l = Some (p, h') \<and> pushes_wild env l k h'))"

lemma part_garbage_calm [simp]: "part_or_garbage (calm env) h a = part_or_garbage env h a"
  by (simp add: part_or_garbage_def cong: option.case_cong)

lemma bump_pushes_wild [simp]: "\<not> push_wild bump_libc h l" "\<not> pushes_wild bump_libc l k h"
proof -
  show p: "\<not> push_wild bump_libc h l" for h by (simp add: push_wild_def)
  show "\<not> pushes_wild bump_libc l k h" by (induction k arbitrary: h) (simp_all add: p)
qed

lemma calm_list_push:
  assumes "libc_ok env" "list_inv h pool bs ls ps l r as" "\<not> push_wild env h l"
  shows "ngx_list_push env h l = ngx_list_push (calm env) h l"
proof -
  note D = list_invD [OF assms(2)]
  have env: "libc_ok (calm env)" "local_null (calm env)" using assms(1) by simp_all
  have lst: "ls_last r = last as" "ls_pool r = pool" using assms(2) by (simp_all add: list_inv_def)
  obtain q where q: "h_parts h (last as) = Some q" using list_part_record [OF assms(2), of "last as"] D(4) by auto
  show ?thesis
  proof (cases "lp_nelts q = ls_nalloc r")
    case False
    then show ?thesis using D(3) lst q by (simp add: ngx_list_push_def)
  next
    case True
    then have w: "\<not> pallocs_wild env pool h [24, ls_nalloc r * ls_size r]"
      using assms(3) D(3) lst q by (simp add: push_wild_def sizeof_defs)
    have one: "ngx_palloc env h pool 24 = ngx_palloc (calm env) h pool 24" using w by (intro calm_palloc) simp
    have two: "ngx_palloc env h1 pool (ls_nalloc r * ls_size r) = ngx_palloc (calm env) h1 pool (ls_nalloc r * ls_size r)"
      and rec: "h_lists h1 l = Some r"
      if p: "ngx_palloc (calm env) h pool 24 = Some (p, h1)" "p \<noteq> NULL" for p h1
    proof -
      show "ngx_palloc env h1 pool (ls_nalloc r * ls_size r) = ngx_palloc (calm env) h1 pool (ls_nalloc r * ls_size r)"
        using w p one by (intro calm_palloc) auto
      obtain bs' ls' where "alloc_result h bs ls 24 p h1 bs' ls'"
        using ngx_palloc_correct_pool [OF env D(1), of 24] p by auto
      then have "client_frame h h1" by (simp add: alloc_result_def)
      then show "h_lists h1 l = Some r"
        using D(3) live_1 [OF list_record_live(1) [OF assms(2)]] by (simp add: client_frame_def)
    qed
    show ?thesis
      using D(3) lst q True one two rec by (auto simp: ngx_list_push_def sizeof_defs intro!: Option.bind_cong)
  qed
qed

lemma calm_pushes:
  assumes "libc_ok env"
  shows "holds (calm env) pool ps l n sz m h xs \<Longrightarrow> \<not> pushes_wild env l k h \<Longrightarrow>
    run_pushes (\<lambda>h. ngx_list_push env h l) k h = run_pushes (\<lambda>h. ngx_list_push (calm env) h l) k h"
proof (induction k arbitrary: h xs)
  case (Suc k)
  obtain bs ls r as where "list_inv h pool bs ls ps l r as" using Suc.prems(1) by (auto simp: holds_def)
  then have eq: "ngx_list_push env h l = ngx_list_push (calm env) h l"
    using calm_list_push [OF assms] Suc.prems(2) by simp
  obtain p h1 where p: "ngx_list_push (calm env) h l = Some (p, h1)"
    "holds (calm env) pool ps l n sz m h1 (xs @ (if p = NULL then [] else [p]))"
    using ngx_list.push_appends [OF Suc.prems(1)] by blast
  have "\<not> pushes_wild env l k h1" using Suc.prems(2) eq p(1) by auto
  from Suc.IH [OF p(2) this] show ?case using eq p(1) by simp
qed simp

lemma calm_list_create:
  assumes "\<not> pallocs_wild env pool h [sizeof_ngx_list_t, n * sz]"
  shows "ngx_list_create env h pool n sz = ngx_list_create (calm env) h pool n sz"
proof -
  have one: "ngx_palloc env h pool sizeof_ngx_list_t = ngx_palloc (calm env) h pool sizeof_ngx_list_t"
    using assms by (intro calm_palloc) simp
  have two: "ngx_palloc env h1 pool (n * sz) = ngx_palloc (calm env) h1 pool (n * sz)"
    if "ngx_palloc (calm env) h pool sizeof_ngx_list_t = Some (p, h1)" "p \<noteq> NULL" for p h1
    using assms that one by (intro calm_palloc) auto
  show ?thesis
    using two by (auto simp: ngx_list_create_def ngx_list_init_def one intro!: Option.bind_cong)
qed

subsection \<open>Properties\<close>

text \<open>
  C7: \<open>ngx_list_push\<close> refines appending to a sequence of element addresses: it returns a new last
  element or, when memory runs out, \<open>NULL\<close> and the same sequence. The elements before never move,
  the new one is live memory apart from all of them, and no byte is written. The one other outcome needs a full last
  part: a \<^verbatim>\<open>posix_memalign\<close> call for the new part or its elements fails while the local that \<open>ngx_memalign\<close>
  returns for it is not \<open>NULL\<close>.
\<close>

theorem ngx_list_push_correct:
  assumes "libc_ok env" "list_inv h pool bs ls ps l r as"
  shows "(\<exists>p h' bs' ls' r' as'. ngx_list_push env h l = Some (p, h')
    \<and> list_inv h' pool bs' ls' ps l r' as' \<and> used h bs ls \<subseteq> used h' bs' ls' \<and> h_mem h' = h_mem h
    \<and> (p = NULL \<longrightarrow> list_elements h' r' as' = list_elements h r as)
    \<and> (p \<noteq> NULL \<longrightarrow> list_elements h' r' as' = list_elements h r as @ [p] \<and> live h' p (ls_size r)
         \<and> (\<forall>q \<in> set (list_elements h r as). region q (ls_size r) \<inter> region p (ls_size r) = {})))
    \<or> push_wild env h l"
proof (cases "push_wild env h l")
  case False
  have "libc_ok (calm env)" "local_null (calm env)" using assms(1) by simp_all
  from ngx_list_push_ok [OF this assms(2)] obtain p h' bs' ls' r' as' where p: "ngx_list_push env h l = Some (p, h')"
    "list_inv h' pool bs' ls' ps l r' as'" "used h bs ls \<subseteq> used h' bs' ls'" "h_mem h' = h_mem h"
    "ls_size r' = ls_size r" "list_elements h' r' as' = list_elements h r as @ (if p = NULL then [] else [p])"
    unfolding calm_list_push [OF assms False] list_pushed_def by blast
  note ap = list_elements_apart [OF p(2), unfolded p(5,6)]
  show ?thesis
    by (rule disjI1, rule exI [of _ p], rule exI [of _ h'], rule exI [of _ bs'], rule exI [of _ ls'], rule exI [of _ r'],
        rule exI [of _ as']) (use p ap in \<open>auto simp: sorted_wrt_append\<close>)
qed simp

text \<open>
  C23: \<open>ngx_list_create\<close> followed by any number of pushes is defined; when the list was
  created, the addresses the pushes returned, failures left out, are its elements in order, they
  lie apart from each other in live memory, and no byte was written. The one other outcome is that, in the creation or in
  one of the pushes, a \<^verbatim>\<open>posix_memalign\<close> call fails while the local that \<open>ngx_memalign\<close> returns for it is not \<open>NULL\<close>.
\<close>

theorem ngx_list_create_pushes:
  assumes "libc_ok env" "pool_ok h pool bs ls ps" "n \<noteq> 0" "unat n * unat sz < 2 ^ 64"
  shows "(\<exists>l h'. ngx_list_create env h pool n sz = Some (l, h')
    \<and> (l \<noteq> NULL \<longrightarrow> pushes_wild env l k h' \<or>
        (\<exists>xs h''. run_pushes (\<lambda>h. ngx_list_push env h l) k h' = Some (xs, h'') \<and> length xs = k
         \<and> holds (calm env) pool ps l n sz (h_mem h) h'' (filter (\<lambda>p. p \<noteq> NULL) xs)
         \<and> sorted_wrt (\<lambda>p q. region p sz \<inter> region q sz = {}) (filter (\<lambda>p. p \<noteq> NULL) xs)
         \<and> (\<forall>p \<in> set xs. p \<noteq> NULL \<longrightarrow> live h'' p sz))))
    \<or> pallocs_wild env pool h [sizeof_ngx_list_t, n * sz]"
proof (cases "pallocs_wild env pool h [sizeof_ngx_list_t, n * sz]")
  case False
  have env: "libc_ok (calm env)" "local_null (calm env)" using assms(1) by simp_all
  obtain l h' bs' ls' where l: "ngx_list_create env h pool n sz = Some (l, h')" "h_mem h' = h_mem h"
    "l \<noteq> NULL \<longrightarrow> (\<exists>r as. list_inv h' pool bs' ls' ps l r as \<and> list_elements h' r as = [] \<and> ls_size r = sz \<and> ls_nalloc r = n)"
    using ngx_list_create_ok [OF env assms(2-4)] unfolding calm_list_create [OF False] by blast
  have "\<exists>xs h''. run_pushes (\<lambda>h. ngx_list_push env h l) k h' = Some (xs, h'') \<and> length xs = k
      \<and> holds (calm env) pool ps l n sz (h_mem h) h'' (filter (\<lambda>p. p \<noteq> NULL) xs)"
    if "l \<noteq> NULL" "\<not> pushes_wild env l k h'"
  proof -
    have holds: "holds (calm env) pool ps l n sz (h_mem h) h' []" using l(2,3) that(1) env by (auto simp: holds_def)
    show ?thesis using ngx_list.pushes_append [OF holds, of k] calm_pushes [OF assms(1) holds that(2)] by simp
  qed
  then show ?thesis using l(1) holds_apart by fastforce
qed simp


definition demo_list :: heap where
  "demo_list = snd (the (ngx_list_create bump_libc demo_heap 4096 2 16))"

lemma demo_list_create: "ngx_list_create bump_libc demo_heap 4096 2 16 = Some (4176, demo_list)"
  by (simp add: demo_list_def demo_eval ngx_list_create_def ngx_list_init_def put_part_def put_list_def
      ngx_list_part_def)

theorem ngx_list_push_correct_witness:
  "\<exists>p h' bs' ls' r' as'. ngx_list_push bump_libc demo_list 4176 = Some (p, h')
     \<and> list_inv h' 4096 bs' ls' 1024 4176 r' as' \<and> set (list_elements h' r' as') \<subseteq> {p}"
proof -
  obtain bs ls r as where "list_inv demo_list 4096 bs ls 1024 4176 r as" "list_elements demo_list r as = []"
    using ngx_list_create_ok [OF bump_libc_ok bump_libc_local demo_ok(1), of 2 16] demo_list_create by auto
  then show ?thesis
    using ngx_list_push_correct [OF bump_libc_ok, of demo_list 4096 bs ls 1024 4176 r as] bump_pushes_wild(1)
    by fastforce
qed

theorem ngx_list_create_pushes_witness:
  "\<exists>xs h''. run_pushes (\<lambda>h. ngx_list_push bump_libc h 4176) 5 demo_list = Some (xs, h'') \<and> length xs = 5
     \<and> holds bump_libc 4096 1024 4176 2 16 (h_mem demo_heap) h'' (filter (\<lambda>p. p \<noteq> NULL) xs)"
  using ngx_list_create_pushes [OF bump_libc_ok demo_ok(1), of 2 16 5]
  unfolding demo_list_create by fastforce

end
