(* ===== verification/Ngx_Array.thy ===== *)
theory Ngx_Array
  imports Ngx_Pool_Props
begin

text \<open>
  \<^verbatim>\<open>src/core/ngx_array.c\<close> and \<^verbatim>\<open>ngx_array.h\<close>: an array in one piece of memory from a pool, that
  is meant to grow when an element is pushed. The code of \<^verbatim>\<open>ngx_array_push\<close> has the statement
  \<^verbatim>\<open>a->nelts;\<close> where the count should be incremented, and \<^verbatim>\<open>ngx_array_push_n\<close> uses the local \<open>p\<close>
  without a value; both are modelled as written.
\<close>

subsection \<open>Operations\<close>

text \<open>The record at \<open>a\<close>, with any values where nothing was stored before.\<close>

definition array_or_garbage :: "libc \<Rightarrow> heap \<Rightarrow> addr \<Rightarrow> ngx_array_t" where
  "array_or_garbage env h a = (case h_arrays h a of Some r \<Rightarrow> r
     | None \<Rightarrow> \<lparr>ar_elts = lc_uninit env (h_clock h), ar_nelts = lc_uninit_n env (h_clock h),
         ar_size = lc_uninit_n env (h_clock h), ar_nalloc = lc_uninit_n env (h_clock h),
         ar_pool = lc_uninit env (h_clock h)\<rparr>)"

definition ngx_array_init ::
  "libc \<Rightarrow> heap \<Rightarrow> addr \<Rightarrow> addr \<Rightarrow> u64 \<Rightarrow> u64 \<Rightarrow> (u64 \<times> heap) option" where
  "ngx_array_init env h a pool n sz = do {
     h \<leftarrow> put_array h a ((array_or_garbage env h a)
       \<lparr>ar_nelts := 0, ar_size := sz, ar_nalloc := n, ar_pool := pool\<rparr>);
     (p, h) \<leftarrow> ngx_palloc env h pool (n * sz);
     r \<leftarrow> h_arrays h a;
     h \<leftarrow> put_array h a (r\<lparr>ar_elts := p\<rparr>);
     if p = NULL then Some (NGX_ERROR, h) else Some (NGX_OK, h) }"

definition ngx_array_create ::
  "libc \<Rightarrow> heap \<Rightarrow> addr \<Rightarrow> u64 \<Rightarrow> u64 \<Rightarrow> (addr \<times> heap) option" where
  "ngx_array_create env h p n sz = do {
     (a, h) \<leftarrow> ngx_palloc env h p sizeof_ngx_array_t;
     if a = NULL then Some (NULL, h) else do {
       (rc, h) \<leftarrow> ngx_array_init env h a p n sz;
       if rc \<noteq> NGX_OK then Some (NULL, h) else Some (a, h) } }"

text \<open>The memory goes back to the pool only where it ends at the first block's free end.\<close>

definition ngx_array_destroy :: "heap \<Rightarrow> addr \<Rightarrow> heap option" where
  "ngx_array_destroy h a = do {
     r \<leftarrow> h_arrays h a;
     let p = ar_pool r;
     d \<leftarrow> h_pds h p;
     h \<leftarrow> (if ar_elts r + ar_size r * ar_nalloc r = pd_last d
           then put_pd h p (d\<lparr>pd_last := pd_last d - ar_size r * ar_nalloc r\<rparr>) else Some h);
     d \<leftarrow> h_pds h p;
     (if a + sizeof_ngx_array_t = pd_last d then put_pd h p (d\<lparr>pd_last := a\<rparr>) else Some h) }"

text \<open>Room for one more element in a full array: in place, or in memory twice the size.\<close>

definition array_grow :: "libc \<Rightarrow> heap \<Rightarrow> addr \<Rightarrow> (bool \<times> heap) option" where
  "array_grow env h a = do {
     r \<leftarrow> h_arrays h a;
     let sz = ar_size r * ar_nalloc r;
     let p = ar_pool r;
     d \<leftarrow> h_pds h p;
     if ar_elts r + sz = pd_last d \<and> pd_last d + ar_size r \<le> pd_end d then do {
       h \<leftarrow> put_pd h p (d\<lparr>pd_last := pd_last d + ar_size r\<rparr>);
       h \<leftarrow> put_array h a (r\<lparr>ar_nalloc := ar_nalloc r + 1\<rparr>);
       Some (True, h) }
     else do {
       (new, h) \<leftarrow> ngx_palloc env h p (2 * sz);
       if new = NULL then Some (False, h) else do {
         r \<leftarrow> h_arrays h a;
         h \<leftarrow> ngx_memcpy h new (ar_elts r) sz;
         h \<leftarrow> put_array h a (r\<lparr>ar_elts := new, ar_nalloc := ar_nalloc r * 2\<rparr>);
         Some (True, h) } } }"

text \<open>\<^verbatim>\<open>a->nelts;\<close> at the end changes nothing.\<close>

definition ngx_array_push :: "libc \<Rightarrow> heap \<Rightarrow> addr \<Rightarrow> (addr \<times> heap) option" where
  "ngx_array_push env h a = do {
     r \<leftarrow> h_arrays h a;
     (ok, h) \<leftarrow> (if ar_nelts r = ar_nalloc r then array_grow env h a else Some (True, h));
     if \<not> ok then Some (NULL, h) else do {
       r \<leftarrow> h_arrays h a;
       Some (ar_elts r + ar_size r * ar_nelts r, h) } }"

text \<open>Room for \<open>n\<close> more; the pool is the value that the local \<open>p\<close> happens to have.\<close>

definition array_grow_n :: "libc \<Rightarrow> heap \<Rightarrow> addr \<Rightarrow> u64 \<Rightarrow> (bool \<times> heap) option" where
  "array_grow_n env h a n = do {
     r \<leftarrow> h_arrays h a;
     let sz = n * ar_size r;
     let p = lc_uninit env (h_clock h);
     d \<leftarrow> h_pds h p;
     if ar_elts r + sz = pd_last d \<and> pd_last d + ar_size r \<le> pd_end d then do {
       h \<leftarrow> put_pd h p (d\<lparr>pd_last := pd_last d + sz\<rparr>);
       h \<leftarrow> put_array h a (r\<lparr>ar_nalloc := ar_nalloc r + n\<rparr>);
       Some (True, h) }
     else do {
       let nalloc = 2 * (if n \<ge> ar_nalloc r then n else ar_nalloc r);
       (new, h) \<leftarrow> ngx_palloc env h p (nalloc * ar_size r);
       if new = NULL then Some (False, h) else do {
         r \<leftarrow> h_arrays h a;
         h \<leftarrow> ngx_memcpy h new (ar_elts r) (ar_nelts r * ar_size r);
         h \<leftarrow> put_array h a (r\<lparr>ar_elts := new, ar_nalloc := nalloc\<rparr>);
         Some (True, h) } } }"

definition ngx_array_push_n :: "libc \<Rightarrow> heap \<Rightarrow> addr \<Rightarrow> u64 \<Rightarrow> (addr \<times> heap) option" where
  "ngx_array_push_n env h a n = do {
     r \<leftarrow> h_arrays h a;
     (ok, h) \<leftarrow> (if ar_nelts r + n > ar_nalloc r then array_grow_n env h a n else Some (True, h));
     if \<not> ok then Some (NULL, h) else do {
       r \<leftarrow> h_arrays h a;
       h \<leftarrow> put_array h a (r\<lparr>ar_nelts := ar_nelts r + n\<rparr>);
       Some (ar_elts r + ar_size r * ar_nelts r, h) } }"


subsection \<open>The invariant and the frame\<close>

lemma pool_ok_arrays [simp]:
  "pool_ok (h\<lparr>h_arrays := x\<rparr>) pool bs ls ps = pool_ok h pool bs ls ps"
  "used (h\<lparr>h_arrays := x\<rparr>) bs ls = used h bs ls" "live (h\<lparr>h_arrays := x\<rparr>) p n = live h p n"
  by (simp_all add: pool_ok_def chain_ok_def larges_ok_def block_ok_def cut_from_def taken_def
      block_used_def used_def large_allocs_def alloc_of_def [abs_def] pd_next_at_def [abs_def]
      pl_next_at_def [abs_def] live_def)

text \<open>An array whose record and elements are separate pieces of the pool's memory in use.\<close>

definition array_inv ::
  "heap \<Rightarrow> addr \<Rightarrow> addr list \<Rightarrow> addr list \<Rightarrow> u64 \<Rightarrow> addr \<Rightarrow> ngx_array_t \<Rightarrow> bool" where
  "array_inv h pool bs ls ps a r \<longleftrightarrow> pool_ok h pool bs ls ps \<and> h_arrays h a = Some r \<and> ar_pool r = pool
     \<and> live h a 40 \<and> region a 40 \<subseteq> used h bs ls
     \<and> unat (ar_nalloc r) * unat (ar_size r) < 2 ^ 64 \<and> ar_elts r \<noteq> NULL
     \<and> live h (ar_elts r) (ar_size r * ar_nalloc r)
     \<and> region (ar_elts r) (ar_size r * ar_nalloc r) \<subseteq> used h bs ls
     \<and> region a 40 \<inter> region (ar_elts r) (ar_size r * ar_nalloc r) = {}"

lemma ngx_array_create_ok:
  assumes "libc_ok env" "local_null env" "pool_ok h pool bs ls ps" "unat n * unat sz < 2 ^ 64"
  shows "\<exists>a h' bs' ls'. ngx_array_create env h pool n sz = Some (a, h') \<and> pool_ok h' pool bs' ls' ps
    \<and> used h bs ls \<subseteq> used h' bs' ls' \<and> h_mem h' = h_mem h
    \<and> (a \<noteq> NULL \<longrightarrow> (\<exists>r. array_inv h' pool bs' ls' ps a r \<and> ar_nelts r = 0 \<and> ar_size r = sz
         \<and> ar_nalloc r = n \<and> (region a 40 \<union> region (ar_elts r) (sz * n)) \<inter> used h bs ls = {}))"
proof -
  obtain a h1 bs1 ls1 where a: "ngx_palloc env h pool 40 = Some (a, h1)" "pool_ok h1 pool bs1 ls1 ps"
    "alloc_result h bs ls 40 a h1 bs1 ls1"
    using ngx_palloc_correct_pool [OF assms(1-3)] by blast
  note u1 = alloc_result_used [OF a(3)]
  have m1: "h_mem h1 = h_mem h" using a(3) by (simp add: alloc_result_def client_frame_def)
  show ?thesis
  proof (cases "a = NULL")
    case True
    then have "ngx_array_create env h pool n sz = Some (NULL, h1)"
      using a(1) by (simp add: ngx_array_create_def sizeof_defs)
    then show ?thesis using a(2) u1 m1 by blast
  next
    case False
    have a40: "region a 40 \<inter> used h bs ls = {}" "region a 40 \<subseteq> used h1 bs1 ls1" "live h1 a 40"
      using a(3) False by (auto simp: alloc_result_def)
    define r0 where "r0 = (array_or_garbage env h1 a)\<lparr>ar_nelts := 0, ar_size := sz, ar_nalloc := n, ar_pool := pool\<rparr>"
    define h2 where "h2 = h1\<lparr>h_arrays := (h_arrays h1)(a \<mapsto> r0)\<rparr>"
    have ok2: "pool_ok h2 pool bs1 ls1 ps" "used h2 bs1 ls1 = used h1 bs1 ls1" "live h2 a 40"
      using a(2) a40(3) by (simp_all add: h2_def)
    obtain e h3 bs3 ls3 where e: "ngx_palloc env h2 pool (n * sz) = Some (e, h3)" "pool_ok h3 pool bs3 ls3 ps"
      "alloc_result h2 bs1 ls1 (n * sz) e h3 bs3 ls3"
      using ngx_palloc_correct_pool [OF assms(1,2) ok2(1)] by blast
    note u3 = alloc_result_used [OF e(3), unfolded ok2(2)]
    have fr: "client_frame h2 h3" using e(3) by (simp add: alloc_result_def)
    have l1: "live h2 a 1" using live_1 [OF ok2(3)] by simp
    have m3: "h_mem h3 = h_mem h" and l3: "live h3 a 40" and r3: "h_arrays h3 a = Some r0"
      using fr m1 ok2(3) l1 by (simp_all add: client_frame_def h2_def)
    define h4 where "h4 = h3\<lparr>h_arrays := (h_arrays h3)(a \<mapsto> r0\<lparr>ar_elts := e\<rparr>)\<rparr>"
    have run: "ngx_array_create env h pool n sz = Some (if e = NULL then NULL else a, h4)"
      using a(1) False e(1) a40(3) l3 r3
      by (simp add: ngx_array_create_def ngx_array_init_def sizeof_defs put_array_def h4_def
          NGX_OK_def NGX_ERROR_def h2_def r0_def)
    have ok4: "pool_ok h4 pool bs3 ls3 ps" "used h4 bs3 ls3 = used h3 bs3 ls3" "h_mem h4 = h_mem h"
      using e(2) m3 by (simp_all add: h4_def)
    have "array_inv h4 pool bs3 ls3 ps a (r0\<lparr>ar_elts := e\<rparr>)
        \<and> (region a 40 \<union> region e (sz * n)) \<inter> used h bs ls = {}" if "e \<noteq> NULL"
    proof -
      have eN: "region e (sz * n) \<inter> used h1 bs1 ls1 = {}" "region e (sz * n) \<subseteq> used h3 bs3 ls3" "live h3 e (sz * n)"
        using e(3) that by (auto simp: alloc_result_def ok2(2) mult.commute)
      then have "region a 40 \<inter> region e (sz * n) = {}" using a40(2) by blast
      then show ?thesis
        using ok4(1,2) l3 that eN a40(1,2) u1 u3 assms(4) unfolding array_inv_def
        by (auto simp: h4_def r0_def)
    qed
    then show ?thesis using run ok4 u1 u3 by (fastforce simp: r0_def)
  qed
qed

lemma array_invD:
  assumes "array_inv h pool bs ls ps a r"
  shows "pool_ok h pool bs ls ps" "blocks_ok (h_blocks h)" "h_arrays h a = Some r" "ar_pool r = pool" "live h a 40"
    "region a 40 \<subseteq> used h bs ls" "live h (ar_elts r) (ar_size r * ar_nalloc r)"
    "region (ar_elts r) (ar_size r * ar_nalloc r) \<subseteq> used h bs ls"
    "region a 40 \<inter> region (ar_elts r) (ar_size r * ar_nalloc r) = {}"
    "unat (ar_size r * ar_nalloc r) = unat (ar_size r) * unat (ar_nalloc r)"
    "unat (ar_elts r) + unat (ar_size r) * unat (ar_nalloc r) < 2 ^ 63"
proof -
  show *: "unat (ar_size r * ar_nalloc r) = unat (ar_size r) * unat (ar_nalloc r)"
    using assms by (simp add: array_inv_def unat_word_ariths mult.commute)
  show bl: "blocks_ok (h_blocks h)" using pool_okD(2) assms unfolding array_inv_def by blast
  show "unat (ar_elts r) + unat (ar_size r) * unat (ar_nalloc r) < 2 ^ 63"
    using live_bounds(2) [OF bl, of "ar_elts r" "ar_size r * ar_nalloc r"] assms * by (simp add: array_inv_def)
qed (use assms in \<open>simp_all add: array_inv_def\<close>)

lemma array_inv_record:
  assumes "array_inv h pool bs ls ps a r" "client_frame h h'" "pool_ok h' pool bs' ls' ps"
    "used h bs ls \<subseteq> used h' bs' ls'"
  shows "array_inv h' pool bs' ls' ps a r"
proof -
  note D = array_invD [OF assms(1)]
  have "live h a 1" using live_1 [OF D(5)] by simp
  then show ?thesis using assms unfolding array_inv_def client_frame_def by auto
qed

text \<open>Extension in place: the end of the first block moves.\<close>

lemma extend_in_place:
  assumes "pool_ok h pool bs ls ps" "h_pds h pool = Some d" "unat (pd_last d) + unat n \<le> unat (pd_end d)"
  shows "pool_ok (bump h pool (pd_last d + n)) pool bs ls ps"
    "alloc_result h bs ls n (pd_last d) (bump h pool (pd_last d + n)) bs ls" "pd_last d \<noteq> NULL"
    "unat (pd_last d + n) = unat (pd_last d) + unat n"
    "unat pool + 80 \<le> unat (pd_last d)" "unat (pd_end d) = unat pool + unat ps" "unat (pd_end d) < 2 ^ 63"
proof -
  note ch = pool_okD(1) [OF assms(1)]
  have mem: "pool \<in> set bs" using chain_ok_pool [OF ch] by auto
  from chain_okD [OF ch mem] assms(2) have d: "pd_end d = pool + ps" "unat (pool + ps) = unat pool + unat ps"
    "unat pool + header pool pool \<le> unat (pd_last d)" "unat (pool + ps) < 2 ^ 63" by auto
  then show "unat pool + 80 \<le> unat (pd_last d)" "unat (pd_end d) = unat pool + unat ps" "unat (pd_end d) < 2 ^ 63"
    by (simp_all add: header_def)
  then show "pd_last d \<noteq> NULL" by auto
  show "unat (pd_last d + n) = unat (pd_last d) + unat n"
    using assms(3) d by (intro unat_plus_no_wrap) simp
  have "fits h ps n False pool" using assms(2,3) d by (simp add: fits_def place_def)
  from serve_bump [OF ch mem this]
  have "small_result h pool bs ps n (pd_last d) (bump h pool (pd_last d + n)) bs"
    using assms(2) \<open>pd_last d \<noteq> NULL\<close> by (simp add: small_result_def place_def Let_def)
  from small_result_pool_ok(1) [OF assms(1) this] small_result_alloc [OF assms(1) this]
  show "pool_ok (bump h pool (pd_last d + n)) pool bs ls ps"
    "alloc_result h bs ls n (pd_last d) (bump h pool (pd_last d + n)) bs ls" by simp_all
qed

lemma region_extend:
  assumes "unat q = unat e + unat n" "unat (n + k) = unat n + unat k"
  shows "region e (n + k) = region e n \<union> region q k"
  using assms by (auto simp: region_def)

text \<open>What growing promises: the same elements, more room, and the old memory as it was.\<close>

definition array_grown ::
  "heap \<Rightarrow> addr \<Rightarrow> addr list \<Rightarrow> addr list \<Rightarrow> u64 \<Rightarrow> addr \<Rightarrow> ngx_array_t \<Rightarrow> bool \<Rightarrow> heap \<Rightarrow> ngx_array_t \<Rightarrow> bool" where
  "array_grown h pool bs ls ps a r ok h' r' \<longleftrightarrow> (\<exists>bs' ls'. array_inv h' pool bs' ls' ps a r'
     \<and> used h bs ls \<subseteq> used h' bs' ls')
     \<and> (\<forall>x. unat x \<in> used h bs ls \<longrightarrow> h_mem h' x = h_mem h x)
     \<and> ar_nelts r' = ar_nelts r \<and> ar_size r' = ar_size r
     \<and> (if ok then unat (ar_nalloc r) < unat (ar_nalloc r')
          \<and> (\<forall>j. unat j < unat (ar_size r) * unat (ar_nalloc r) \<longrightarrow> h_mem h' (ar_elts r' + j) = h_mem h (ar_elts r + j))
        else r' = r)"

lemma same_block:
  assumes "blocks_ok (h_blocks h)" "live h e n" "(pool, ps) \<in> set (h_blocks h)" "unat pool < unat e + unat n"
    "unat e + unat n < unat pool + unat ps"
  shows "unat pool \<le> unat e"
proof -
  obtain b s where b: "(b, s) \<in> set (h_blocks h)" "unat b \<le> unat e" "unat e + unat n \<le> unat b + unat s"
    using assms(2) by (auto simp: live_def)
  show ?thesis
  proof (cases "b = pool")
    case False
    then have "apart b s pool ps" using blocks_okD(4) [OF assms(1) b(1) assms(3)] by simp
    then show ?thesis using b assms(4,5) by (auto simp: apart_def)
  qed (use b in simp)
qed

lemma array_grow_in_place:
  assumes "array_inv h pool bs ls ps a r" "0 < unat (ar_size r)" "h_pds h pool = Some d"
    "ar_elts r + ar_size r * ar_nalloc r = pd_last d" "unat (pd_last d) + unat (ar_size r) \<le> unat (pd_end d)"
  shows "\<exists>h'. (do {
      h \<leftarrow> put_pd h pool (d\<lparr>pd_last := pd_last d + ar_size r\<rparr>);
      h \<leftarrow> put_array h a (r\<lparr>ar_nalloc := ar_nalloc r + 1\<rparr>);
      Some (True, h) }) = Some (True, h')
    \<and> array_grown h pool bs ls ps a r True h' (r\<lparr>ar_nalloc := ar_nalloc r + 1\<rparr>)"
proof -
  note D = array_invD [OF assms(1)]
  note X = extend_in_place [OF D(1) assms(3,5)]
  let ?e = "ar_elts r" and ?s = "ar_size r" and ?n = "ar_nalloc r"
  define h1 where "h1 = bump h pool (pd_last d + ?s)"
  define h2 where "h2 = h1\<lparr>h_arrays := (h_arrays h1)(a \<mapsto> r\<lparr>ar_nalloc := ?n + 1\<rparr>)\<rparr>"
  have last: "unat (pd_last d) = unat ?e + unat ?s * unat ?n"
    using D(11) unfolding assms(4) [symmetric] by (simp add: unat_word_ariths D(10) [simplified unat_word_ariths])
  have "1 * unat ?n \<le> unat ?s * unat ?n" using assms(2) by (intro mult_le_mono1) simp
  then have "unat ?n < 2 ^ 63" using D(11) by linarith
  then have n1: "unat (?n + 1) = unat ?n + 1" by (simp add: unat_word_ariths)
  have sum: "?s * (?n + 1) = ?s * ?n + ?s" by (simp add: algebra_simps)
  have usum: "unat (?s * ?n + ?s) = unat (?s * ?n) + unat ?s"
    using last assms(5) X(7) D(10) by (intro unat_plus_no_wrap) simp
  have split: "region ?e (?s * ?n + ?s) = region ?e (?s * ?n) \<union> region (pd_last d) ?s"
    by (rule region_extend) (use last D(10) usum in auto)
  have new: "region (pd_last d) ?s \<inter> used h bs ls = {}" "used h bs ls \<union> region (pd_last d) ?s \<subseteq> used h1 bs ls"
    "client_frame h h1"
    using X(2,3) by (simp_all add: alloc_result_def h1_def)
  have pl: "(pool, ps) \<in> set (h_blocks h)" "live h pool 32"
    using chain_ok_pool [OF pool_okD(1) [OF D(1)]] chain_ok_block [OF pool_okD(1) [OF D(1)], of pool]
      chain_okD [OF pool_okD(1) [OF D(1)], of pool] by auto
  have "unat pool \<le> unat ?e"
    by (rule same_block [OF D(2,7) pl(1)]) (use last D(10) X(5,6) assms(2,5) in auto)
  then have lv: "live h2 ?e (?s * ?n + ?s)"
    using pl(1) last usum D(10) assms(5) X(6) by (auto simp: h2_def h1_def intro!: liveI)
  have "live h a 1" using live_1 [OF D(5)] by simp
  then have h1: "live h1 a 40" "h_mem h1 = h_mem h" using new(3) D(5) by (simp_all add: client_frame_def)
  have "array_inv h2 pool bs ls ps a (r\<lparr>ar_nalloc := ?n + 1\<rparr>)"
    unfolding array_inv_def
  proof (intro conjI)
    show "pool_ok h2 pool bs ls ps" using X(1) by (simp add: h2_def h1_def)
    show "h_arrays h2 a = Some (r\<lparr>ar_nalloc := ?n + 1\<rparr>)" by (simp add: h2_def)
    show "ar_pool (r\<lparr>ar_nalloc := ?n + 1\<rparr>) = pool" using D(4) by simp
    show "live h2 a 40" using h1(1) by (simp add: h2_def)
    show "region a 40 \<subseteq> used h2 bs ls" using D(6) new(2) by (auto simp: h2_def)
    have "unat ?s * unat (?n + 1) = unat (?s * ?n + ?s)" using n1 usum D(10) by (simp add: algebra_simps)
    then show "unat (ar_nalloc (r\<lparr>ar_nalloc := ?n + 1\<rparr>)) * unat (ar_size (r\<lparr>ar_nalloc := ?n + 1\<rparr>)) < 2 ^ 64"
      by (simp add: mult.commute)
    show "ar_elts (r\<lparr>ar_nalloc := ?n + 1\<rparr>) \<noteq> NULL" using assms(1) by (simp add: array_inv_def)
    show "live h2 (ar_elts (r\<lparr>ar_nalloc := ?n + 1\<rparr>)) (ar_size (r\<lparr>ar_nalloc := ?n + 1\<rparr>) * ar_nalloc (r\<lparr>ar_nalloc := ?n + 1\<rparr>))"
      using lv by (simp add: sum)
    show "region (ar_elts (r\<lparr>ar_nalloc := ?n + 1\<rparr>)) (ar_size (r\<lparr>ar_nalloc := ?n + 1\<rparr>) * ar_nalloc (r\<lparr>ar_nalloc := ?n + 1\<rparr>)) \<subseteq> used h2 bs ls"
      using D(8) new(2) by (auto simp: sum split h2_def)
    have "region a 40 \<inter> region (pd_last d) ?s = {}" using D(6) new(1) by blast
    then show "region a 40 \<inter> region (ar_elts (r\<lparr>ar_nalloc := ?n + 1\<rparr>)) (ar_size (r\<lparr>ar_nalloc := ?n + 1\<rparr>) * ar_nalloc (r\<lparr>ar_nalloc := ?n + 1\<rparr>)) = {}"
      using D(9) by (simp add: sum split Int_Un_distrib)
  qed
  moreover have "used h bs ls \<subseteq> used h2 bs ls" "h_mem h2 = h_mem h" using new(2) h1(2) by (auto simp: h2_def)
  ultimately have "array_grown h pool bs ls ps a r True h2 (r\<lparr>ar_nalloc := ?n + 1\<rparr>)"
    using n1 unfolding array_grown_def by auto
  moreover have "put_pd h pool (d\<lparr>pd_last := pd_last d + ?s\<rparr>) = Some h1"
    using pl(2) assms(3) by (simp add: put_pd_def sizeof_defs h1_def bump_def)
  moreover have "put_array h1 a (r\<lparr>ar_nalloc := ?n + 1\<rparr>) = Some h2"
    using h1(1) by (simp add: put_array_def sizeof_defs h2_def)
  ultimately show ?thesis by simp
qed

lemma array_grow_move:
  assumes "libc_ok env" "local_null env" "array_inv h pool bs ls ps a r" "0 < unat (ar_size r)"
    "0 < unat (ar_nalloc r)"
  shows "\<exists>ok h' r'. (do {
      (new, h) \<leftarrow> ngx_palloc env h pool (2 * (ar_size r * ar_nalloc r));
      if new = NULL then Some (False, h) else do {
        q \<leftarrow> h_arrays h a;
        h \<leftarrow> ngx_memcpy h new (ar_elts q) (ar_size r * ar_nalloc r);
        h \<leftarrow> put_array h a (q\<lparr>ar_elts := new, ar_nalloc := ar_nalloc q * 2\<rparr>);
        Some (True, h) } }) = Some (ok, h')
    \<and> array_grown h pool bs ls ps a r ok h' r'"
proof -
  note D = array_invD [OF assms(3)]
  let ?e = "ar_elts r" and ?s = "ar_size r" and ?n = "ar_nalloc r"
  let ?N = "?s * ?n"
  obtain p h1 bs1 ls1 where p: "ngx_palloc env h pool (2 * ?N) = Some (p, h1)" "pool_ok h1 pool bs1 ls1 ps"
    "alloc_result h bs ls (2 * ?N) p h1 bs1 ls1"
    using ngx_palloc_correct_pool [OF assms(1,2) D(1)] by blast
  have fr: "client_frame h h1" using p(3) by (simp add: alloc_result_def)
  note u = alloc_result_used [OF p(3)]
  note inv1 = array_inv_record [OF assms(3) fr p(2) u]
  have mem: "h_mem h1 = h_mem h" using fr by (simp add: client_frame_def)
  show ?thesis
  proof (cases "p = NULL")
    case True
    have "array_grown h pool bs ls ps a r False h1 r"
      using inv1 u mem unfolding array_grown_def by auto
    then show ?thesis using p(1) True by auto
  next
    case False
    note D1 = array_invD [OF inv1]
    have "unat ?N < 2 ^ 63" using D(10,11) by simp
    then have "unat (?N + ?N) = unat ?N + unat ?N" by (intro unat_plus_no_wrap) simp
    then have dbl: "unat (2 * ?N) = unat ?N + unat ?N" by (simp only: mult_2)
    have pN: "region p (2 * ?N) \<inter> used h bs ls = {}" "region p (2 * ?N) \<subseteq> used h1 bs1 ls1" "live h1 p (2 * ?N)"
      using p(3) False by (auto simp: alloc_result_def)
    have half: "live h1 p ?N" "region p ?N \<subseteq> region p (2 * ?N)"
      using live_sub(2,3) [OF D1(2) pN(3), of 0 ?N] dbl by simp_all
    define h2 where "h2 = h1\<lparr>h_mem := (\<lambda>x. if x - p < ?N then h_mem h1 (?e + (x - p)) else h_mem h1 x)\<rparr>"
    define h3 where "h3 = h2\<lparr>h_arrays := (h_arrays h2)(a \<mapsto> r\<lparr>ar_elts := p, ar_nalloc := ?n * 2\<rparr>)\<rparr>"
    have run: "ngx_memcpy h1 p ?e ?N = Some h2" "put_array h2 a (r\<lparr>ar_elts := p, ar_nalloc := ?n * 2\<rparr>) = Some h3"
      using half(1) D1(5,7) by (simp_all add: ngx_memcpy_def h2_def put_array_def sizeof_defs h3_def)
    have "1 * unat ?n \<le> unat ?s * unat ?n" using assms(4) by (intro mult_le_mono1) simp
    then have "unat ?n < 2 ^ 63" using D(11) by linarith
    then have n2: "unat (?n * 2) = 2 * unat ?n" by (simp add: unat_word_ariths)
    have prod: "?s * (?n * 2) = 2 * ?N" by (simp add: algebra_simps)
    have "array_inv h3 pool bs1 ls1 ps a (r\<lparr>ar_elts := p, ar_nalloc := ?n * 2\<rparr>)"
      unfolding array_inv_def
    proof (intro conjI)
      show "pool_ok h3 pool bs1 ls1 ps" using p(2) by (simp add: h3_def h2_def)
      show "region a 40 \<subseteq> used h3 bs1 ls1" using D1(6) by (simp add: h3_def h2_def)
      show "live h3 a 40" using D1(5) by (simp add: h3_def h2_def)
      show "unat (ar_nalloc (r\<lparr>ar_elts := p, ar_nalloc := ?n * 2\<rparr>)) * unat (ar_size (r\<lparr>ar_elts := p, ar_nalloc := ?n * 2\<rparr>)) < 2 ^ 64"
        using n2 D(11) by (simp add: mult.commute)
      show "live h3 (ar_elts (r\<lparr>ar_elts := p, ar_nalloc := ?n * 2\<rparr>)) (ar_size (r\<lparr>ar_elts := p, ar_nalloc := ?n * 2\<rparr>) * ar_nalloc (r\<lparr>ar_elts := p, ar_nalloc := ?n * 2\<rparr>))"
        using pN(3) by (simp add: prod h3_def h2_def)
      show "region (ar_elts (r\<lparr>ar_elts := p, ar_nalloc := ?n * 2\<rparr>)) (ar_size (r\<lparr>ar_elts := p, ar_nalloc := ?n * 2\<rparr>) * ar_nalloc (r\<lparr>ar_elts := p, ar_nalloc := ?n * 2\<rparr>)) \<subseteq> used h3 bs1 ls1"
        using pN(2) by (simp add: prod h3_def h2_def)
      show "region a 40 \<inter> region (ar_elts (r\<lparr>ar_elts := p, ar_nalloc := ?n * 2\<rparr>)) (ar_size (r\<lparr>ar_elts := p, ar_nalloc := ?n * 2\<rparr>) * ar_nalloc (r\<lparr>ar_elts := p, ar_nalloc := ?n * 2\<rparr>)) = {}"
        using pN(1) D(6) by (simp add: prod) blast
    qed (use D(4) False in \<open>simp_all add: h3_def\<close>)
    moreover have "used h bs ls \<subseteq> used h3 bs1 ls1" using u by (simp add: h3_def h2_def)
    moreover have "h_mem h3 x = h_mem h x" if "unat x \<in> used h bs ls" for x
    proof -
      have "unat x \<notin> region p ?N" using that pN(1) half(2) by blast
      then show ?thesis
        using offset_less [of p ?N x] live_bounds(2) [OF D1(2) half(1)] mem by (simp add: h3_def h2_def)
    qed
    moreover have "h_mem h3 (p + j) = h_mem h (?e + j)" if "unat j < unat ?s * unat ?n" for j
      using that mem D(10) by (simp add: h3_def h2_def word_less_nat_alt)
    ultimately have "array_grown h pool bs ls ps a r True h3 (r\<lparr>ar_elts := p, ar_nalloc := ?n * 2\<rparr>)"
      using n2 assms(5) unfolding array_grown_def by auto
    then show ?thesis using p(1) False D1(3) run by (intro exI [of _ True] exI [of _ h3] exI) auto
  qed
qed

lemma array_grow_ok:
  assumes "libc_ok env" "local_null env" "array_inv h pool bs ls ps a r" "0 < unat (ar_size r)"
    "0 < unat (ar_nalloc r)" "unat (ar_size r) < 2 ^ 63"
  shows "\<exists>ok h' r'. array_grow env h a = Some (ok, h') \<and> array_grown h pool bs ls ps a r ok h' r'"
proof -
  note D = array_invD [OF assms(3)]
  obtain d where d: "h_pds h pool = Some d" "unat (pd_last d) < 2 ^ 63"
    using chain_okD [OF pool_okD(1) [OF D(1)], of pool] chain_ok_pool [OF pool_okD(1) [OF D(1)]] by auto
  have "unat (pd_last d + ar_size r) = unat (pd_last d) + unat (ar_size r)"
    using d(2) assms(6) by (intro unat_plus_no_wrap) simp
  then have test: "pd_last d + ar_size r \<le> pd_end d \<longleftrightarrow> unat (pd_last d) + unat (ar_size r) \<le> unat (pd_end d)"
    by (simp add: word_le_nat_alt)
  show ?thesis
  proof (cases "ar_elts r + ar_size r * ar_nalloc r = pd_last d \<and> pd_last d + ar_size r \<le> pd_end d")
    case True
    then show ?thesis
      using array_grow_in_place [OF assms(3,4) d(1)] test D(3,4) d(1) by (auto simp: array_grow_def Let_def)
  next
    case False
    then show ?thesis
      using array_grow_move [OF assms(1-5)] D(3,4) d(1) by (auto simp: array_grow_def Let_def)
  qed
qed

lemma slot_sub:
  assumes "blocks_ok (h_blocks h)" "live h e (s * m)" "unat s * unat m < 2 ^ 64" "unat i + unat k \<le> unat m"
  shows "live h (e + s * i) (s * k)" "region (e + s * i) (s * k) \<subseteq> region e (s * m)"
    "unat (e + s * i) = unat e + unat s * unat i"
proof -
  have le: "unat s * unat i + unat s * unat k \<le> unat s * unat m"
    using mult_le_mono2 [OF assms(4), of "unat s"] by (simp add: algebra_simps)
  have u: "unat (s * x) = unat s * unat x" if "unat s * unat x < 2 ^ 64" for x
    using that by (simp add: unat_word_ariths)
  have fit: "unat (s * i) + unat (s * k) \<le> unat (s * m)" using le assms(3) u by simp
  note S = live_sub [OF assms(1,2) fit]
  show "live h (e + s * i) (s * k)" "region (e + s * i) (s * k) \<subseteq> region e (s * m)"
    by (fact S)+
  show "unat (e + s * i) = unat e + unat s * unat i" using S(1) u [of i] le assms(3) by simp
qed

subsection \<open>Properties\<close>

text \<open>
  C37: \<open>ngx_array_push\<close> does not append: while the array has room, every push returns the address
  of the same element, the one after the elements it counts, and changes nothing, so the caller's
  elements overwrite each other.
\<close>

theorem ngx_array_push_same_slot:
  assumes "h_arrays h a = Some r" "ar_nelts r \<noteq> ar_nalloc r"
  shows "run_pushes (\<lambda>h. ngx_array_push env h a) k h
    = Some (replicate k (ar_elts r + ar_size r * ar_nelts r), h)"
proof -
  have "ngx_array_push env h a = Some (ar_elts r + ar_size r * ar_nelts r, h)"
    using assms by (simp add: ngx_array_push_def)
  then show ?thesis by (induction k) simp_all
qed

definition demo_array :: heap where
  "demo_array = snd (the (ngx_array_create bump_libc demo_heap 4096 3 16))"

lemma demo_array_create: "ngx_array_create bump_libc demo_heap 4096 3 16 = Some (4176, demo_array)"
  and demo_array_record: "h_arrays demo_array 4176 = Some \<lparr>ar_elts = 4216, ar_nelts = 0, ar_size = 16, ar_nalloc = 3, ar_pool = 4096\<rparr>"
  by (simp_all add: demo_array_def demo_eval ngx_array_create_def ngx_array_init_def put_array_def
      array_or_garbage_def)

theorem ngx_array_push_same_slot_witness:
  "run_pushes (\<lambda>h. ngx_array_push bump_libc h 4176) 3 demo_array = Some ([4216, 4216, 4216], demo_array)"
  using ngx_array_push_same_slot [OF demo_array_record, of bump_libc 3] by (simp add: numeral_3_eq_3)

lemma array_push_full_calm:
  assumes "libc_ok env" "local_null env" "array_inv h pool bs ls ps a r" "0 < unat (ar_size r)"
    "unat (ar_size r) < 2 ^ 63" "0 < unat (ar_nalloc r)" "ar_nelts r = ar_nalloc r"
  shows "\<exists>p h' bs' ls' r'. ngx_array_push env h a = Some (p, h') \<and> array_inv h' pool bs' ls' ps a r'
    \<and> (\<forall>x. unat x \<in> used h bs ls \<longrightarrow> h_mem h' x = h_mem h x)
    \<and> (if p = NULL then r' = r
       else ar_nelts r' = ar_nelts r \<and> unat (ar_nalloc r) < unat (ar_nalloc r')
         \<and> p = ar_elts r' + ar_size r * ar_nelts r
         \<and> region p (ar_size r) \<subseteq> region (ar_elts r') (ar_size r' * ar_nalloc r')
         \<and> (\<forall>j. unat j < unat (ar_size r) * unat (ar_nalloc r) \<longrightarrow> h_mem h' (ar_elts r' + j) = h_mem h (ar_elts r + j)))"
proof -
  note D = array_invD [OF assms(3)]
  obtain ok h' r' where g: "array_grow env h a = Some (ok, h')" "array_grown h pool bs ls ps a r ok h' r'"
    using array_grow_ok [OF assms(1-4,6,5)] by blast
  obtain bs' ls' where inv: "array_inv h' pool bs' ls' ps a r'" using g(2) by (auto simp: array_grown_def)
  note D' = array_invD [OF inv]
  have mem: "\<forall>x. unat x \<in> used h bs ls \<longrightarrow> h_mem h' x = h_mem h x" using g(2) by (simp add: array_grown_def)
  show ?thesis
  proof (cases ok)
    case False
    then have "ngx_array_push env h a = Some (NULL, h')" "r' = r"
      using g D(3) assms(7) by (simp_all add: ngx_array_push_def array_grown_def)
    then show ?thesis using inv mem by (intro exI [of _ NULL] exI [of _ h'] exI [of _ bs'] exI [of _ ls'] exI [of _ r']) auto
  next
    case True
    have same: "ar_nelts r' = ar_nelts r" "ar_size r' = ar_size r" "unat (ar_nalloc r) < unat (ar_nalloc r')"
      "\<forall>j. unat j < unat (ar_size r) * unat (ar_nalloc r) \<longrightarrow> h_mem h' (ar_elts r' + j) = h_mem h (ar_elts r + j)"
      using g(2) True by (simp_all add: array_grown_def)
    have run: "ngx_array_push env h a = Some (ar_elts r' + ar_size r * ar_nelts r, h')"
      using g(1) True D(3) D'(3) same(1,2) assms(7) by (simp add: ngx_array_push_def)
    have "unat (ar_size r) * unat (ar_nalloc r') < 2 ^ 64" using D'(11) same(2) by simp
    note S = slot_sub [OF D'(2) D'(7) [unfolded same(2)] this, of "ar_nelts r" 1]
    have "region (ar_elts r' + ar_size r * ar_nelts r) (ar_size r) \<subseteq> region (ar_elts r') (ar_size r' * ar_nalloc r')"
      "live h' (ar_elts r' + ar_size r * ar_nelts r) (ar_size r)"
      using S(1,2) same(2,3) assms(7) by simp_all
    moreover from this have "ar_elts r' + ar_size r * ar_nelts r \<noteq> NULL" using live_bounds(1) [OF D'(2)] by blast
    ultimately show ?thesis using run inv mem same by (intro exI [of _ "ar_elts r' + ar_size r * ar_nelts r"] exI [of _ h'] exI [of _ bs'] exI [of _ ls'] exI [of _ r']) simp
  qed
qed

text \<open>Growing an array whose memory does not end at the free end of the first block makes a request, which can be wild.\<close>

definition grow_wild :: "libc \<Rightarrow> heap \<Rightarrow> ngx_array_t \<Rightarrow> heap \<Rightarrow> bool" where
  "grow_wild env h r g \<longleftrightarrow> (\<exists>d. h_pds h (ar_pool r) = Some d
     \<and> \<not> (ar_elts r + ar_size r * ar_nalloc r = pd_last d \<and> pd_last d + ar_size r \<le> pd_end d)
     \<and> palloc_wild env h (ar_pool r) (2 * (ar_size r * ar_nalloc r)) True g)"

lemma calm_array_push:
  assumes "h_arrays h a = Some r" "\<forall>g. \<not> grow_wild env h r g"
  shows "ngx_array_push env h a = ngx_array_push (calm env) h a"
proof (cases "h_pds h (ar_pool r)")
  case (Some d)
  have "array_grow env h a = array_grow (calm env) h a"
  proof (cases "ar_elts r + ar_size r * ar_nalloc r = pd_last d \<and> pd_last d + ar_size r \<le> pd_end d")
    case False
    then have "\<forall>g. \<not> palloc_wild env h (ar_pool r) (2 * (ar_size r * ar_nalloc r)) True g"
      using assms(2) Some by (simp add: grow_wild_def)
    then show ?thesis using assms(1) Some calm_palloc by (simp add: array_grow_def Let_def)
  qed (use assms(1) Some in \<open>simp add: array_grow_def Let_def\<close>)
  then show ?thesis by (cases "ar_nelts r = ar_nalloc r") (simp_all add: ngx_array_push_def assms(1))
qed (use assms(1) in \<open>simp add: ngx_array_push_def array_grow_def Let_def\<close>)

text \<open>
  C22: \<open>ngx_array_push\<close> on a full array of a capacity above 0 either fails, leaving the array as it was, or gives it more
  room, in place or in a copy: the slot returned is the first behind the old elements and inside
  the array's memory, every old element has its bytes, and memory in use before is not written. (With capacity 0 twice the
  capacity is no room at all.) The one other outcome is that a \<^verbatim>\<open>posix_memalign\<close> call for the copy's memory fails
  while the local that \<open>ngx_memalign\<close> returns for it is not \<open>NULL\<close>.
\<close>

theorem ngx_array_push_full:
  assumes "libc_ok env" "array_inv h pool bs ls ps a r" "0 < unat (ar_size r)"
    "unat (ar_size r) < 2 ^ 63" "0 < unat (ar_nalloc r)" "ar_nelts r = ar_nalloc r"
  shows "(\<exists>p h' bs' ls' r'. ngx_array_push env h a = Some (p, h') \<and> array_inv h' pool bs' ls' ps a r'
    \<and> (\<forall>x. unat x \<in> used h bs ls \<longrightarrow> h_mem h' x = h_mem h x)
    \<and> (if p = NULL then r' = r
       else ar_nelts r' = ar_nelts r \<and> unat (ar_nalloc r) < unat (ar_nalloc r')
         \<and> p = ar_elts r' + ar_size r * ar_nelts r
         \<and> region p (ar_size r) \<subseteq> region (ar_elts r') (ar_size r' * ar_nalloc r')
         \<and> (\<forall>j. unat j < unat (ar_size r) * unat (ar_nalloc r) \<longrightarrow> h_mem h' (ar_elts r' + j) = h_mem h (ar_elts r + j))))
    \<or> (\<exists>g. grow_wild env h r g)"
proof (cases "\<exists>g. grow_wild env h r g")
  case False
  have env: "libc_ok (calm env)" "local_null (calm env)" using assms(1) by simp_all
  have "ngx_array_push env h a = ngx_array_push (calm env) h a"
    using calm_array_push array_invD(3) [OF assms(2)] False by blast
  then show ?thesis using array_push_full_calm [OF env assms(2-6)] by simp
qed simp

text \<open>
  C13: \<open>ngx_array_push_n\<close> within the capacity returns the first of \<open>n\<close> free elements inside the
  array and counts them; beyond it the code reads the pool through a pointer without a value,
  which is undefined unless that happens to be the address of a pool.
\<close>

theorem ngx_array_push_n_correct:
  assumes "array_inv h pool bs ls ps a r"
  shows "(unat (ar_nelts r) + unat n \<le> unat (ar_nalloc r) \<longrightarrow>
      (\<exists>h'. ngx_array_push_n env h a n = Some (ar_elts r + ar_size r * ar_nelts r, h')
        \<and> array_inv h' pool bs ls ps a (r\<lparr>ar_nelts := ar_nelts r + n\<rparr>) \<and> h_mem h' = h_mem h
        \<and> region (ar_elts r + ar_size r * ar_nelts r) (ar_size r * n) \<subseteq> region (ar_elts r) (ar_size r * ar_nalloc r)))
    \<and> (unat (ar_nelts r) + unat n < 2 ^ 64 \<and> unat (ar_nalloc r) < unat (ar_nelts r) + unat n
        \<and> h_pds h (lc_uninit env (h_clock h)) = None \<longrightarrow> ngx_array_push_n env h a n = None)"
proof (intro conjI impI)
  note D = array_invD [OF assms]
  { assume le: "unat (ar_nelts r) + unat n \<le> unat (ar_nalloc r)"
    then have "unat (ar_nelts r) + unat n < 18446744073709551616" using unat_lt_64 [of "ar_nalloc r"] by linarith
    then have sum: "unat (ar_nelts r + n) = unat (ar_nelts r) + unat n" by (simp add: unat_plus_no_wrap)
    then have "\<not> ar_nelts r + n > ar_nalloc r" using le by (simp add: word_less_nat_alt)
    define h' where "h' = h\<lparr>h_arrays := (h_arrays h)(a \<mapsto> r\<lparr>ar_nelts := ar_nelts r + n\<rparr>)\<rparr>"
    have run: "ngx_array_push_n env h a n = Some (ar_elts r + ar_size r * ar_nelts r, h')"
      using D(3,5) \<open>\<not> ar_nelts r + n > ar_nalloc r\<close> by (simp add: ngx_array_push_n_def put_array_def sizeof_defs h'_def)
    have inv: "array_inv h' pool bs ls ps a (r\<lparr>ar_nelts := ar_nelts r + n\<rparr>)"
      using assms by (simp add: array_inv_def h'_def)
    have "unat (ar_size r) * unat (ar_nalloc r) < 2 ^ 64" using D(11) by simp
    from slot_sub(2) [OF D(2,7) this le] run inv
    show "\<exists>h'. ngx_array_push_n env h a n = Some (ar_elts r + ar_size r * ar_nelts r, h')
        \<and> array_inv h' pool bs ls ps a (r\<lparr>ar_nelts := ar_nelts r + n\<rparr>) \<and> h_mem h' = h_mem h
        \<and> region (ar_elts r + ar_size r * ar_nelts r) (ar_size r * n) \<subseteq> region (ar_elts r) (ar_size r * ar_nalloc r)"
      by (auto simp: h'_def) }
  assume b: "unat (ar_nelts r) + unat n < 2 ^ 64 \<and> unat (ar_nalloc r) < unat (ar_nelts r) + unat n
      \<and> h_pds h (lc_uninit env (h_clock h)) = None"
  then have "ar_nelts r + n > ar_nalloc r" by (simp add: word_less_nat_alt unat_plus_no_wrap)
  then show "ngx_array_push_n env h a n = None"
    using b D(3) by (simp add: ngx_array_push_n_def array_grow_n_def Let_def)
qed

lemma demo_array_inv:
  "\<exists>bs ls. array_inv demo_array 4096 bs ls 1024 4176
     \<lparr>ar_elts = 4216, ar_nelts = 0, ar_size = 16, ar_nalloc = 3, ar_pool = 4096\<rparr>"
proof -
  obtain bs ls r where "array_inv demo_array 4096 bs ls 1024 4176 r"
    using ngx_array_create_ok [OF bump_libc_ok bump_libc_local demo_ok(1), of 3 16] demo_array_create by auto
  moreover from this have "h_arrays demo_array 4176 = Some r" by (simp add: array_inv_def)
  ultimately show ?thesis using demo_array_record by auto
qed

theorem ngx_array_push_n_correct_witness:
  "\<exists>h'. ngx_array_push_n bump_libc demo_array 4176 2 = Some (4216, h') \<and> h_mem h' = h_mem demo_array
     \<and> ngx_array_push_n bump_libc demo_array 4176 4 = None"
proof -
  obtain bs ls where inv: "array_inv demo_array 4096 bs ls 1024 4176
     \<lparr>ar_elts = 4216, ar_nelts = 0, ar_size = 16, ar_nalloc = 3, ar_pool = 4096\<rparr>" using demo_array_inv by blast
  have "lc_uninit bump_libc t = NULL" for t by (simp add: bump_libc_def)
  moreover have "h_pds demo_array NULL = None"
    by (simp add: demo_array_def demo_eval ngx_array_create_def ngx_array_init_def put_array_def
        array_or_garbage_def)
  ultimately show ?thesis
    using ngx_array_push_n_correct [OF inv, of 2 bump_libc] ngx_array_push_n_correct [OF inv, of 4 bump_libc] by auto
qed

text \<open>An array of one element whose count is set by \<open>ngx_array_push_n\<close>, so that it is full.\<close>

theorem ngx_array_push_full_witness:
  "\<exists>p h1 h2. ngx_array_push_n bump_libc demo_array 4176 3 = Some (4216, h1)
     \<and> ngx_array_push bump_libc h1 4176 = Some (p, h2) \<and> (\<exists>bs ls r. array_inv h2 4096 bs ls 1024 4176 r)"
proof -
  obtain bs ls where inv: "array_inv demo_array 4096 bs ls 1024 4176
     \<lparr>ar_elts = 4216, ar_nelts = 0, ar_size = 16, ar_nalloc = 3, ar_pool = 4096\<rparr>" using demo_array_inv by blast
  define h1 where "h1 = demo_array\<lparr>h_arrays := (h_arrays demo_array)(4176 \<mapsto>
     \<lparr>ar_elts = 4216, ar_nelts = 3, ar_size = 16, ar_nalloc = 3, ar_pool = 4096\<rparr>)\<rparr>"
  have "ngx_array_push_n bump_libc demo_array 4176 3 = Some (4216, h1)"
    using demo_array_record array_invD(5) [OF inv] by (simp add: ngx_array_push_n_def put_array_def sizeof_defs h1_def)
  moreover have "array_inv h1 4096 bs ls 1024 4176
     \<lparr>ar_elts = 4216, ar_nelts = 3, ar_size = 16, ar_nalloc = 3, ar_pool = 4096\<rparr>"
    using inv by (simp add: array_inv_def h1_def)
  ultimately show ?thesis
    using ngx_array_push_full [OF bump_libc_ok, of h1 4096 bs ls 1024 4176] by (fastforce simp: grow_wild_def)
qed

text \<open>
  C30: a small array at the free end of the first block can be given back: \<open>ngx_array_destroy\<close>
  after \<open>ngx_array_create\<close> restores the pool's records but for the alignment of the free end.
\<close>

theorem ngx_array_create_destroy:
  assumes "libc_ok env" "pool_ok h pool bs ls ps" "h_pms h pool = Some m"
    "pm_current m = pool" "h_pds h pool = Some d" "40 \<le> pm_max m" "n * sz \<le> pm_max m"
    "unat (place True (pd_last d)) + 40 + unat (n * sz) \<le> unat (pool + ps)"
  shows "\<exists>h1 h2. ngx_array_create env h pool n sz = Some (place True (pd_last d), h1)
    \<and> ngx_array_destroy h1 (place True (pd_last d)) = Some h2
    \<and> h_pds h2 = (h_pds h)(pool \<mapsto> d\<lparr>pd_last := place True (pd_last d)\<rparr>) \<and> h_pms h2 = h_pms h
    \<and> h_blocks h2 = h_blocks h \<and> h_mem h2 = h_mem h"
proof -
  let ?a = "place True (pd_last d)"
  note ch = pool_okD(1) [OF assms(2)]
  have mem: "pool \<in> set bs" using chain_ok_pool [OF ch] by auto
  from chain_okD [OF ch mem] assms(5) have d: "unat (pool + ps) < 2 ^ 63" "unat (pd_last d) < 2 ^ 63" "live h pool 32"
    "unat (pd_last d) > 0" by (auto simp: header_def)
  have a: "8 dvd unat ?a" "unat (pd_last d) \<le> unat ?a" using place_bounds [OF d(2)] by auto
  then have a0: "?a \<noteq> NULL" using d(4) by auto
  define h1 where "h1 = h\<lparr>h_pds := (h_pds h)(pool \<mapsto> d\<lparr>pd_last := ?a + 40\<rparr>)\<rparr>"
  have p1: "ngx_palloc env h pool 40 = Some (?a, h1)"
    using palloc_here [OF assms(2,3,6), of d] assms(4,5,8) by (simp add: h1_def)
  have "ngx_palloc (calm env) h pool 40 = Some (?a, h1)" "libc_ok (calm env)" "local_null (calm env)"
    using palloc_here [OF assms(2,3,6), of d] assms(1,4,5,8) by (simp_all add: h1_def)
  then obtain bs1 ls1 where ok1: "pool_ok h1 pool bs1 ls1 ps" "live h1 ?a 40"
    using ngx_palloc_correct_pool [of "calm env", OF _ _ assms(2), of 40] a0 by (auto simp: alloc_result_def)
  have u40: "unat (?a + 40) = unat ?a + 40" using assms(8) d(1) by (subst unat_plus_no_wrap) simp_all
  have al: "place True (?a + 40) = ?a + 40"
  proof -
    have "unat (place True (?a + 40)) = (unat (?a + 40) + 7) div 8 * 8"
      using assms(8) d(1) u40 unat_align_8 [of "?a + 40"] by (simp add: place_def NGX_ALIGMENT_def)
    also have "\<dots> = unat (?a + 40)" using a(1) unfolding u40 by presburger
    finally show ?thesis by (rule unsigned_word_eqI)
  qed
  define r0 where "r0 = (array_or_garbage env h1 ?a)\<lparr>ar_nelts := 0, ar_size := sz, ar_nalloc := n, ar_pool := pool\<rparr>"
  define h2 where "h2 = h1\<lparr>h_arrays := (h_arrays h1)(?a \<mapsto> r0)\<rparr>"
  define h3 where "h3 = h2\<lparr>h_pds := (h_pds h2)(pool \<mapsto> d\<lparr>pd_last := ?a + 40 + n * sz\<rparr>)\<rparr>"
  define h4 where "h4 = h3\<lparr>h_arrays := (h_arrays h3)(?a \<mapsto> r0\<lparr>ar_elts := ?a + 40\<rparr>)\<rparr>"
  have ok2: "pool_ok h2 pool bs1 ls1 ps" using ok1 by (simp add: h2_def)
  have p2: "ngx_palloc env h2 pool (n * sz) = Some (?a + 40, h3)"
    using palloc_here [OF ok2, of m "n * sz" "d\<lparr>pd_last := ?a + 40\<rparr>"] assms(3,4,7,8) al u40
    by (simp add: h2_def h1_def h3_def)
  have a40: "?a + 40 \<noteq> NULL" using u40 by auto
  have live: "live h3 ?a 40" "live h4 pool 32" "live h4 ?a 40"
    using ok1(2) d(3) by (simp_all add: h4_def h3_def h2_def h1_def live_def)
  have run: "ngx_array_create env h pool n sz = Some (?a, h4)"
    using p1 p2 a0 a40 ok1(2) live(1)
    by (simp add: ngx_array_create_def ngx_array_init_def sizeof_defs put_array_def h4_def
        NGX_OK_def h2_def [symmetric] r0_def [symmetric]) (simp add: h3_def h2_def)
  define h5 where "h5 = h4\<lparr>h_pds := (h_pds h)(pool \<mapsto> d\<lparr>pd_last := ?a\<rparr>)\<rparr>"
  have "ngx_array_destroy h4 ?a = Some h5"
    using live(2,3) by (simp add: ngx_array_destroy_def h4_def r0_def h3_def h2_def h1_def put_pd_def sizeof_defs Let_def
        mult.commute live_def h5_def)
  then show ?thesis using run by (auto simp: h5_def h4_def h3_def h2_def h1_def)
qed

theorem ngx_array_create_destroy_witness:
  "\<exists>h1 h2. ngx_array_create bump_libc demo_heap 4096 3 16 = Some (4176, h1) \<and> ngx_array_destroy h1 4176 = Some h2
     \<and> h_pds h2 = h_pds demo_heap"
proof -
  obtain d where d: "h_pds demo_heap 4096 = Some d" "pd_last d = 4176"
    by (simp add: demo_eval)
  have al: "place True 4176 = 4176" by (simp add: place_def ngx_align_ptr_def NGX_ALIGMENT_def)
  have "d\<lparr>pd_last := 4176\<rparr> = d" using d(2) by simp
  then have "(h_pds demo_heap)(4096 \<mapsto> d\<lparr>pd_last := 4176\<rparr>) = h_pds demo_heap" using d(1) by auto
  then show ?thesis
    using ngx_array_create_destroy [OF bump_libc_ok demo_ok(1,4) _ d(1), of 3 16]
    by (auto simp: d(2) al ngx_min_def)
qed
end
