(* ===== verification/Ngx_Queue.thy ===== *)
theory Ngx_Queue
  imports Ngx_Prelude
begin

text \<open>
  \<^verbatim>\<open>src/core/ngx_queue.h\<close>: the circular doubly linked list. A queue lives in a heap of
  \<^verbatim>\<open>ngx_queue_t\<close> nodes; the macros are the stores they expand to, in their order, and using a
  node that is not there is undefined. \<open>ring\<close> is the abstract view: a sentinel and the elements
  in order. The locale \<open>deque\<close> is what a client relies on.
\<close>

subsection \<open>Nodes and macros\<close>

record ngx_queue_t =
  q_prev :: addr
  q_next :: addr

type_synonym nodes = "addr \<Rightarrow> ngx_queue_t option"

definition get_next :: "nodes \<Rightarrow> addr \<Rightarrow> addr option" where
  "get_next Q a = map_option q_next (Q a)"

definition get_prev :: "nodes \<Rightarrow> addr \<Rightarrow> addr option" where
  "get_prev Q a = map_option q_prev (Q a)"

definition put_next :: "nodes \<Rightarrow> addr \<Rightarrow> addr \<Rightarrow> nodes option" where
  "put_next Q a v = map_option (\<lambda>n. Q(a \<mapsto> n\<lparr>q_next := v\<rparr>)) (Q a)"

definition put_prev :: "nodes \<Rightarrow> addr \<Rightarrow> addr \<Rightarrow> nodes option" where
  "put_prev Q a v = map_option (\<lambda>n. Q(a \<mapsto> n\<lparr>q_prev := v\<rparr>)) (Q a)"

definition ngx_queue_init :: "nodes \<Rightarrow> addr \<Rightarrow> nodes option" where
  "ngx_queue_init Q q = do { Q \<leftarrow> put_prev Q q q; put_next Q q q }"

definition ngx_queue_empty :: "nodes \<Rightarrow> addr \<Rightarrow> bool option" where
  "ngx_queue_empty Q h = do { p \<leftarrow> get_prev Q h; Some (h = p) }"

definition ngx_queue_insert_head :: "nodes \<Rightarrow> addr \<Rightarrow> addr \<Rightarrow> nodes option" where
  "ngx_queue_insert_head Q h x = do {
     n \<leftarrow> get_next Q h;
     Q \<leftarrow> put_next Q x n;
     n \<leftarrow> get_next Q x;
     Q \<leftarrow> put_prev Q n x;
     Q \<leftarrow> put_prev Q x h;
     put_next Q h x }"

definition ngx_queue_insert_after :: "nodes \<Rightarrow> addr \<Rightarrow> addr \<Rightarrow> nodes option" where
  "ngx_queue_insert_after = ngx_queue_insert_head"

definition ngx_queue_insert_tail :: "nodes \<Rightarrow> addr \<Rightarrow> addr \<Rightarrow> nodes option" where
  "ngx_queue_insert_tail Q h x = do {
     p \<leftarrow> get_prev Q h;
     Q \<leftarrow> put_prev Q x p;
     p \<leftarrow> get_prev Q x;
     Q \<leftarrow> put_next Q p x;
     Q \<leftarrow> put_next Q x h;
     put_prev Q h x }"

definition ngx_queue_head :: "nodes \<Rightarrow> addr \<Rightarrow> addr option" where
  "ngx_queue_head Q h = get_next Q h"

definition ngx_queue_last :: "nodes \<Rightarrow> addr \<Rightarrow> addr option" where
  "ngx_queue_last Q h = get_prev Q h"

definition ngx_queue_sentinel :: "addr \<Rightarrow> addr" where
  "ngx_queue_sentinel h = h"

definition ngx_queue_next :: "nodes \<Rightarrow> addr \<Rightarrow> addr option" where
  "ngx_queue_next Q q = get_next Q q"

definition ngx_queue_prev :: "nodes \<Rightarrow> addr \<Rightarrow> addr option" where
  "ngx_queue_prev Q q = get_prev Q q"

text \<open>The configured variant of \<^verbatim>\<open>ngx_queue_remove\<close> leaves the removed node's own links.\<close>

definition ngx_queue_remove :: "nodes \<Rightarrow> addr \<Rightarrow> nodes option" where
  "ngx_queue_remove Q x = do {
     n \<leftarrow> get_next Q x;
     p \<leftarrow> get_prev Q x;
     Q \<leftarrow> put_prev Q n p;
     p \<leftarrow> get_prev Q x;
     n \<leftarrow> get_next Q x;
     put_next Q p n }"

subsection \<open>Rings\<close>

text \<open>\<open>links Q a xs b\<close>: from \<open>a\<close> through \<open>xs\<close> to \<open>b\<close>, forwards and backwards.\<close>

fun links :: "nodes \<Rightarrow> addr \<Rightarrow> addr list \<Rightarrow> addr \<Rightarrow> bool" where
  "links Q a [] b \<longleftrightarrow> get_next Q a = Some b \<and> get_prev Q b = Some a"
| "links Q a (x # xs) b \<longleftrightarrow> get_next Q a = Some x \<and> get_prev Q x = Some a \<and> links Q x xs b"

definition ring :: "nodes \<Rightarrow> addr \<Rightarrow> addr list \<Rightarrow> bool" where
  "ring Q s xs \<longleftrightarrow> distinct (s # xs) \<and> links Q s xs s"

lemma get_put [simp]:
  "put_next Q a v = Some Q' \<Longrightarrow> get_next Q' c = (if c = a then Some v else get_next Q c)"
  "put_next Q a v = Some Q' \<Longrightarrow> get_prev Q' c = get_prev Q c"
  "put_prev Q a v = Some Q' \<Longrightarrow> get_prev Q' c = (if c = a then Some v else get_prev Q c)"
  "put_prev Q a v = Some Q' \<Longrightarrow> get_next Q' c = get_next Q c"
  by (auto simp: put_next_def put_prev_def get_next_def get_prev_def)

lemma put_Some:
  "put_next Q a v = None \<longleftrightarrow> Q a = None" "put_prev Q a v = None \<longleftrightarrow> Q a = None"
  by (auto simp: put_next_def put_prev_def)

lemma get_Some: "get_next Q a = None \<longleftrightarrow> Q a = None" "get_prev Q a = None \<longleftrightarrow> Q a = None"
  by (auto simp: get_next_def get_prev_def)

text \<open>A store neither adds nor removes nodes and touches one node only.\<close>

definition same_but :: "nodes \<Rightarrow> nodes \<Rightarrow> addr set \<Rightarrow> bool" where
  "same_but Q Q' A \<longleftrightarrow> (\<forall>c. (Q' c = None) = (Q c = None)) \<and> (\<forall>c. c \<notin> A \<longrightarrow> Q' c = Q c)"

lemma put_same:
  "put_next Q a v = Some Q' \<Longrightarrow> same_but Q Q' {a}" "put_prev Q a v = Some Q' \<Longrightarrow> same_but Q Q' {a}"
  by (auto simp: put_next_def put_prev_def same_but_def split: if_splits)

lemma same_but_trans: "same_but Q1 Q2 A \<Longrightarrow> same_but Q2 Q3 B \<Longrightarrow> same_but Q1 Q3 (A \<union> B)"
  by (auto simp: same_but_def)

lemma links_append: "links Q a (xs @ y # ys) b \<longleftrightarrow> links Q a xs y \<and> links Q y ys b"
  by (induction xs arbitrary: a) auto

lemma links_ends: "links Q a xs b \<Longrightarrow> get_next Q a = Some (hd (xs @ [b])) \<and> get_prev Q b = Some (last (a # xs))"
  by (induction xs arbitrary: a) auto

lemma links_frame:
  "links Q a xs b \<Longrightarrow> \<forall>c \<in> set (a # xs). get_next Q' c = get_next Q c \<Longrightarrow>
   \<forall>c \<in> set (xs @ [b]). get_prev Q' c = get_prev Q c \<Longrightarrow> links Q' a xs b"
  by (induction xs arbitrary: a) auto

lemma ring_nodes: "ring Q s xs \<Longrightarrow> a \<in> set (s # xs) \<Longrightarrow> Q a \<noteq> None"
proof -
  have "links Q a xs b \<Longrightarrow> c \<in> set (a # xs) \<Longrightarrow> get_next Q c \<noteq> None" for a b c
    by (induction xs arbitrary: a) auto
  then show "ring Q s xs \<Longrightarrow> a \<in> set (s # xs) \<Longrightarrow> Q a \<noteq> None"
    unfolding ring_def by (metis get_Some(1))
qed

text \<open>Linking \<open>x\<close> between the neighbours \<open>p\<close> and \<open>n\<close>, and unlinking it.\<close>

definition linked_in :: "nodes \<Rightarrow> nodes \<Rightarrow> addr \<Rightarrow> addr \<Rightarrow> addr \<Rightarrow> bool" where
  "linked_in Q Q' p x n \<longleftrightarrow> same_but Q Q' {p, x, n}
     \<and> (\<forall>c. get_next Q' c = (if c = p then Some x else if c = x then Some n else get_next Q c))
     \<and> (\<forall>c. get_prev Q' c = (if c = n then Some x else if c = x then Some p else get_prev Q c))"

definition linked_out :: "nodes \<Rightarrow> nodes \<Rightarrow> addr \<Rightarrow> addr \<Rightarrow> bool" where
  "linked_out Q Q' p n \<longleftrightarrow> same_but Q Q' {p, n}
     \<and> (\<forall>c. get_next Q' c = (if c = p then Some n else get_next Q c))
     \<and> (\<forall>c. get_prev Q' c = (if c = n then Some p else get_prev Q c))"

lemma links_linked_in:
  "links Q a (us @ vs) b \<Longrightarrow> distinct (a # us @ vs) \<Longrightarrow> b \<notin> set (us @ vs) \<Longrightarrow>
   x \<notin> set (a # us @ vs @ [b]) \<Longrightarrow> linked_in Q Q' (last (a # us)) x (hd (vs @ [b])) \<Longrightarrow>
   links Q' a (us @ x # vs) b"
proof (induction us arbitrary: a)
  case Nil
  show ?case
  proof (cases vs)
    case Nil
    with Nil.prems show ?thesis by (auto simp: linked_in_def)
  next
    case (Cons v vs')
    then have "links Q v vs' b" using Nil.prems(1) by simp
    then have "links Q' v vs' b"
      by (rule links_frame) (use Nil.prems Cons in \<open>auto simp: linked_in_def\<close>)
    then show ?thesis using Nil.prems Cons by (auto simp: linked_in_def)
  qed
next
  case (Cons u us)
  have "links Q' u (us @ x # vs) b"
    by (rule Cons.IH) (use Cons.prems in auto)
  moreover have "last (u # us) \<noteq> a" "hd (vs @ [b]) \<noteq> u"
    using Cons.prems(2,3) by (auto simp: hd_append split: if_splits)
  ultimately show ?case using Cons.prems by (auto simp: linked_in_def)
qed

lemma links_linked_out:
  "links Q a (us @ x # vs) b \<Longrightarrow> distinct (a # us @ x # vs) \<Longrightarrow> b \<notin> set (us @ x # vs) \<Longrightarrow>
   linked_out Q Q' (last (a # us)) (hd (vs @ [b])) \<Longrightarrow> links Q' a (us @ vs) b"
proof (induction us arbitrary: a)
  case Nil
  show ?case
  proof (cases vs)
    case Nil
    with Nil.prems show ?thesis by (auto simp: linked_out_def)
  next
    case (Cons v vs')
    then have "links Q v vs' b" using Nil.prems(1) by simp
    then have "links Q' v vs' b"
      by (rule links_frame) (use Nil.prems Cons in \<open>auto simp: linked_out_def\<close>)
    then show ?thesis using Nil.prems Cons by (auto simp: linked_out_def)
  qed
next
  case (Cons u us)
  have "links Q' u (us @ vs) b" by (rule Cons.IH) (use Cons.prems in auto)
  moreover have "last (u # us) \<noteq> a" "hd (vs @ [b]) \<noteq> u"
    using Cons.prems(2,3) by (auto simp: hd_append split: if_splits)
  ultimately show ?case using Cons.prems by (auto simp: linked_out_def)
qed


lemma same_but_refl: "same_but Q Q {}"
  by (simp add: same_but_def)

lemma put_ex:
  "same_but Q0 Q A \<Longrightarrow> Q0 a \<noteq> None \<Longrightarrow> \<exists>Q'. put_next Q a v = Some Q'"
  "same_but Q0 Q A \<Longrightarrow> Q0 a \<noteq> None \<Longrightarrow> \<exists>Q'. put_prev Q a v = Some Q'"
  unfolding same_but_def put_next_def put_prev_def by (metis not_None_eq option.simps(9))+

subsection \<open>The macros on rings\<close>

lemma insert_head_linked_in:
  assumes "get_next Q h = Some n" "get_prev Q n = Some h" "Q x \<noteq> None" "x \<noteq> h" "x \<noteq> n"
  shows "\<exists>Q'. ngx_queue_insert_head Q h x = Some Q' \<and> linked_in Q Q' h x n"
proof -
  have hn: "Q h \<noteq> None" "Q n \<noteq> None" using assms(1,2) get_Some by (metis option.distinct(1))+
  obtain Q1 where Q1: "put_next Q x n = Some Q1" using put_ex(1) [OF same_but_refl [of Q] assms(3)] by blast
  note s1 = put_same(1) [OF Q1]
  obtain Q2 where Q2: "put_prev Q1 n x = Some Q2"
    using put_ex(2) [OF s1 hn(2)] by blast
  note s2 = same_but_trans [OF s1 put_same(2) [OF Q2]]
  obtain Q3 where Q3: "put_prev Q2 x h = Some Q3"
    using put_ex(2) [OF s2 assms(3)] by blast
  note s3 = same_but_trans [OF s2 put_same(2) [OF Q3]]
  obtain Q4 where Q4: "put_next Q3 h x = Some Q4"
    using put_ex(1) [OF s3 hn(1)] by blast
  note s4 = same_but_trans [OF s3 put_same(1) [OF Q4]]
  have "ngx_queue_insert_head Q h x = Some Q4"
    using assms(1) Q1 Q2 Q3 Q4 by (simp add: ngx_queue_insert_head_def)
  moreover have "linked_in Q Q4 h x n"
    using s4 assms(4,5) get_put(1,2) [OF Q1] get_put(3,4) [OF Q2] get_put(3,4) [OF Q3] get_put(1,2) [OF Q4]
    by (simp add: linked_in_def same_but_def)
  ultimately show ?thesis by blast
qed

lemma insert_tail_linked_in:
  assumes "get_prev Q h = Some p" "get_next Q p = Some h" "Q x \<noteq> None" "x \<noteq> h" "x \<noteq> p"
  shows "\<exists>Q'. ngx_queue_insert_tail Q h x = Some Q' \<and> linked_in Q Q' p x h"
proof -
  have hp: "Q h \<noteq> None" "Q p \<noteq> None" using assms(1,2) get_Some by (metis option.distinct(1))+
  obtain Q1 where Q1: "put_prev Q x p = Some Q1" using put_ex(2) [OF same_but_refl [of Q] assms(3)] by blast
  note s1 = put_same(2) [OF Q1]
  obtain Q2 where Q2: "put_next Q1 p x = Some Q2"
    using put_ex(1) [OF s1 hp(2)] by blast
  note s2 = same_but_trans [OF s1 put_same(1) [OF Q2]]
  obtain Q3 where Q3: "put_next Q2 x h = Some Q3"
    using put_ex(1) [OF s2 assms(3)] by blast
  note s3 = same_but_trans [OF s2 put_same(1) [OF Q3]]
  obtain Q4 where Q4: "put_prev Q3 h x = Some Q4"
    using put_ex(2) [OF s3 hp(1)] by blast
  note s4 = same_but_trans [OF s3 put_same(2) [OF Q4]]
  have "ngx_queue_insert_tail Q h x = Some Q4"
    using assms(1) Q1 Q2 Q3 Q4 by (simp add: ngx_queue_insert_tail_def)
  moreover have "linked_in Q Q4 p x h"
    using s4 assms(4,5) get_put(3,4) [OF Q1] get_put(1,2) [OF Q2] get_put(1,2) [OF Q3] get_put(3,4) [OF Q4]
    by (auto simp: linked_in_def same_but_def)
  ultimately show ?thesis by blast
qed

lemma remove_linked_out:
  assumes "get_next Q x = Some n" "get_prev Q x = Some p" "Q n \<noteq> None" "Q p \<noteq> None" "n \<noteq> x" "p \<noteq> x"
  shows "\<exists>Q'. ngx_queue_remove Q x = Some Q' \<and> linked_out Q Q' p n"
proof -
  obtain Q1 where Q1: "put_prev Q n p = Some Q1" using put_ex(2) [OF same_but_refl [of Q] assms(3)] by blast
  note s1 = put_same(2) [OF Q1]
  obtain Q2 where Q2: "put_next Q1 p n = Some Q2"
    using put_ex(1) [OF s1 assms(4)] by blast
  note s2 = same_but_trans [OF s1 put_same(1) [OF Q2]]
  have "ngx_queue_remove Q x = Some Q2"
    using assms Q1 Q2 by (simp add: ngx_queue_remove_def)
  moreover have "linked_out Q Q2 p n"
    using s2 get_put(3,4) [OF Q1] get_put(1,2) [OF Q2] by (auto simp: linked_out_def same_but_def)
  ultimately show ?thesis by blast
qed

text \<open>The neighbours of a gap in a ring point at each other.\<close>

lemma links_gap:
  assumes "links Q a (us @ vs) b"
  shows "get_next Q (last (a # us)) = Some (hd (vs @ [b]))" "get_prev Q (hd (vs @ [b])) = Some (last (a # us))"
proof -
  have "links Q (last (a # us)) vs b" using assms by (induction us arbitrary: a) auto
  then show "get_next Q (last (a # us)) = Some (hd (vs @ [b]))" "get_prev Q (hd (vs @ [b])) = Some (last (a # us))"
    by (cases vs; simp)+
qed

lemma ring_gap:
  assumes "ring Q s (us @ vs)" "x \<notin> set (s # us @ vs)"
  shows "get_next Q (last (s # us)) = Some (hd (vs @ [s]))" "get_prev Q (hd (vs @ [s])) = Some (last (s # us))"
    "x \<noteq> last (s # us)" "x \<noteq> hd (vs @ [s])"
  using assms links_gap [of Q s us vs s] last_in_set [of "s # us"] hd_in_set [of "vs @ [s]"]
  by (auto simp: ring_def hd_append split: if_splits)

lemma ring_linked_in:
  assumes "ring Q s (us @ vs)" "x \<notin> set (s # us @ vs)" "linked_in Q Q' (last (s # us)) x (hd (vs @ [s]))"
  shows "ring Q' s (us @ x # vs)" "same_but Q Q' (set (s # us @ x # vs))"
proof -
  have "links Q' s (us @ x # vs) s"
    by (rule links_linked_in [OF _ _ _ _ assms(3)]) (use assms(1,2) in \<open>auto simp: ring_def\<close>)
  then show "ring Q' s (us @ x # vs)" using assms(1,2) by (auto simp: ring_def)
  have "{last (s # us), x, hd (vs @ [s])} \<subseteq> set (s # us @ x # vs)"
    using last_in_set [of "s # us"] hd_in_set [of "vs @ [s]"] by auto
  then show "same_but Q Q' (set (s # us @ x # vs))"
    using assms(3) unfolding linked_in_def same_but_def by blast
qed


lemma ring_init: "Q s \<noteq> None \<Longrightarrow> \<exists>Q'. ngx_queue_init Q s = Some Q' \<and> ring Q' s [] \<and> same_but Q Q' {s}"
  by (auto simp: ngx_queue_init_def put_next_def put_prev_def ring_def get_next_def get_prev_def same_but_def)

lemma ring_insert_head:
  assumes "ring Q s xs" "x \<notin> set (s # xs)" "Q x \<noteq> None"
  shows "\<exists>Q'. ngx_queue_insert_head Q s x = Some Q' \<and> ring Q' s (x # xs) \<and> same_but Q Q' (set (s # x # xs))"
proof -
  have r: "ring Q s ([] @ xs)" "x \<notin> set (s # [] @ xs)" using assms(1,2) by simp_all
  note g = ring_gap [OF r]
  obtain Q' where Q': "ngx_queue_insert_head Q s x = Some Q'" "linked_in Q Q' s x (hd (xs @ [s]))"
    using insert_head_linked_in [of Q s "hd (xs @ [s])" x] g assms(3) by auto
  then show ?thesis using ring_linked_in [OF r, of Q'] by simp
qed

lemma ring_insert_after:
  assumes "ring Q s (us @ y # vs)" "x \<notin> set (s # us @ y # vs)" "Q x \<noteq> None"
  shows "\<exists>Q'. ngx_queue_insert_after Q y x = Some Q' \<and> ring Q' s (us @ y # x # vs)
    \<and> same_but Q Q' (set (s # us @ y # x # vs))"
proof -
  have r: "ring Q s ((us @ [y]) @ vs)" "x \<notin> set (s # (us @ [y]) @ vs)" using assms(1,2) by simp_all
  note g = ring_gap [OF r]
  obtain Q' where Q': "ngx_queue_insert_head Q y x = Some Q'" "linked_in Q Q' y x (hd (vs @ [s]))"
    using insert_head_linked_in [of Q y "hd (vs @ [s])" x] g assms(3) by auto
  then show ?thesis using ring_linked_in [OF r, of Q'] by (auto simp: ngx_queue_insert_after_def)
qed

lemma ring_insert_tail:
  assumes "ring Q s xs" "x \<notin> set (s # xs)" "Q x \<noteq> None"
  shows "\<exists>Q'. ngx_queue_insert_tail Q s x = Some Q' \<and> ring Q' s (xs @ [x]) \<and> same_but Q Q' (set (s # x # xs))"
proof -
  have r: "ring Q s (xs @ [])" "x \<notin> set (s # xs @ [])" using assms(1,2) by simp_all
  note g = ring_gap [OF r]
  obtain Q' where Q': "ngx_queue_insert_tail Q s x = Some Q'" "linked_in Q Q' (last (s # xs)) x s"
    using insert_tail_linked_in [of Q s "last (s # xs)" x] g assms(3) by (auto split: if_splits)
  moreover have "set (s # xs @ [x]) = set (s # x # xs)" by auto
  ultimately show ?thesis using ring_linked_in [OF r, of Q'] by auto
qed

lemma ring_remove:
  assumes "ring Q s (us @ x # vs)"
  shows "\<exists>Q'. ngx_queue_remove Q x = Some Q' \<and> ring Q' s (us @ vs) \<and> same_but Q Q' (set (s # us @ vs))"
proof -
  have lk: "links Q s (us @ x # vs) s" and dist: "distinct (s # us @ x # vs)"
    using assms by (simp_all add: ring_def)
  note before = links_gap [OF lk]
  have after: "get_next Q x = Some (hd (vs @ [s]))"
    using links_gap(1) [of Q s "us @ [x]" vs s] lk by simp
  have inr: "{last (s # us), hd (vs @ [s])} \<subseteq> set (s # us @ vs)"
    using last_in_set [of "s # us"] hd_in_set [of "vs @ [s]"] by auto
  have nx: "hd (vs @ [s]) \<noteq> x" "last (s # us) \<noteq> x" using inr dist by auto
  have "set (s # us @ vs) \<subseteq> set (s # us @ x # vs)" by auto
  then have "Q (hd (vs @ [s])) \<noteq> None" "Q (last (s # us)) \<noteq> None"
    using ring_nodes [OF assms] inr by blast+
  then obtain Q' where Q': "ngx_queue_remove Q x = Some Q'" "linked_out Q Q' (last (s # us)) (hd (vs @ [s]))"
    using remove_linked_out [OF after _ _ _ nx] before(2) by auto
  have "links Q' s (us @ vs) s"
    by (rule links_linked_out [OF lk _ _ Q'(2)]) (use dist in auto)
  then have "ring Q' s (us @ vs)" using dist by (auto simp: ring_def)
  moreover have "same_but Q Q' (set (s # us @ vs))"
    using Q'(2) inr unfolding linked_out_def same_but_def by blast
  ultimately show ?thesis using Q'(1) by blast
qed

lemma ring_ends:
  assumes "ring Q s xs"
  shows "ngx_queue_head Q s = Some (hd (xs @ [s]))" "ngx_queue_last Q s = Some (last (s # xs))"
    "ngx_queue_empty Q s = Some (xs = [])"
proof -
  have l: "links Q s xs s" and d: "distinct (s # xs)" using assms by (simp_all add: ring_def)
  note e = links_ends [OF l]
  show "ngx_queue_head Q s = Some (hd (xs @ [s]))" "ngx_queue_last Q s = Some (last (s # xs))"
    using e by (simp_all add: ngx_queue_head_def ngx_queue_last_def)
  have "s = last (s # xs) \<longleftrightarrow> xs = []" using d last_in_set [of xs] by auto
  then show "ngx_queue_empty Q s = Some (xs = [])" using e by (simp add: ngx_queue_empty_def)
qed

subsection \<open>The contract of a queue\<close>

text \<open>
  The operations a client calls on a queue \<open>'q\<close> of elements \<open>'a\<close>, with the list they maintain.
  \<open>usable q x\<close> says that \<open>x\<close> is an element the queue can hold.
\<close>

fun push_all :: "('q \<Rightarrow> 'a \<Rightarrow> 'q option) \<Rightarrow> 'q \<Rightarrow> 'a list \<Rightarrow> 'q option" where
  "push_all push q [] = Some q"
| "push_all push q (x # xs) = do { q \<leftarrow> push q x; push_all push q xs }"

fun drain :: "('q \<Rightarrow> bool option) \<Rightarrow> ('q \<Rightarrow> 'a option) \<Rightarrow> ('q \<Rightarrow> 'a \<Rightarrow> 'q option) \<Rightarrow> nat \<Rightarrow> 'q
    \<Rightarrow> ('a list \<times> 'q) option" where
  "drain is_empty pick unlink 0 q = Some ([], q)"
| "drain is_empty pick unlink (Suc n) q = do {
     e \<leftarrow> is_empty q;
     if e then Some ([], q) else do {
       x \<leftarrow> pick q;
       q \<leftarrow> unlink q x;
       (xs, q) \<leftarrow> drain is_empty pick unlink n q;
       Some (x # xs, q) } }"

locale deque =
  fixes repr :: "'q \<Rightarrow> 'a list \<Rightarrow> bool"
    and usable :: "'q \<Rightarrow> 'a \<Rightarrow> bool"
    and push_front :: "'q \<Rightarrow> 'a \<Rightarrow> 'q option"
    and push_back :: "'q \<Rightarrow> 'a \<Rightarrow> 'q option"
    and unlink :: "'q \<Rightarrow> 'a \<Rightarrow> 'q option"
    and head_of :: "'q \<Rightarrow> 'a option"
    and tail_of :: "'q \<Rightarrow> 'a option"
    and is_empty :: "'q \<Rightarrow> bool option"
  assumes push_front: "repr q xs \<Longrightarrow> usable q x \<Longrightarrow> x \<notin> set xs \<Longrightarrow>
      \<exists>q'. push_front q x = Some q' \<and> repr q' (x # xs) \<and> usable q' = usable q"
    and push_back: "repr q xs \<Longrightarrow> usable q x \<Longrightarrow> x \<notin> set xs \<Longrightarrow>
      \<exists>q'. push_back q x = Some q' \<and> repr q' (xs @ [x]) \<and> usable q' = usable q"
    and unlink: "repr q (us @ x # vs) \<Longrightarrow>
      \<exists>q'. unlink q x = Some q' \<and> repr q' (us @ vs) \<and> usable q' = usable q"
    and head_of: "repr q (x # xs) \<Longrightarrow> head_of q = Some x"
    and tail_of: "repr q (xs @ [x]) \<Longrightarrow> tail_of q = Some x"
    and is_empty: "repr q xs \<Longrightarrow> is_empty q = Some (xs = [])"
begin

lemma push_all_back:
  "repr q xs \<Longrightarrow> distinct (xs @ ys) \<Longrightarrow> \<forall>y \<in> set ys. usable q y \<Longrightarrow>
   \<exists>q'. push_all push_back q ys = Some q' \<and> repr q' (xs @ ys) \<and> usable q' = usable q"
proof (induction ys arbitrary: q xs)
  case (Cons y ys)
  obtain q1 where q1: "push_back q y = Some q1" "repr q1 (xs @ [y])" "usable q1 = usable q"
    using push_back [of q xs y] Cons.prems by auto
  then show ?case using Cons.IH [of q1 "xs @ [y]"] Cons.prems by auto
qed auto

lemma push_all_front:
  "repr q xs \<Longrightarrow> distinct (xs @ ys) \<Longrightarrow> \<forall>y \<in> set ys. usable q y \<Longrightarrow>
   \<exists>q'. push_all push_front q ys = Some q' \<and> repr q' (rev ys @ xs) \<and> usable q' = usable q"
proof (induction ys arbitrary: q xs)
  case (Cons y ys)
  obtain q1 where q1: "push_front q y = Some q1" "repr q1 (y # xs)" "usable q1 = usable q"
    using push_front [of q xs y] Cons.prems by auto
  then show ?case using Cons.IH [of q1 "y # xs"] Cons.prems by auto
qed auto

lemma drain_front:
  "repr q xs \<Longrightarrow> length xs \<le> n \<Longrightarrow> \<exists>q'. drain is_empty head_of unlink n q = Some (xs, q') \<and> repr q' []"
proof (induction xs arbitrary: q n)
  case Nil
  then show ?case using is_empty [OF Nil.prems(1)] by (cases n) auto
next
  case (Cons x xs)
  obtain k where n: "n = Suc k" "length xs \<le> k" using Cons.prems(2) by (cases n) auto
  obtain q1 where "unlink q x = Some q1" "repr q1 xs" using unlink [of q "[]" x xs] Cons.prems(1) by auto
  then show ?case
    using Cons.IH [OF _ n(2), of q1] is_empty [OF Cons.prems(1)] head_of [OF Cons.prems(1)] by (auto simp: n(1))
qed

lemma drain_back:
  "repr q (rev xs) \<Longrightarrow> length xs \<le> n \<Longrightarrow> \<exists>q'. drain is_empty tail_of unlink n q = Some (xs, q') \<and> repr q' []"
proof (induction xs arbitrary: q n)
  case Nil
  then show ?case using is_empty [of q "[]"] by (cases n) auto
next
  case (Cons x xs)
  obtain k where n: "n = Suc k" "length xs \<le> k" using Cons.prems(2) by (cases n) auto
  obtain q1 where "unlink q x = Some q1" "repr q1 (rev xs)"
    using unlink [of q "rev xs" x "[]"] Cons.prems(1) by auto
  then show ?case
    using Cons.IH [OF _ n(2), of q1] is_empty [OF Cons.prems(1)] tail_of [of q "rev xs" x] Cons.prems(1)
    by (auto simp: n(1))
qed

end

text \<open>The macros on the queue with sentinel \<open>s\<close> meet the contract.\<close>

lemma same_but_usable:
  "same_but Q Q' A \<Longrightarrow> (\<lambda>x. Q' x \<noteq> None \<and> x \<noteq> s) = (\<lambda>x. Q x \<noteq> None \<and> x \<noteq> s)"
  by (simp add: same_but_def)

interpretation queue: deque "\<lambda>Q. ring Q s" "\<lambda>Q x. Q x \<noteq> None \<and> x \<noteq> s"
  "\<lambda>Q. ngx_queue_insert_head Q s" "\<lambda>Q. ngx_queue_insert_tail Q s" ngx_queue_remove
  "\<lambda>Q. ngx_queue_head Q s" "\<lambda>Q. ngx_queue_last Q s" "\<lambda>Q. ngx_queue_empty Q s"
  for s
proof unfold_locales
  fix Q xs x
  assume r: "ring Q s xs" and x: "Q x \<noteq> None \<and> x \<noteq> s" "x \<notin> set xs"
  then have n: "x \<notin> set (s # xs)" "Q x \<noteq> None" by auto
  show "\<exists>Q'. ngx_queue_insert_head Q s x = Some Q' \<and> ring Q' s (x # xs)
      \<and> (\<lambda>x. Q' x \<noteq> None \<and> x \<noteq> s) = (\<lambda>x. Q x \<noteq> None \<and> x \<noteq> s)"
    using ring_insert_head [OF r n] same_but_usable by blast
  show "\<exists>Q'. ngx_queue_insert_tail Q s x = Some Q' \<and> ring Q' s (xs @ [x])
      \<and> (\<lambda>x. Q' x \<noteq> None \<and> x \<noteq> s) = (\<lambda>x. Q x \<noteq> None \<and> x \<noteq> s)"
    using ring_insert_tail [OF r n] same_but_usable by blast
next
  fix Q us x vs
  assume "ring Q s (us @ x # vs)"
  then show "\<exists>Q'. ngx_queue_remove Q x = Some Q' \<and> ring Q' s (us @ vs)
      \<and> (\<lambda>x. Q' x \<noteq> None \<and> x \<noteq> s) = (\<lambda>x. Q x \<noteq> None \<and> x \<noteq> s)"
    using ring_remove [of Q s us x vs] same_but_usable by blast
qed (simp_all add: ring_ends)

subsection \<open>Properties\<close>

text \<open>
  On a well-formed queue the three insertions put the new node where their names say, in
  front, behind or after the node \<open>y\<close>, the result is well-formed, and only nodes of the queue
  change.
\<close>

theorem ngx_queue_insert_correct:
  assumes "ring Q s (us @ y # vs)" "x \<notin> set (s # us @ y # vs)" "Q x \<noteq> None"
  shows "\<exists>Q1 Q2 Q3. ngx_queue_insert_head Q s x = Some Q1 \<and> ring Q1 s (x # us @ y # vs)
    \<and> ngx_queue_insert_tail Q s x = Some Q2 \<and> ring Q2 s (us @ y # vs @ [x])
    \<and> ngx_queue_insert_after Q y x = Some Q3 \<and> ring Q3 s (us @ y # x # vs)
    \<and> (\<forall>c. c \<notin> set (x # s # us @ y # vs) \<longrightarrow> Q1 c = Q c \<and> Q2 c = Q c \<and> Q3 c = Q c)"
  using ring_insert_head [OF assms] ring_insert_tail [OF assms] ring_insert_after [OF assms]
  by (auto simp: same_but_def)

definition demo_queue :: nodes where
  "demo_queue = [8 \<mapsto> \<lparr>q_prev = 16, q_next = 16\<rparr>, 16 \<mapsto> \<lparr>q_prev = 8, q_next = 8\<rparr>,
     24 \<mapsto> \<lparr>q_prev = 0, q_next = 0\<rparr>, 32 \<mapsto> \<lparr>q_prev = 0, q_next = 0\<rparr>]"

lemma demo_ring: "ring demo_queue 8 [16]"
  by (simp add: demo_queue_def ring_def get_next_def get_prev_def)

theorem ngx_queue_insert_correct_witness:
  "\<exists>Q1 Q2. ngx_queue_insert_head demo_queue 8 24 = Some Q1 \<and> ring Q1 8 [24, 16]
    \<and> ngx_queue_insert_tail demo_queue 8 24 = Some Q2 \<and> ring Q2 8 [16, 24]"
  using ngx_queue_insert_correct [of demo_queue 8 "[]" 16 "[]" 24] demo_ring
  by (auto simp: demo_queue_def)

text \<open>
  \<open>ngx_queue_remove\<close> takes a node out of the middle or either end of a well-formed queue and
  keeps the order of the others; the removed node itself is not written.
\<close>

theorem ngx_queue_remove_correct:
  assumes "ring Q s (us @ x # vs)"
  shows "\<exists>Q'. ngx_queue_remove Q x = Some Q' \<and> ring Q' s (us @ vs) \<and> Q' x = Q x
    \<and> ngx_queue_empty Q' s = Some (us @ vs = [])"
proof -
  obtain Q' where Q': "ngx_queue_remove Q x = Some Q'" "ring Q' s (us @ vs)" "same_but Q Q' (set (s # us @ vs))"
    using ring_remove [OF assms] by blast
  have "x \<notin> set (s # us @ vs)" using assms by (auto simp: ring_def)
  then have "Q' x = Q x" using Q'(3) unfolding same_but_def by blast
  then show ?thesis using Q' ring_ends(3) [OF Q'(2)] by auto
qed

theorem ngx_queue_remove_correct_witness:
  "\<exists>Q'. ngx_queue_remove demo_queue 16 = Some Q' \<and> ring Q' 8 [] \<and> ngx_queue_empty Q' 8 = Some True"
  using ngx_queue_remove_correct [of demo_queue 8 "[]" 16 "[]"] demo_ring by auto

text \<open>
  C4: a queue is first in first out at its two ends and last in first out at one: after
  \<open>ngx_queue_init\<close>, the nodes inserted at the tail come out of the head in the same order and
  out of the tail in the opposite order, and taking them all leaves an empty queue.
\<close>

theorem ngx_queue_fifo_lifo:
  assumes "Q s \<noteq> None" "distinct xs" "s \<notin> set xs" "\<forall>x \<in> set xs. Q x \<noteq> None"
  shows "\<exists>Q0 Q1 Q2 Q3. ngx_queue_init Q s = Some Q0
    \<and> push_all (\<lambda>Q. ngx_queue_insert_tail Q s) Q0 xs = Some Q1 \<and> ring Q1 s xs
    \<and> drain (\<lambda>Q. ngx_queue_empty Q s) (\<lambda>Q. ngx_queue_head Q s) ngx_queue_remove (length xs) Q1 = Some (xs, Q2)
    \<and> ring Q2 s []
    \<and> drain (\<lambda>Q. ngx_queue_empty Q s) (\<lambda>Q. ngx_queue_last Q s) ngx_queue_remove (length xs) Q1 = Some (rev xs, Q3)
    \<and> ring Q3 s []"
proof -
  obtain Q0 where Q0: "ngx_queue_init Q s = Some Q0" "ring Q0 s []" "same_but Q Q0 {s}"
    using ring_init [of Q s] assms(1) by blast
  have "\<forall>x \<in> set xs. Q0 x \<noteq> None \<and> x \<noteq> s" using Q0(3) assms(3,4) by (auto simp: same_but_def)
  then obtain Q1 where Q1: "push_all (\<lambda>Q. ngx_queue_insert_tail Q s) Q0 xs = Some Q1" "ring Q1 s xs"
    using queue.push_all_back [OF Q0(2), of xs] assms(2) by auto
  then show ?thesis
    using Q0(1) queue.drain_front [OF Q1(2)] queue.drain_back [of Q1 s "rev xs"] by simp
qed

theorem ngx_queue_fifo_lifo_witness:
  "\<exists>Q0 Q1 Q2. ngx_queue_init demo_queue 8 = Some Q0
    \<and> push_all (\<lambda>Q. ngx_queue_insert_tail Q 8) Q0 [24, 16, 32] = Some Q1
    \<and> drain (\<lambda>Q. ngx_queue_empty Q 8) (\<lambda>Q. ngx_queue_head Q 8) ngx_queue_remove 3 Q1 = Some ([24, 16, 32], Q2)"
  using ngx_queue_fifo_lifo [of demo_queue 8 "[24, 16, 32]"] by (auto simp: demo_queue_def numeral_3_eq_3)

subsection \<open>Removing under NGX_DEBUG\<close>

definition ngx_queue_remove_debug :: "nodes \<Rightarrow> addr \<Rightarrow> nodes option" where
  "ngx_queue_remove_debug Q x = do {
     n \<leftarrow> get_next Q x;
     p \<leftarrow> get_prev Q x;
     Q \<leftarrow> put_prev Q n p;
     p \<leftarrow> get_prev Q x;
     n \<leftarrow> get_next Q x;
     Q \<leftarrow> put_next Q p n;
     Q \<leftarrow> put_prev Q x NULL;
     put_next Q x NULL }"

lemma remove_debug_eq:
  "ngx_queue_remove_debug Q x = do {
     Q \<leftarrow> ngx_queue_remove Q x; Q \<leftarrow> put_prev Q x NULL; put_next Q x NULL }"
  by (simp add: ngx_queue_remove_debug_def ngx_queue_remove_def)

lemma links_same: "links Q a xs b \<Longrightarrow> \<forall>c \<in> set (a # xs @ [b]). Q' c = Q c \<Longrightarrow> links Q' a xs b"
  by (induction xs arbitrary: a) (auto simp: get_next_def get_prev_def)

text \<open>
  Under \<^verbatim>\<open>NGX_DEBUG\<close> the macro does what it does without, to every node but the removed one, whose links
  it clears. Removing a node twice, which goes unnoticed without it, then follows the null
  pointer: it is undefined wherever no node lies there.
\<close>

theorem ngx_queue_remove_debug_correct:
  assumes "ring Q s (us @ x # vs)" "Q NULL = None"
  shows "\<exists>Q1 Q2. ngx_queue_remove Q x = Some Q1 \<and> ngx_queue_remove_debug Q x = Some Q2
    \<and> Q2 = Q1(x \<mapsto> \<lparr>q_prev = NULL, q_next = NULL\<rparr>) \<and> ring Q2 s (us @ vs)
    \<and> ngx_queue_remove Q1 x \<noteq> None \<and> ngx_queue_remove_debug Q2 x = None"
proof -
  obtain Q1 where Q1: "ngx_queue_remove Q x = Some Q1" "ring Q1 s (us @ vs)" "same_but Q Q1 (set (s # us @ vs))"
    using ring_remove [OF assms(1)] by blast
  have x: "x \<notin> set (s # us @ vs)" using assms(1) by (auto simp: ring_def)
  then have same: "Q1 x = Q x" using Q1(3) unfolding same_but_def by blast
  obtain r where r: "Q x = Some r" using ring_nodes [OF assms(1)] by force
  define Q2 where "Q2 = Q1(x \<mapsto> \<lparr>q_prev = NULL, q_next = NULL\<rparr>)"
  have run: "ngx_queue_remove_debug Q x = Some Q2"
    using Q1(1) same r by (cases r) (simp add: remove_debug_eq put_prev_def put_next_def Q2_def)
  have "links Q2 s (us @ vs) s"
    by (rule links_same [of Q1]) (use Q1(2) x in \<open>auto simp: ring_def Q2_def\<close>)
  then have ring: "ring Q2 s (us @ vs)" using Q1(2) by (simp add: ring_def)
  have "Q1 NULL = None" using Q1(3) assms(2) by (simp add: same_but_def)
  moreover have "NULL \<noteq> x" using assms(2) r by auto
  ultimately have "ngx_queue_remove_debug Q2 x = None"
    by (simp add: ngx_queue_remove_debug_def get_next_def get_prev_def put_prev_def Q2_def)
  moreover have "ngx_queue_remove Q1 x \<noteq> None"
  proof -
    have lk: "links Q s (us @ x # vs) s" using assms(1) by (simp add: ring_def)
    have "get_next Q1 x = Some (hd (vs @ [s]))" "get_prev Q1 x = Some (last (s # us))"
      using links_gap(1) [of Q s "us @ [x]" vs s] links_gap(2) [OF lk] lk same by (simp_all add: get_next_def get_prev_def)
    moreover have inr: "{last (s # us), hd (vs @ [s])} \<subseteq> set (s # us @ vs)"
      using last_in_set [of "s # us"] hd_in_set [of "vs @ [s]"] by auto
    moreover have "Q1 c \<noteq> None" if "c \<in> set (s # us @ vs)" for c using ring_nodes [OF Q1(2)] that by blast
    moreover have "hd (vs @ [s]) \<noteq> x" "last (s # us) \<noteq> x" using inr x by auto
    ultimately show ?thesis using remove_linked_out [of Q1 x "hd (vs @ [s])" "last (s # us)"] by auto
  qed
  ultimately show ?thesis using Q1(1) run ring Q2_def by blast
qed

theorem ngx_queue_remove_debug_correct_witness:
  "\<exists>Q2. ngx_queue_remove_debug demo_queue 16 = Some Q2 \<and> ring Q2 8 [] \<and> ngx_queue_remove_debug Q2 16 = None"
  using ngx_queue_remove_debug_correct [of demo_queue 8 "[]" 16 "[]"] demo_ring by (auto simp: demo_queue_def)

end
