(* ===== verification/Ngx_Shmtx.thy ===== *)
theory Ngx_Shmtx
  imports Ngx_Prelude
begin

text \<open>
  \<^verbatim>\<open>src/core/ngx_shmtx.c\<close> with the atomic operations of \<^verbatim>\<open>src/os/unix/ngx_atomic.h\<close>: the mutex
  that processes share through a lock word, a count of waiters and a POSIX semaphore.

  Every process runs the code of \<^verbatim>\<open>ngx_shmtx_lock\<close>, \<^verbatim>\<open>ngx_shmtx_trylock\<close>, \<^verbatim>\<open>ngx_shmtx_unlock\<close>,
  \<^verbatim>\<open>ngx_shmtx_force_unlock\<close> and \<^verbatim>\<open>ngx_shmtx_wakeup\<close> one access to shared memory at a time; the
  control points are the constructors of \<open>pc\<close>, and the accesses of different processes
  interleave arbitrarily. What the outside decides (which operation a process calls, how
  \<^verbatim>\<open>sem_wait\<close> and \<^verbatim>\<open>sem_post\<close> return, a crash) is the \<open>action\<close> of a step. As in the code nothing
  keeps a process from unlocking a lock it does not hold or from forcing the lock of a living one.
\<close>

subsection \<open>Creation and destruction\<close>

record ngx_shmtx_sh_t =
  sh_lock :: u64
  sh_wait :: u64

record ngx_shmtx_t =
  mx_lock :: addr
  mx_wait :: addr
  mx_semaphore :: u64
  mx_sem :: "nat option"     \<comment> \<open>the value of the semaphore, once initialised\<close>
  mx_spin :: u64

text \<open>\<open>addr\<close> is where the shared words are; \<open>inited\<close> is whether \<^verbatim>\<open>sem_init\<close> succeeds.\<close>

definition ngx_shmtx_create :: "bool \<Rightarrow> ngx_shmtx_t \<Rightarrow> addr \<Rightarrow> u64 \<times> ngx_shmtx_t" where
  "ngx_shmtx_create inited mtx addr =
     (let mtx = mtx\<lparr>mx_lock := addr\<rparr> in
      if mx_spin mtx = -1 then (NGX_OK, mtx)
      else let mtx = mtx\<lparr>mx_wait := addr + 8\<rparr> in
        (NGX_OK, if inited then mtx\<lparr>mx_sem := Some 0, mx_semaphore := 1\<rparr> else mtx))"

text \<open>\<open>None\<close> destroys a semaphore that was never initialised, which is undefined.\<close>

definition ngx_shmtx_destroy :: "ngx_shmtx_t \<Rightarrow> ngx_shmtx_t option" where
  "ngx_shmtx_destroy mtx =
     (if mx_semaphore mtx \<noteq> 0
      then (case mx_sem mtx of None \<Rightarrow> None | Some _ \<Rightarrow> Some (mtx\<lparr>mx_sem := None\<rparr>))
      else Some mtx)"

subsection \<open>Atomic operations\<close>

definition ngx_atomic_cmp_set :: "u64 \<Rightarrow> u64 \<Rightarrow> u64 \<Rightarrow> bool \<times> u64" where
  "ngx_atomic_cmp_set lock old st = (if lock = old then (True, st) else (False, lock))"

definition ngx_atomic_fetch_add :: "u64 \<Rightarrow> u64 \<Rightarrow> u64" where
  "ngx_atomic_fetch_add v add = v + add"

subsection \<open>The code of a process\<close>

datatype pc =
    Idle                  \<comment> \<open>outside the mutex code, not holding\<close>
  | Held                  \<comment> \<open>returned from the lock operation, or a successful trylock\<close>
  | Dead
  | TryRead | TryCas
  | LockRead | LockCas
  | SpinStart             \<comment> \<open>\<^verbatim>\<open>if (ngx_ncpu > 1)\<close>\<close>
  | SpinTest u64          \<comment> \<open>\<^verbatim>\<open>n < mtx->spin\<close>\<close>
  | SpinPause u64 u64     \<comment> \<open>\<^verbatim>\<open>i < n\<close>\<close>
  | SpinRead u64 | SpinCas u64
  | Slow                  \<comment> \<open>\<^verbatim>\<open>if (mtx->semaphore)\<close>\<close>
  | WaitAdd | WaitRead | WaitCas | WaitSub
  | SemWait
  | Yield
  | UnlockCas
  | ForceCas u64
  | WakeTest | WakeRead | WakeCas u64 | WakePost

datatype action =
    Go                    \<comment> \<open>the next access of the operation under way\<close>
  | Call_lock | Call_trylock | Call_unlock | Call_force_unlock u64
  | Sem_ok | Sem_eintr | Sem_error
  | Post_error            \<comment> \<open>\<^verbatim>\<open>sem_post\<close> returns -1\<close>
  | Crash

record shmtx_cfg =
  cf_ncpu :: int
  cf_spin :: u64
  cf_semaphore :: u64

record shmtx_sys =
  sy_lock :: u64
  sy_wait :: u64
  sy_sem :: nat
  sy_pc :: "u64 \<Rightarrow> pc"

definition goto :: "u64 \<Rightarrow> pc \<Rightarrow> shmtx_sys \<Rightarrow> shmtx_sys" where
  "goto p c s = s\<lparr>sy_pc := (sy_pc s)(p := c)\<rparr>"

text \<open>\<^verbatim>\<open>*mtx->lock == 0 && ngx_atomic_cmp_set(mtx->lock, 0, ngx_pid)\<close>, in two accesses.\<close>

definition test_lock :: "u64 \<Rightarrow> pc \<Rightarrow> pc \<Rightarrow> shmtx_sys \<Rightarrow> shmtx_sys" where
  "test_lock p yes no s = goto p (if sy_lock s = 0 then yes else no) s"

definition take_lock :: "u64 \<Rightarrow> pc \<Rightarrow> pc \<Rightarrow> shmtx_sys \<Rightarrow> shmtx_sys" where
  "take_lock p yes no s = (let (ok, lock) = ngx_atomic_cmp_set (sy_lock s) 0 p
     in goto p (if ok then yes else no) (s\<lparr>sy_lock := lock\<rparr>))"

definition free_lock :: "u64 \<Rightarrow> u64 \<Rightarrow> shmtx_sys \<Rightarrow> shmtx_sys" where
  "free_lock p q s = (let (ok, lock) = ngx_atomic_cmp_set (sy_lock s) q 0
     in goto p (if ok then WakeTest else Idle) (s\<lparr>sy_lock := lock\<rparr>))"

text \<open>
  \<^verbatim>\<open>ngx_shmtx_wakeup\<close>; \<open>None\<close> where a process is not in it. \<^verbatim>\<open>sem_post\<close> fails on a semaphore that has reached
  \<^verbatim>\<open>SEM_VALUE_MAX\<close>, or for another reason (the action \<open>Post_error\<close>); the failure is only logged.
\<close>

definition SEM_VALUE_MAX :: nat where "SEM_VALUE_MAX = 0x7fffffff"

fun wake_step :: "shmtx_cfg \<Rightarrow> u64 \<Rightarrow> pc \<Rightarrow> shmtx_sys \<Rightarrow> shmtx_sys option" where
  "wake_step cfg p WakeTest s = Some (goto p (if cf_semaphore cfg = 0 then Idle else WakeRead) s)"
| "wake_step cfg p WakeRead s = Some (goto p (if sint (sy_wait s) \<le> 0 then Idle else WakeCas (sy_wait s)) s)"
| "wake_step cfg p (WakeCas w) s = Some (let (ok, wait) = ngx_atomic_cmp_set (sy_wait s) w (w - 1)
     in goto p (if ok then WakePost else WakeRead) (s\<lparr>sy_wait := wait\<rparr>))"
| "wake_step cfg p WakePost s = Some (goto p Idle
     (if sy_sem s < SEM_VALUE_MAX then s\<lparr>sy_sem := sy_sem s + 1\<rparr> else s))"
| "wake_step cfg p _ s = None"

text \<open>The next access of the operation under way.\<close>

fun go :: "shmtx_cfg \<Rightarrow> u64 \<Rightarrow> pc \<Rightarrow> shmtx_sys \<Rightarrow> shmtx_sys option" where
  "go cfg p TryRead s = Some (test_lock p TryCas Idle s)"
| "go cfg p TryCas s = Some (take_lock p Held Idle s)"
| "go cfg p LockRead s = Some (test_lock p LockCas SpinStart s)"
| "go cfg p LockCas s = Some (take_lock p Held SpinStart s)"
| "go cfg p SpinStart s = Some (goto p (if cf_ncpu cfg > 1 then SpinTest 1 else Slow) s)"
| "go cfg p (SpinTest n) s = Some (goto p (if n < cf_spin cfg then SpinPause n 0 else Slow) s)"
| "go cfg p (SpinPause n i) s = Some (goto p (if i < n then SpinPause n (i + 1) else SpinRead n) s)"
| "go cfg p (SpinRead n) s = Some (test_lock p (SpinCas n) (SpinTest (push_bit 1 n)) s)"
| "go cfg p (SpinCas n) s = Some (take_lock p Held (SpinTest (push_bit 1 n)) s)"
| "go cfg p Slow s = Some (goto p (if cf_semaphore cfg \<noteq> 0 then WaitAdd else Yield) s)"
| "go cfg p WaitAdd s = Some (goto p WaitRead (s\<lparr>sy_wait := ngx_atomic_fetch_add (sy_wait s) 1\<rparr>))"
| "go cfg p WaitRead s = Some (test_lock p WaitCas SemWait s)"
| "go cfg p WaitCas s = Some (take_lock p WaitSub SemWait s)"
| "go cfg p WaitSub s = Some (goto p SemWait (s\<lparr>sy_wait := ngx_atomic_fetch_add (sy_wait s) (-1)\<rparr>))"
| "go cfg p Yield s = Some (goto p LockRead s)"
| "go cfg p UnlockCas s = Some (free_lock p p s)"
| "go cfg p (ForceCas q) s = Some (free_lock p q s)"
| "go cfg p c s = wake_step cfg p c s"

text \<open>
  \<open>act cfg p a s\<close>: process \<open>p\<close> does \<open>a\<close>; \<open>None\<close> when it cannot. An interrupted \<^verbatim>\<open>sem_wait\<close> is
  called again; after another error the loop of \<^verbatim>\<open>ngx_shmtx_lock\<close> starts over, as it does after
  a success. \<^verbatim>\<open>ngx_shmtx_unlock\<close> may be called without holding the lock, and \<^verbatim>\<open>ngx_shmtx_force_unlock\<close> for any
  process. A process that holds the lock calls nothing but \<^verbatim>\<open>ngx_shmtx_unlock\<close>.
\<close>

fun act :: "shmtx_cfg \<Rightarrow> u64 \<Rightarrow> action \<Rightarrow> shmtx_sys \<Rightarrow> shmtx_sys option" where
  "act cfg p Go s = go cfg p (sy_pc s p) s"
| "act cfg p Call_lock s = (if sy_pc s p = Idle then Some (goto p LockRead s) else None)"
| "act cfg p Call_trylock s = (if sy_pc s p = Idle then Some (goto p TryRead s) else None)"
| "act cfg p Call_unlock s = (if sy_pc s p = Held \<or> sy_pc s p = Idle then Some (goto p UnlockCas s) else None)"
| "act cfg p (Call_force_unlock q) s =
     (if sy_pc s p = Idle then Some (goto p (ForceCas q) s) else None)"
| "act cfg p Sem_ok s = (if sy_pc s p = SemWait \<and> sy_sem s > 0
     then Some (goto p LockRead (s\<lparr>sy_sem := sy_sem s - 1\<rparr>)) else None)"
| "act cfg p Sem_eintr s = (if sy_pc s p = SemWait then Some s else None)"
| "act cfg p Sem_error s = (if sy_pc s p = SemWait then Some (goto p LockRead s) else None)"
| "act cfg p Post_error s = (if sy_pc s p = WakePost then Some (goto p Idle s) else None)"
| "act cfg p Crash s = (if sy_pc s p = Dead then None else Some (goto p Dead s))"

definition shmtx_init :: shmtx_sys where
  "shmtx_init = \<lparr>sy_lock = 0, sy_wait = 0, sy_sem = 0, sy_pc = (\<lambda>_. Idle)\<rparr>"

text \<open>Runs of any processes; a process identifier is not 0.\<close>

inductive runs :: "shmtx_cfg \<Rightarrow> shmtx_sys \<Rightarrow> (u64 \<times> action) list \<Rightarrow> shmtx_sys \<Rightarrow> bool" for cfg where
  runs_nil: "runs cfg s [] s"
| runs_step: "p \<noteq> 0 \<Longrightarrow> act cfg p a s = Some s1 \<Longrightarrow> runs cfg s1 as s2 \<Longrightarrow> runs cfg s ((p, a) # as) s2"

inductive_cases runs_ConsE: "runs cfg s ((p, a) # as) s'"
inductive_simps runs_Nil [simp]: "runs cfg s [] s'"
inductive_simps runs_Cons: "runs cfg s ((p, a) # as) s'"

definition reachable :: "shmtx_cfg \<Rightarrow> shmtx_sys \<Rightarrow> bool" where
  "reachable cfg s \<longleftrightarrow> (\<exists>as. runs cfg shmtx_init as s)"

text \<open>The states that are reached when forced unlocks are called for dead processes only.\<close>

inductive orderly :: "shmtx_cfg \<Rightarrow> shmtx_sys \<Rightarrow> bool" for cfg where
  orderly_init: "orderly cfg shmtx_init"
| orderly_step: "orderly cfg s \<Longrightarrow> p \<noteq> 0 \<Longrightarrow> act cfg p a s = Some s' \<Longrightarrow>
    (\<forall>q. a = Call_force_unlock q \<longrightarrow> sy_pc s q = Dead) \<Longrightarrow> orderly cfg s'"

lemma runs_invariant:
  assumes "runs cfg s as s'" "I s" "\<And>p a s s'. p \<noteq> 0 \<Longrightarrow> (p, a) \<in> set as \<Longrightarrow> I s \<Longrightarrow> act cfg p a s = Some s' \<Longrightarrow> I s'"
  shows "I s'"
  using assms by (induction rule: runs.induct) auto

lemma runs_append: "runs cfg s as s1 \<Longrightarrow> runs cfg s1 bs s2 \<Longrightarrow> runs cfg s (as @ bs) s2"
  by (induction rule: runs.induct) (auto intro: runs_step)

lemmas lock_ops = test_lock_def take_lock_def free_lock_def goto_def ngx_atomic_cmp_set_def
  ngx_atomic_fetch_add_def

subsection \<open>Mutual exclusion\<close>

text \<open>
  A process that is inside, or that has just taken the lock on its way to the
  semaphore, is named by the lock word; a forced unlock is aimed at a dead process.
\<close>

definition exclusive :: "shmtx_sys \<Rightarrow> bool" where
  "exclusive s \<longleftrightarrow> (\<forall>p. p \<noteq> 0 \<longrightarrow> sy_pc s p \<in> {Held, WaitSub} \<longrightarrow> sy_lock s = p)
     \<and> (\<forall>p q. p \<noteq> 0 \<longrightarrow> sy_pc s p = ForceCas q \<longrightarrow> sy_pc s q = Dead)"

lemma exclusiveI:
  assumes "exclusive s" "p \<noteq> 0" "sy_pc s p \<noteq> Dead" "sy_pc s' = (sy_pc s)(p := c)" "\<forall>q. c \<noteq> ForceCas q"
    "c \<in> {Held, WaitSub} \<longrightarrow> sy_lock s' = p"
    "sy_lock s' = sy_lock s \<or> sy_lock s = 0 \<or> sy_lock s = p \<or> sy_pc s (sy_lock s) = Dead"
  shows "exclusive s'"
proof -
  have "sy_lock s' = q" if q: "q \<noteq> 0" "q \<noteq> p" "sy_pc s q \<in> {Held, WaitSub}" for q
  proof -
    have "sy_lock s = q" using assms(1) q unfolding exclusive_def by blast
    then show ?thesis using assms(7) q by auto
  qed
  note other = this
  show ?thesis
    unfolding exclusive_def
  proof (intro conjI allI impI)
    fix q assume q: "q \<noteq> 0" "sy_pc s' q \<in> {Held, WaitSub}"
    show "sy_lock s' = q"
    proof (cases "q = p")
      case True
      then show ?thesis using q assms(4,6) by simp
    next
      case False
      then show ?thesis using q assms(4) other by simp
    qed
  next
    fix q r assume q: "q \<noteq> 0" "sy_pc s' q = ForceCas r"
    then have "q \<noteq> p" using assms(4,5) by auto
    then have "sy_pc s q = ForceCas r" using q(2) assms(4) by simp
    then have "sy_pc s r = Dead" using assms(1) q(1) unfolding exclusive_def by blast
    moreover from this have "r \<noteq> p" using assms(3) by auto
    ultimately show "sy_pc s' r = Dead" using assms(4) by simp
  qed
qed

text \<open>Every access other than those of the unlocking operations, as seen by the invariant.\<close>

lemma go_effect:
  assumes "go cfg p (sy_pc s p) s = Some s'" "sy_pc s p \<noteq> UnlockCas" "\<forall>q. sy_pc s p \<noteq> ForceCas q"
  shows "sy_pc s p \<noteq> Dead \<and> sy_pc s' = (sy_pc s)(p := sy_pc s' p) \<and> (\<forall>q. sy_pc s' p \<noteq> ForceCas q)
    \<and> (sy_pc s' p \<in> {Held, WaitSub} \<longrightarrow> sy_lock s' = p)
    \<and> (sy_lock s' = sy_lock s \<or> sy_lock s = 0)"
  using assms by (cases "sy_pc s p") (auto simp: lock_ops Let_def split: if_splits)

lemma go_exclusive:
  assumes "exclusive s" "p \<noteq> 0" "go cfg p (sy_pc s p) s = Some s'"
  shows "exclusive s'"
proof (cases "sy_pc s p = UnlockCas \<or> (\<exists>q. sy_pc s p = ForceCas q)")
  case True
  then obtain q where q: "s' = free_lock p q s" "q = p \<or> sy_pc s q = Dead" "sy_pc s p \<noteq> Dead"
  proof (cases "sy_pc s p = UnlockCas")
    case False
    with True obtain r where r: "sy_pc s p = ForceCas r" by blast
    then have "sy_pc s r = Dead" using assms(1,2) unfolding exclusive_def by blast
    then show ?thesis using that [of r] r assms(3) by simp
  next
    case True
    then show ?thesis using that [of p] assms(3) by auto
  qed
  define c where "c = (if sy_lock s = q then WakeTest else Idle)"
  have s': "sy_pc s' = (sy_pc s)(p := c)" "sy_lock s' = (if sy_lock s = q then 0 else sy_lock s)"
    by (auto simp: q(1) lock_ops c_def)
  show ?thesis
    by (rule exclusiveI [OF assms(1,2) q(3) s'(1)]) (use q(2) s'(2) in \<open>auto simp: c_def\<close>)
next
  case False
  then show ?thesis
    using go_effect [OF assms(3)] exclusiveI [OF assms(1,2), of s' "sy_pc s' p"] by blast
qed

lemma call_exclusive:
  assumes "exclusive s" "p \<noteq> 0" "sy_pc s p \<noteq> Dead" "sy_pc s' = (sy_pc s)(p := c)" "\<forall>q. c \<noteq> ForceCas q"
    "c \<notin> {Held, WaitSub}" "sy_lock s' = sy_lock s"
  shows "exclusive s'"
  by (rule exclusiveI [OF assms(1-5)]) (use assms(6,7) in auto)

lemma act_effect:
  assumes "act cfg p a s = Some s'" "a \<noteq> Go" "a \<noteq> Sem_eintr" "\<forall>q. a \<noteq> Call_force_unlock q"
  shows "sy_pc s p \<noteq> Dead \<and> sy_pc s' = (sy_pc s)(p := sy_pc s' p) \<and> (\<forall>q. sy_pc s' p \<noteq> ForceCas q)
    \<and> sy_pc s' p \<notin> {Held, WaitSub} \<and> sy_lock s' = sy_lock s"
  using assms by (cases a) (auto simp: goto_def split: if_splits)

lemma act_exclusive:
  assumes "exclusive s" "p \<noteq> 0" "act cfg p a s = Some s'" "\<forall>q. a = Call_force_unlock q \<longrightarrow> sy_pc s q = Dead"
  shows "exclusive s'"
proof (cases a)
  case Go
  then show ?thesis using go_exclusive [OF assms(1,2)] assms(3) by simp
next
  case (Call_force_unlock q)
  then have s': "s' = goto p (ForceCas q) s" "sy_pc s p = Idle" "sy_pc s q = Dead"
    using assms(3,4) by (auto split: if_splits)
  have pc: "sy_pc s' x = (if x = p then ForceCas q else sy_pc s x)" for x by (simp add: s'(1) goto_def)
  have lk: "sy_lock s' = sy_lock s" by (simp add: s'(1) goto_def)
  show ?thesis
    unfolding exclusive_def
  proof (intro conjI allI impI)
    fix x assume "x \<noteq> 0" "sy_pc s' x \<in> {Held, WaitSub}"
    then have "sy_pc s x \<in> {Held, WaitSub}" by (simp add: pc split: if_splits)
    with \<open>x \<noteq> 0\<close> show "sy_lock s' = x" using assms(1) lk unfolding exclusive_def by metis
  next
    fix x r assume x: "x \<noteq> 0" "sy_pc s' x = ForceCas r"
    have "sy_pc s r = Dead"
    proof (cases "x = p")
      case True
      then have "r = q" using x(2) pc by simp
      then show ?thesis using s' by simp
    next
      case False
      then show ?thesis using x pc assms(1) unfolding exclusive_def by (metis (no_types))
    qed
    moreover from this have "r \<noteq> p" using s'(2) by auto
    ultimately show "sy_pc s' r = Dead" using pc by simp
  qed
next
  case Sem_eintr
  then have "s' = s" using assms(3) by (simp split: if_splits)
  with assms(1) show ?thesis by simp
qed (use act_effect [OF assms(3)] call_exclusive [OF assms(1,2), of s' "sy_pc s' p"] in blast)+

lemma init_exclusive: "exclusive shmtx_init"
  by (simp add: exclusive_def shmtx_init_def)

lemma orderly_exclusive: "orderly cfg s \<Longrightarrow> exclusive s"
  by (induction rule: orderly.induct) (auto intro: init_exclusive act_exclusive)

text \<open>Inside \<^verbatim>\<open>ngx_shmtx_lock\<close>.\<close>

fun locking :: "pc \<Rightarrow> bool" where
  "locking LockRead = True" | "locking LockCas = True" | "locking SpinStart = True"
| "locking (SpinTest n) = True" | "locking (SpinPause n i) = True" | "locking (SpinRead n) = True"
| "locking (SpinCas n) = True" | "locking Slow = True" | "locking WaitAdd = True"
| "locking WaitRead = True" | "locking WaitCas = True" | "locking WaitSub = True"
| "locking SemWait = True" | "locking Yield = True" | "locking _ = False"

text \<open>
  The lock word is 0 or names its owner: a process that is inside or about to leave, that has got
  the lock within \<^verbatim>\<open>ngx_shmtx_lock\<close> without leaving it, or that has died.
\<close>

definition owned_lock :: "shmtx_sys \<Rightarrow> bool" where
  "owned_lock s \<longleftrightarrow> sy_lock s = 0 \<or> sy_pc s (sy_lock s) \<in> {Held, UnlockCas, Dead} \<or> locking (sy_pc s (sy_lock s))"

lemma act_owned:
  assumes "owned_lock s" "act cfg p a s = Some s'"
  shows "owned_lock s'"
proof (cases a)
  case Go
  then have "go cfg p (sy_pc s p) s = Some s'" using assms(2) by simp
  then show ?thesis using assms(1)
    by (cases "sy_pc s p") (auto simp: owned_lock_def lock_ops Let_def split: if_splits)
qed (use assms in \<open>auto simp: owned_lock_def goto_def split: if_splits\<close>)

lemma orderly_owned: "orderly cfg s \<Longrightarrow> owned_lock s"
proof (induction rule: orderly.induct)
  case orderly_init
  show ?case by (simp add: owned_lock_def shmtx_init_def)
next
  case (orderly_step s p a s')
  then show ?case using act_owned by blast
qed

subsection \<open>Spinning\<close>

text \<open>While the lock is taken, a process that spins alone leaves the spin loop.\<close>

lemma goto_simps [simp]:
  "sy_pc (goto p c s) p = c" "sy_lock (goto p c s) = sy_lock s" "sy_wait (goto p c s) = sy_wait s"
  "sy_sem (goto p c s) = sy_sem s" "goto p c (goto p d s) = goto p c s" "q \<noteq> p \<Longrightarrow> sy_pc (goto p c s) q = sy_pc s q"
  by (simp_all add: goto_def)

abbreviation alone :: "u64 \<Rightarrow> nat \<Rightarrow> (u64 \<times> action) list" where
  "alone p k \<equiv> replicate k (p, Go)"

lemma alone_step:
  assumes "p \<noteq> 0" "act cfg p Go s = Some s1" "runs cfg s1 (alone p k) s2"
  shows "\<exists>k. runs cfg s (alone p k) s2"
  by (rule exI [of _ "Suc k"]) (use assms in \<open>auto intro: runs_step\<close>)

lemma alone_append:
  assumes "runs cfg s (alone p j) s1" "runs cfg s1 (alone p k) s2"
  shows "\<exists>k. runs cfg s (alone p k) s2"
  by (rule exI [of _ "j + k"]) (use runs_append [OF assms] in \<open>simp add: replicate_add\<close>)

lemma pause_out: "p \<noteq> 0 \<Longrightarrow> sy_pc s p = SpinPause n i \<Longrightarrow> \<exists>k. runs cfg s (alone p k) (goto p (SpinRead n) s)"
proof (induction "unat n - unat i" arbitrary: i s)
  case 0
  then have "\<not> i < n" by (simp add: word_less_nat_alt)
  with 0 have "act cfg p Go s = Some (goto p (SpinRead n) s)" by simp
  then show ?case by (rule alone_step [OF 0(2), of _ _ _ 0]) simp
next
  case (Suc m)
  then have lt: "i < n" by (simp add: word_less_nat_alt)
  have "unat (i + 1) = unat i + 1" by (rule unat_plus_1 [OF lt])
  then have m: "m = unat n - unat (i + 1)" using Suc.hyps(2) by arith
  obtain k where "runs cfg (goto p (SpinPause n (i + 1)) s) (alone p k) (goto p (SpinRead n) s)"
    using Suc.hyps(1) [of "i + 1" "goto p (SpinPause n (i + 1)) s"] m Suc.prems(1) by auto
  moreover have "act cfg p Go s = Some (goto p (SpinPause n (i + 1)) s)" using Suc.prems lt by simp
  ultimately show ?case by (blast intro: alone_step [OF Suc.prems(1)])
qed

lemma spin_out:
  assumes "p \<noteq> 0" "sy_lock s \<noteq> 0" "unat (cf_spin cfg) \<le> 2 ^ 63" "sy_pc s p = SpinTest n" "n \<noteq> 0"
  shows "\<exists>k. runs cfg s (alone p k) (goto p Slow s)"
  using assms(2,4,5)
proof (induction "unat (cf_spin cfg) - unat n" arbitrary: n s rule: less_induct)
  case less
  show ?case
  proof (cases "n < cf_spin cfg")
    case False
    then have "act cfg p Go s = Some (goto p Slow s)" using less.prems by simp
    then show ?thesis by (rule alone_step [OF assms(1), of _ _ _ 0]) simp
  next
    case True
    then have n: "unat n < unat (cf_spin cfg)" by (simp add: word_less_nat_alt)
    have n0: "unat n \<noteq> 0" using less.prems(3) by (simp add: unat_eq_zero)
    have dbl: "unat (push_bit 1 n) = 2 * unat n"
      using n assms(3) by (simp add: push_bit_eq_mult unat_word_ariths)
    let ?s1 = "goto p (SpinPause n 0) s"
    let ?s2 = "goto p (SpinRead n) s"
    let ?s3 = "goto p (SpinTest (push_bit 1 n)) s"
    have s1: "act cfg p Go s = Some ?s1" using less.prems(2) True by simp
    obtain j where j: "runs cfg ?s1 (alone p j) ?s2" using pause_out [OF assms(1), of ?s1 n 0] by auto
    have s3: "act cfg p Go ?s2 = Some ?s3" using less.prems(1) by (simp add: test_lock_def)
    have "push_bit 1 n \<noteq> 0" using dbl n0 by (metis mult_eq_0_iff unat_0 zero_neq_numeral)
    moreover have "unat (cf_spin cfg) - unat (push_bit 1 n) < unat (cf_spin cfg) - unat n"
      using n n0 dbl by simp
    ultimately obtain k where "runs cfg ?s3 (alone p k) (goto p Slow s)"
      using less.hyps [of "push_bit 1 n" ?s3] less.prems(1) by auto
    then obtain k' where "runs cfg ?s2 (alone p k') (goto p Slow s)"
      using alone_step [OF assms(1) s3] by blast
    then obtain k'' where "runs cfg ?s1 (alone p k'') (goto p Slow s)"
      using alone_append [OF j] by blast
    then show ?thesis by (rule alone_step [OF assms(1) s1])
  qed
qed

lemma spin_start_out:
  assumes "p \<noteq> 0" "sy_lock s \<noteq> 0" "unat (cf_spin cfg) \<le> 2 ^ 63" "sy_pc s p = SpinStart"
  shows "\<exists>k. runs cfg s (alone p k) (goto p Slow s)"
proof (cases "cf_ncpu cfg > 1")
  case True
  then have "act cfg p Go s = Some (goto p (SpinTest 1) s)" using assms(4) by simp
  moreover obtain k where "runs cfg (goto p (SpinTest 1) s) (alone p k) (goto p Slow s)"
    using spin_out [OF assms(1) _ assms(3), of "goto p (SpinTest 1) s" 1] assms(2) by auto
  ultimately show ?thesis by (rule alone_step [OF assms(1)])
next
  case False
  then have "act cfg p Go s = Some (goto p Slow s)" using assms(4) by simp
  then show ?thesis by (rule alone_step [OF assms(1), of _ _ _ 0]) simp
qed

text \<open>
  Beyond \<open>2 ^ 63\<close> the doubling of \<^verbatim>\<open>n\<close> wraps to 0 before it reaches \<^verbatim>\<open>mtx->spin\<close>.
\<close>

lemma power_2_le: "(2 :: u64) ^ k \<le> 2 ^ 63"
proof (cases "k < 64")
  case True
  then have lt: "(2 :: nat) ^ k < 2 ^ 64" by (intro power_strict_increasing) auto
  have "unat (of_nat (2 ^ k) :: u64) = 2 ^ k" using lt by (rule unat_of_nat_64)
  then have "unat ((2 :: u64) ^ k) = 2 ^ k" by simp
  moreover have "(2 :: nat) ^ k \<le> 2 ^ 63" using True by (intro power_increasing) auto
  ultimately show ?thesis by (simp add: word_le_nat_alt)
next
  case False
  then have "(2 :: u64) ^ k = 0" by (simp add: exp_eq_zero_iff)
  then show ?thesis by (simp only: word_zero_le)
qed

definition spinning :: "u64 \<Rightarrow> shmtx_sys \<Rightarrow> bool" where
  "spinning p s \<longleftrightarrow> sy_lock s \<noteq> 0 \<and> (sy_pc s p = SpinStart \<or>
     (\<exists>k. sy_pc s p \<in> {SpinTest (2 ^ k), SpinRead (2 ^ k)} \<union> range (SpinPause (2 ^ k))))"

lemma go_spinning:
  assumes "spinning p s" "act cfg p Go s = Some s'" "cf_ncpu cfg > 1" "2 ^ 63 < cf_spin cfg"
  shows "spinning p s'"
proof -
  have below: "(2 :: u64) ^ k < cf_spin cfg" for k
    using power_2_le assms(4) by (rule le_less_trans)
  have twice: "push_bit 1 ((2 :: u64) ^ k) = 2 ^ Suc k" for k
    by (simp add: push_bit_eq_mult)
  have one: "SpinTest 1 = SpinTest ((2 :: u64) ^ 0)" by simp
  have l: "sy_lock s \<noteq> 0" using assms(1) by (simp add: spinning_def)
  consider "sy_pc s p = SpinStart" | k where "sy_pc s p = SpinTest (2 ^ k)" | k where "sy_pc s p = SpinRead (2 ^ k)"
    | k i where "sy_pc s p = SpinPause (2 ^ k) i"
    using assms(1) unfolding spinning_def by auto
  then show ?thesis
  proof cases
    case 1
    then have "s' = goto p (SpinTest (2 ^ 0)) s" using assms(2,3) by simp
    then show ?thesis using l unfolding spinning_def by (metis UnCI goto_simps(1,2) insertCI)
  next
    case (2 k)
    then have "s' = goto p (SpinPause (2 ^ k) 0) s" using assms(2) below by simp
    then show ?thesis using l unfolding spinning_def by (metis UnCI goto_simps(1,2) rangeI)
  next
    case (3 k)
    then have "s' = goto p (SpinTest (2 ^ Suc k)) s" using assms(2) l twice by (simp add: test_lock_def mult.commute)
    then show ?thesis using l unfolding spinning_def by (metis UnCI goto_simps(1,2) insertCI)
  next
    case (4 k i)
    then have "s' = goto p (if i < 2 ^ k then SpinPause (2 ^ k) (i + 1) else SpinRead (2 ^ k)) s"
      using assms(2) by simp
    then show ?thesis using l unfolding spinning_def
      by (cases "i < 2 ^ k") (simp_all, metis UnCI insertCI rangeI, metis UnCI insertCI)
  qed
qed

lemma spinning_for_ever:
  assumes "spinning p s" "runs cfg s (alone p k) s'" "cf_ncpu cfg > 1" "2 ^ 63 < cf_spin cfg"
  shows "spinning p s'"
  using assms(2,1)
  by (rule runs_invariant) (use go_spinning assms(3,4) in \<open>auto dest!: split_list\<close>)

subsection \<open>The lost lock\<close>

text \<open>
  \<open>p\<close> owns the lock word but sleeps on the semaphore, and no process is on its way to post it.
\<close>

definition lost :: "u64 \<Rightarrow> shmtx_sys \<Rightarrow> bool" where
  "lost p s \<longleftrightarrow> p \<noteq> 0 \<and> sy_lock s = p \<and> sy_pc s p = SemWait \<and> sy_sem s = 0
     \<and> (\<forall>q. q \<noteq> 0 \<longrightarrow> sy_pc s q \<notin> {Held, WaitSub, WakeTest, WakeRead, WakePost}
          \<and> (\<forall>w. sy_pc s q \<noteq> WakeCas w) \<and> sy_pc s q \<noteq> ForceCas p)"

lemma act_lost:
  assumes "lost p s" "q \<noteq> 0" "act cfg q a s = Some s'" "(q, a) \<noteq> (p, Sem_error)" "(q, a) \<noteq> (p, Crash)" "a \<noteq> Call_force_unlock p"
  shows "lost p s'"
proof (cases a)
  case Go
  then have g: "go cfg q (sy_pc s q) s = Some s'" using assms(3) by simp
  have "q \<noteq> p" using g assms(1) by (auto simp: lost_def)
  then show ?thesis
    using assms(1,2) g by (cases "sy_pc s q") (auto simp: lost_def lock_ops Let_def split: if_splits)
qed (use assms in \<open>auto simp: lost_def goto_def split: if_splits\<close>)

lemma runs_lost:
  assumes "runs cfg s as s'" "lost p s" "(p, Sem_error) \<notin> set as" "(p, Crash) \<notin> set as"
    "\<forall>r. (r, Call_force_unlock p) \<notin> set as"
  shows "lost p s'"
  using assms(1,2) by (rule runs_invariant) (use assms(3-5) in \<open>auto intro: act_lost\<close>)

subsection \<open>Releasing the lock\<close>

text \<open>What \<^verbatim>\<open>ngx_shmtx_wakeup\<close> leaves behind when nobody interferes.\<close>

definition woken :: "shmtx_cfg \<Rightarrow> shmtx_sys \<Rightarrow> shmtx_sys" where
  "woken cfg s = (if cf_semaphore cfg \<noteq> 0 \<and> 0 < sint (sy_wait s)
     then s\<lparr>sy_wait := sy_wait s - 1,
       sy_sem := (if sy_sem s < SEM_VALUE_MAX then sy_sem s + 1 else sy_sem s)\<rparr> else s)"

lemma wake_runs:
  assumes "p \<noteq> 0" "sy_pc s p = Idle"
  shows "\<exists>k. runs cfg (goto p WakeTest s) (alone p k) (woken cfg s)"
proof -
  have idle: "(sy_pc s)(p := Idle) = sy_pc s" using assms(2) by auto
  consider "cf_semaphore cfg = 0" | "cf_semaphore cfg \<noteq> 0" "\<not> 0 < sint (sy_wait s)"
    | "cf_semaphore cfg \<noteq> 0" "0 < sint (sy_wait s)" by blast
  then show ?thesis
  proof cases
    case 1
    then have "runs cfg (goto p WakeTest s) (alone p 1) s"
      using assms by (simp add: runs_Cons lock_ops idle)
    then show ?thesis using 1 by (intro exI [of _ 1]) (simp add: woken_def)
  next
    case 2
    then have "runs cfg (goto p WakeTest s) (alone p 2) s"
      using assms by (simp add: runs_Cons lock_ops numeral_2_eq_2 idle)
    then show ?thesis using 2 by (auto simp: woken_def)
  next
    case 3
    then have "runs cfg (goto p WakeTest s) (alone p 4) (s\<lparr>sy_wait := sy_wait s - 1,
        sy_sem := (if sy_sem s < SEM_VALUE_MAX then sy_sem s + 1 else sy_sem s)\<rparr>)"
      using assms by (simp add: runs_Cons lock_ops eval_nat_numeral idle)
    then show ?thesis using 3 by (auto simp: woken_def)
  qed
qed

lemma release_runs:
  assumes "p \<noteq> 0" "sy_pc s p = Idle" "runs cfg s0 [(p, a), (p, Go)] (goto p WakeTest s)"
  shows "\<exists>k. runs cfg s0 ((p, a) # alone p k) (woken cfg s)"
proof -
  obtain k where "runs cfg (goto p WakeTest s) (alone p k) (woken cfg s)" using wake_runs [OF assms(1,2)] by blast
  from runs_append [OF assms(3) this] show ?thesis by (intro exI [of _ "Suc k"]) simp
qed

subsection \<open>Properties\<close>

text \<open>
  C5: mutual exclusion: in every state that processes can reach by any interleaving of lock,
  trylock, unlock (also by processes that do not hold the lock) and forced unlock, with interrupted and failing semaphores
  and crashes, as long as a forced unlock is called for a dead process only, at
  most one process is inside, the lock word is its identifier, and the lock word is 0 or else names the process
  that has got the lock: one that is inside or about to leave, that is still within \<open>ngx_shmtx_lock\<close>, or that has died.
\<close>

theorem shmtx_mutual_exclusion:
  assumes "orderly cfg s"
  shows "(\<forall>p q. p \<noteq> 0 \<and> q \<noteq> 0 \<and> sy_pc s p = Held \<and> sy_pc s q = Held \<longrightarrow> p = q)
    \<and> (\<forall>p. p \<noteq> 0 \<and> sy_pc s p = Held \<longrightarrow> sy_lock s = p)
    \<and> (sy_lock s \<noteq> 0 \<longrightarrow> sy_pc s (sy_lock s) \<in> {Held, UnlockCas, Dead} \<or> locking (sy_pc s (sy_lock s)))"
proof -
  have held: "sy_lock s = p" if "p \<noteq> 0" "sy_pc s p = Held" for p
    using that orderly_exclusive [OF assms] unfolding exclusive_def by blast
  then show ?thesis using orderly_owned [OF assms] unfolding owned_lock_def by metis
qed

text \<open>Without that restriction a forced unlock lets a second process in.\<close>

theorem shmtx_forced_unlock_unsafe:
  assumes "p \<noteq> 0" "q \<noteq> 0" "r \<noteq> 0" "p \<noteq> q" "p \<noteq> r" "q \<noteq> r"
  shows "\<exists>s. runs cfg shmtx_init [(p, Call_lock), (p, Go), (p, Go), (q, Call_force_unlock p), (q, Go),
      (r, Call_lock), (r, Go), (r, Go)] s \<and> sy_pc s p = Held \<and> sy_pc s r = Held"
  using assms by (simp add: runs_Cons shmtx_init_def lock_ops)

abbreviation demo_cfg :: shmtx_cfg where
  "demo_cfg \<equiv> \<lparr>cf_ncpu = 4, cf_spin = 2048, cf_semaphore = 1\<rparr>"

theorem shmtx_forced_unlock_unsafe_witness:
  "\<exists>as s. runs demo_cfg shmtx_init as s \<and> sy_pc s 7 = Held \<and> sy_pc s 9 = Held"
  using shmtx_forced_unlock_unsafe [of 7 8 9 demo_cfg] by fastforce

theorem shmtx_mutual_exclusion_witness:
  "\<exists>s. orderly demo_cfg s \<and> sy_pc s 7 = Held \<and> sy_lock s = 7 \<and> (\<forall>p. p \<noteq> 0 \<and> sy_pc s p = Held \<longrightarrow> p = 7)"
proof -
  let ?s = "goto 7 Held (shmtx_init\<lparr>sy_lock := 7\<rparr>)"
  have "orderly demo_cfg (goto 7 LockRead shmtx_init)"
    by (rule orderly_step [where p = 7 and a = Call_lock, OF orderly_init]) (simp_all add: shmtx_init_def)
  then have "orderly demo_cfg (goto 7 LockCas shmtx_init)"
    by (rule orderly_step [where p = 7 and a = Go]) (simp_all add: shmtx_init_def lock_ops)
  then have "orderly demo_cfg ?s"
    by (rule orderly_step [where p = 7 and a = Go]) (simp_all add: shmtx_init_def lock_ops)
  moreover have "sy_pc ?s 7 = Held" "sy_lock ?s = 7" by simp_all
  ultimately show ?thesis using shmtx_mutual_exclusion [of demo_cfg ?s] by metis
qed

text \<open>
  C26: on a free mutex \<open>ngx_shmtx_lock\<close> takes the lock word at once. \<open>ngx_shmtx_unlock\<close> by the
  holder, and equally \<open>ngx_shmtx_force_unlock\<close> for the process that the lock word names, frees
  it and, when the semaphore is in use and processes wait, takes one off the count of waiters and
  posts the semaphore once (unless that is at its maximum); nothing else changes. When that post fails, the count is one
  less all the same and nobody is woken. Unlocking by a process that the lock word does not name, or forcing the lock of one,
  changes nothing.
\<close>

theorem shmtx_lock_unlock:
  assumes "p \<noteq> 0" "sy_lock s = 0" "sy_pc s p = Idle"
  shows "runs cfg s [(p, Call_lock), (p, Go), (p, Go)] (goto p Held (s\<lparr>sy_lock := p\<rparr>))
    \<and> (\<exists>k. runs cfg (goto p Held (s\<lparr>sy_lock := p\<rparr>)) ((p, Call_unlock) # alone p k) (woken cfg s))
    \<and> (\<forall>q l. \<exists>k. runs cfg (s\<lparr>sy_lock := l\<rparr>) ((p, Call_force_unlock q) # alone p k)
           (if l = q then woken cfg s else s\<lparr>sy_lock := l\<rparr>))
    \<and> (\<forall>l. l \<noteq> p \<longrightarrow> runs cfg (s\<lparr>sy_lock := l\<rparr>) [(p, Call_unlock), (p, Go)] (s\<lparr>sy_lock := l\<rparr>))
    \<and> (cf_semaphore cfg \<noteq> 0 \<and> 0 < sint (sy_wait s) \<longrightarrow>
        runs cfg (goto p Held (s\<lparr>sy_lock := p\<rparr>)) ((p, Call_unlock) # alone p 4 @ [(p, Post_error)])
          (s\<lparr>sy_wait := sy_wait s - 1\<rparr>))"
proof (intro conjI allI impI)
  have s: "s\<lparr>sy_lock := 0\<rparr> = s" using assms(2) by (cases s) simp
  have idle: "(sy_pc s)(p := Idle) = sy_pc s" using assms(3) by auto
  show "runs cfg s [(p, Call_lock), (p, Go), (p, Go)] (goto p Held (s\<lparr>sy_lock := p\<rparr>))"
    using assms by (simp add: runs_Cons lock_ops)
  have "runs cfg (goto p Held (s\<lparr>sy_lock := p\<rparr>)) [(p, Call_unlock), (p, Go)] (goto p WakeTest s)"
    using assms s by (simp add: runs_Cons lock_ops)
  then show "\<exists>k. runs cfg (goto p Held (s\<lparr>sy_lock := p\<rparr>)) ((p, Call_unlock) # alone p k) (woken cfg s)"
    by (rule release_runs [OF assms(1,3)])
  show "\<exists>k. runs cfg (s\<lparr>sy_lock := l\<rparr>) ((p, Call_force_unlock q) # alone p k)
      (if l = q then woken cfg s else s\<lparr>sy_lock := l\<rparr>)" for q l
  proof (cases "l = q")
    case True
    then have "runs cfg (s\<lparr>sy_lock := l\<rparr>) [(p, Call_force_unlock q), (p, Go)] (goto p WakeTest s)"
      using assms s by (simp add: runs_Cons lock_ops)
    then show ?thesis using True release_runs [OF assms(1,3)] by simp
  next
    case False
    then have "runs cfg (s\<lparr>sy_lock := l\<rparr>) ((p, Call_force_unlock q) # alone p 1) (s\<lparr>sy_lock := l\<rparr>)"
      using assms idle by (simp add: runs_Cons lock_ops)
    then show ?thesis using False by (intro exI [of _ 1]) simp
  qed
  show "runs cfg (s\<lparr>sy_lock := l\<rparr>) [(p, Call_unlock), (p, Go)] (s\<lparr>sy_lock := l\<rparr>)" if "l \<noteq> p" for l
    using that assms idle by (simp add: runs_Cons lock_ops)
  show "runs cfg (goto p Held (s\<lparr>sy_lock := p\<rparr>)) ((p, Call_unlock) # alone p 4 @ [(p, Post_error)])
      (s\<lparr>sy_wait := sy_wait s - 1\<rparr>)" if "cf_semaphore cfg \<noteq> 0 \<and> 0 < sint (sy_wait s)"
    using that assms idle s by (simp add: runs_Cons lock_ops eval_nat_numeral)
qed

theorem shmtx_lock_unlock_witness:
  "\<exists>s k l. sy_pc s 9 = Dead \<and> sy_lock s = 0 \<and> sy_wait s = 2
   \<and> runs demo_cfg s [(7, Call_lock), (7, Go), (7, Go)] (goto 7 Held (s\<lparr>sy_lock := 7\<rparr>))
   \<and> runs demo_cfg (goto 7 Held (s\<lparr>sy_lock := 7\<rparr>)) ((7, Call_unlock) # alone 7 k) (s\<lparr>sy_wait := 1, sy_sem := 1\<rparr>)
   \<and> runs demo_cfg (s\<lparr>sy_lock := 9\<rparr>) ((7, Call_force_unlock 9) # alone 7 l) (s\<lparr>sy_wait := 1, sy_sem := 1\<rparr>)
   \<and> runs demo_cfg (goto 7 Held (s\<lparr>sy_lock := 7\<rparr>)) ((7, Call_unlock) # alone 7 4 @ [(7, Post_error)]) (s\<lparr>sy_wait := 1\<rparr>)"
proof -
  let ?s = "goto 9 Dead (shmtx_init\<lparr>sy_wait := 2\<rparr>)"
  have w: "woken demo_cfg ?s = ?s\<lparr>sy_wait := 1, sy_sem := 1\<rparr>" "sy_wait ?s - 1 = 1"
    by (simp_all add: woken_def goto_def shmtx_init_def SEM_VALUE_MAX_def)
  have s: "(7 :: u64) \<noteq> 0" "sy_lock ?s = 0" "sy_pc ?s 7 = Idle" "sy_pc ?s 9 = Dead" "sy_wait ?s = 2"
    by (simp_all add: shmtx_init_def)
  note t = shmtx_lock_unlock [OF s(1-3), of demo_cfg, unfolded w]
  have "\<exists>l. runs demo_cfg (?s\<lparr>sy_lock := 9\<rparr>) ((7, Call_force_unlock 9) # alone 7 l) (?s\<lparr>sy_wait := 1, sy_sem := 1\<rparr>)"
    using t [THEN conjunct2, THEN conjunct2, THEN conjunct1, rule_format, of 9 9] by (simp only: if_True simp_thms)
  moreover have "cf_semaphore demo_cfg \<noteq> 0 \<and> 0 < sint (sy_wait ?s)" by (simp add: s(5))
  ultimately show ?thesis using t s by blast
qed

text \<open>
  C32: termination of the spin loop: on a machine with more than one processor, a process that
  finds the lock taken, and that no other process disturbs, gets out of the spin loop after
  finitely many accesses exactly when \<^verbatim>\<open>mtx->spin\<close> is at most \<open>2 ^ 63\<close>; beyond that the doubled
  counter wraps to 0 and the process never reaches the semaphore or the yield.
\<close>

theorem shmtx_spin_ends:
  assumes "p \<noteq> 0" "sy_lock s \<noteq> 0" "sy_pc s p = SpinStart" "cf_ncpu cfg > 1"
  shows "(\<exists>k. runs cfg s (alone p k) (goto p Slow s)) \<longleftrightarrow> unat (cf_spin cfg) \<le> 2 ^ 63"
proof
  assume "\<exists>k. runs cfg s (alone p k) (goto p Slow s)"
  then obtain k where k: "runs cfg s (alone p k) (goto p Slow s)" by blast
  show "unat (cf_spin cfg) \<le> 2 ^ 63"
  proof (rule ccontr)
    assume "\<not> unat (cf_spin cfg) \<le> 2 ^ 63"
    then have big: "2 ^ 63 < cf_spin cfg" by (simp add: word_less_nat_alt)
    have "spinning p s" using assms(2,3) by (simp add: spinning_def)
    then have "spinning p (goto p Slow s)" using k assms(4) big by (rule spinning_for_ever)
    then show False by (simp add: spinning_def image_iff)
  qed
qed (rule spin_start_out [OF assms(1,2) _ assms(3)])

theorem shmtx_spin_ends_witness:
  "\<exists>k. runs demo_cfg (goto 9 SpinStart (shmtx_init\<lparr>sy_lock := 7\<rparr>)) (alone 9 k)
     (goto 9 Slow (shmtx_init\<lparr>sy_lock := 7\<rparr>))"
  using shmtx_spin_ends [of 9 "goto 9 SpinStart (shmtx_init\<lparr>sy_lock := 7\<rparr>)" demo_cfg] by simp

text \<open>
  C31: a process that gets the lock in the semaphore branch of \<open>ngx_shmtx_lock\<close> does not return
  but goes on to \<^verbatim>\<open>sem_wait\<close>. Two processes that lock and unlock are enough to reach, without any
  error, a state where the lock word names the sleeping process and from where, whatever any
  processes do, nobody is ever inside again, unless the \<^verbatim>\<open>sem_wait\<close> of the sleeper fails, it
  dies or its lock is forced.
\<close>

theorem shmtx_self_deadlock:
  assumes "cf_semaphore cfg \<noteq> 0" "unat (cf_spin cfg) \<le> 2 ^ 63" "p \<noteq> 0" "q \<noteq> 0" "p \<noteq> q"
  shows "\<exists>as s. runs cfg shmtx_init as s \<and> snd ` set as \<subseteq> {Call_lock, Call_unlock, Go}
    \<and> sy_lock s = q \<and> sy_pc s q = SemWait
    \<and> (\<forall>bs s'. runs cfg s bs s' \<and> (q, Sem_error) \<notin> set bs \<and> (q, Crash) \<notin> set bs
         \<and> (\<forall>r. (r, Call_force_unlock q) \<notin> set bs) \<longrightarrow> (\<forall>r. r \<noteq> 0 \<longrightarrow> sy_pc s' r \<noteq> Held))"
proof -
  let ?held = "goto p Held (shmtx_init\<lparr>sy_lock := p\<rparr>)"
  let ?s1 = "goto q SpinStart ?held"
  let ?s2 = "goto q Slow ?held"
  let ?s = "goto q SemWait (goto p Idle (shmtx_init\<lparr>sy_lock := q\<rparr>))"
  let ?as = "[(p, Call_lock), (p, Go), (p, Go), (q, Call_lock), (q, Go)]"
  let ?bs = "[(q, Go), (p, Call_unlock), (p, Go), (p, Go), (p, Go), (q, Go), (q, Go), (q, Go), (q, Go)]"
  have "runs cfg shmtx_init ?as ?s1"
    using assms(3-5) by (simp add: runs_Cons lock_ops shmtx_init_def)
  moreover obtain k where "runs cfg ?s1 (alone q k) ?s2"
    using spin_start_out [OF assms(4) _ assms(2), of ?s1] assms(3) by auto
  moreover have "runs cfg ?s2 ?bs ?s"
    using assms by (simp add: runs_Cons lock_ops shmtx_init_def fun_upd_twist)
  ultimately have run: "runs cfg shmtx_init (?as @ alone q k @ ?bs) ?s"
    by (blast intro: runs_append)
  have lost: "lost q ?s" using assms(4,5) by (simp add: lost_def goto_def shmtx_init_def)
  show ?thesis
  proof (rule exI [of _ "?as @ alone q k @ ?bs"], rule exI [of _ ?s], intro conjI allI impI)
    fix bs s' and r :: u64 assume b: "runs cfg ?s bs s' \<and> (q, Sem_error) \<notin> set bs \<and> (q, Crash) \<notin> set bs
      \<and> (\<forall>r. (r, Call_force_unlock q) \<notin> set bs)" "r \<noteq> (0 :: u64)"
    then have "lost q s'" using runs_lost [OF _ lost] by blast
    then show "sy_pc s' r \<noteq> Held" using b(2) by (auto simp: lost_def)
  qed (use run assms(5) in \<open>auto simp: shmtx_init_def\<close>)
qed

theorem shmtx_self_deadlock_witness:
  "\<exists>as s. runs demo_cfg shmtx_init as s \<and> sy_lock s = 9 \<and> sy_pc s 9 = SemWait
    \<and> \<not> (\<exists>bs s'. runs demo_cfg s bs s' \<and> set bs \<subseteq> {(7, Go), (7, Call_lock), (9, Go)} \<and> sy_pc s' 7 = Held)"
proof -
  have "\<exists>as s. runs demo_cfg shmtx_init as s \<and> snd ` set as \<subseteq> {Call_lock, Call_unlock, Go}
    \<and> sy_lock s = 9 \<and> sy_pc s 9 = SemWait
    \<and> (\<forall>bs s'. runs demo_cfg s bs s' \<and> (9, Sem_error) \<notin> set bs \<and> (9, Crash) \<notin> set bs
         \<and> (\<forall>r. (r, Call_force_unlock 9) \<notin> set bs) \<longrightarrow> (\<forall>r. r \<noteq> 0 \<longrightarrow> sy_pc s' r \<noteq> Held))"
    by (rule shmtx_self_deadlock [of demo_cfg 7 9]) simp_all
  then show ?thesis by fastforce
qed

end
