(* ===== verification/Ngx_Shmtx_Wait.thy ===== *)
theory Ngx_Shmtx_Wait
  imports Ngx_Shmtx
begin

text \<open>
  The sleepers of the shared mutex of \<^verbatim>\<open>src/core/ngx_shmtx.c\<close>: an invariant that keeps the count of
  waiters, the semaphore and the control points of all processes in step, and what it gives: no
  wakeup is lost between the test of the lock word in \<^verbatim>\<open>ngx_shmtx_lock\<close> and \<^verbatim>\<open>ngx_shmtx_wakeup\<close>.
  The invariants of the sleepers are about runs without crashes, forced unlocks and semaphore errors.
  Without the semaphore, a process that runs alone gets a free lock from any point of
  \<^verbatim>\<open>ngx_shmtx_lock\<close>. The steps are those of \<open>Ngx_Shmtx\<close>.
\<close>

subsection \<open>Counting processes\<close>

text \<open>How many processes are at one of the control points of \<open>A\<close>.\<close>

definition at_points :: "shmtx_sys \<Rightarrow> (pc \<Rightarrow> bool) \<Rightarrow> nat" where
  "at_points s A = card {p. A (sy_pc s p)}"

lemma at_points_upd:
  assumes "sy_pc s' = (sy_pc s)(p := c)"
  shows "at_points s' A + of_bool (A (sy_pc s p)) = at_points s A + of_bool (A c)"
proof -
  let ?R = "{q. q \<noteq> p \<and> A (sy_pc s q)}"
  have "{q. A (sy_pc s q)} = (if A (sy_pc s p) then insert p ?R else ?R)" by auto
  moreover have "{q. A (sy_pc s' q)} = (if A c then insert p ?R else ?R)" using assms by auto
  moreover have "p \<notin> ?R" by simp
  ultimately show ?thesis unfolding at_points_def by simp
qed

lemma at_points_pos: "A (sy_pc s p) \<Longrightarrow> 0 < at_points s A"
  unfolding at_points_def by (subst card_gt_0_iff) auto

lemma at_points_le:
  assumes "\<And>p. A (sy_pc s p) \<Longrightarrow> p \<in> P"
  shows "at_points s A \<le> card P"
  unfolding at_points_def by (rule card_mono) (use assms in auto)

fun waiting :: "pc \<Rightarrow> bool" where
  "waiting WaitRead = True" | "waiting WaitCas = True" | "waiting SemWait = True" | "waiting _ = False"

fun posting :: "pc \<Rightarrow> bool" where
  "posting WakePost = True" | "posting _ = False"

text \<open>Inside \<^verbatim>\<open>ngx_shmtx_wakeup\<close>.\<close>

fun waking :: "pc \<Rightarrow> bool" where
  "waking WakeTest = True" | "waking WakeRead = True" | "waking (WakeCas w) = True"
| "waking WakePost = True" | "waking _ = False"

definition awake :: "shmtx_sys \<Rightarrow> u64 \<Rightarrow> bool" where
  "awake s p \<longleftrightarrow> (locking (sy_pc s p) \<and> sy_pc s p \<noteq> SemWait) \<or> waking (sy_pc s p)"

text \<open>The lock word names a process that is still inside \<^verbatim>\<open>ngx_shmtx_lock\<close>.\<close>

definition self_blocked :: "shmtx_sys \<Rightarrow> bool" where
  "self_blocked s \<longleftrightarrow> sy_lock s \<noteq> 0 \<and> locking (sy_pc s (sy_lock s))"

definition accounted :: "u64 set \<Rightarrow> shmtx_sys \<Rightarrow> bool" where
  "accounted P s \<longleftrightarrow> unat (sy_wait s) + sy_sem s + at_points s posting = at_points s waiting
     \<and> (\<forall>p. sy_pc s p \<noteq> WakeCas 0) \<and> (\<forall>p. sy_pc s p \<noteq> Idle \<longrightarrow> p \<in> P)"

text \<open>
  No process dies, no lock is forced, no \<^verbatim>\<open>sem_wait\<close> fails otherwise than by a signal, and no \<^verbatim>\<open>sem_post\<close>
  fails for another reason than that the semaphore is at its maximum.
\<close>

fun calm_action :: "action \<Rightarrow> bool" where
  "calm_action Crash = False" | "calm_action Sem_error = False" | "calm_action Post_error = False"
| "calm_action (Call_force_unlock q) = False" | "calm_action _ = True"

definition undisturbed :: "(u64 \<times> action) list \<Rightarrow> bool" where
  "undisturbed as \<longleftrightarrow> (\<forall>(p, a) \<in> set as. calm_action a)"

definition no_sleep :: "shmtx_sys \<Rightarrow> bool" where
  "no_sleep s \<longleftrightarrow> (sy_lock s = 0 \<and> (\<exists>q. sy_pc s q = SemWait) \<longrightarrow> 0 < sy_sem s \<or> (\<exists>p. awake s p))"

definition wait_inv :: "u64 set \<Rightarrow> shmtx_sys \<Rightarrow> bool" where
  "wait_inv P s \<longleftrightarrow> exclusive s \<and> (\<forall>p. sy_pc s p \<noteq> Dead) \<and> (self_blocked s \<or> accounted P s \<and> no_sleep s)"

subsection \<open>The invariant\<close>

lemma act_upd: "act cfg p a s = Some s' \<Longrightarrow> sy_pc s' = (sy_pc s)(p := sy_pc s' p)"
proof (cases a)
  case Go
  then show "act cfg p a s = Some s' \<Longrightarrow> sy_pc s' = (sy_pc s)(p := sy_pc s' p)"
    by (cases "sy_pc s p") (auto simp: lock_ops Let_def split: if_splits)
qed (auto simp: goto_def split: if_splits)

lemma act_self_blocked:
  assumes "act cfg p a s = Some s'" "calm_action a" "p \<noteq> 0" "self_blocked s" "exclusive s" "\<forall>p. sy_pc s p \<noteq> Dead"
  shows "self_blocked s'"
proof (cases a)
  case Go
  have "\<forall>q. sy_pc s p \<noteq> ForceCas q" using assms(3,5,6) unfolding exclusive_def by blast
  moreover have "go cfg p (sy_pc s p) s = Some s'" using assms(1) Go by simp
  ultimately show ?thesis using assms(4)
    by (cases "sy_pc s p") (auto simp: self_blocked_def lock_ops Let_def split: if_splits)
qed (use assms in \<open>auto simp: self_blocked_def goto_def split: if_splits\<close>)

text \<open>What an access does to the count of waiters, the semaphore and the lock word.\<close>

lemma act_accounts:
  assumes "act cfg p a s = Some s'" "calm_action a" "p \<noteq> 0" "sy_pc s p \<noteq> WaitSub"
    "sy_pc s p \<noteq> WakeCas 0" "\<not> self_blocked s'" "sy_pc s p = WakePost \<longrightarrow> sy_sem s < SEM_VALUE_MAX"
  shows "sy_wait s' = sy_wait s \<and> sy_sem s' = sy_sem s \<and> waiting (sy_pc s' p) = waiting (sy_pc s p)
      \<and> posting (sy_pc s' p) = posting (sy_pc s p)
    \<or> sy_wait s' = sy_wait s + 1 \<and> sy_sem s' = sy_sem s \<and> waiting (sy_pc s' p) \<and> \<not> waiting (sy_pc s p)
      \<and> posting (sy_pc s' p) = posting (sy_pc s p)
    \<or> sy_wait s \<noteq> 0 \<and> sy_wait s' = sy_wait s - 1 \<and> sy_sem s' = sy_sem s \<and> waiting (sy_pc s' p) = waiting (sy_pc s p)
      \<and> posting (sy_pc s' p) \<and> \<not> posting (sy_pc s p)
    \<or> sy_wait s' = sy_wait s \<and> sy_sem s' = sy_sem s + 1 \<and> waiting (sy_pc s' p) = waiting (sy_pc s p)
      \<and> \<not> posting (sy_pc s' p) \<and> posting (sy_pc s p)
    \<or> sy_wait s' = sy_wait s \<and> sy_sem s = sy_sem s' + 1 \<and> \<not> waiting (sy_pc s' p) \<and> waiting (sy_pc s p)
      \<and> posting (sy_pc s' p) = posting (sy_pc s p)"
proof (cases a)
  case Go
  then have g: "go cfg p (sy_pc s p) s = Some s'" using assms(1) by simp
  show ?thesis
  proof (cases "sy_pc s p = WakePost")
    case True
    then have "s' = goto p Idle (s\<lparr>sy_sem := sy_sem s + 1\<rparr>)" using g assms(7) by simp
    then show ?thesis using True by simp
  next
    case False
    then show ?thesis using g assms(3-6)
      by (cases "sy_pc s p") (simp_all add: self_blocked_def lock_ops Let_def split: if_splits, clarsimp+)
  qed
next
  case Call_unlock
  then show ?thesis using assms(1) by (cases "sy_pc s p") (simp_all add: goto_def, clarsimp+)
qed (use assms(1,2) in \<open>auto simp: goto_def split: if_splits\<close>)

lemma accounted_small:
  assumes "accounted P s" "card P \<le> SEM_VALUE_MAX"
  shows "unat (sy_wait s) + sy_sem s + at_points s posting \<le> SEM_VALUE_MAX" "unat (sy_wait s) < 2 ^ 63"
    "sy_pc s p = WakePost \<Longrightarrow> sy_sem s < SEM_VALUE_MAX"
proof -
  have "at_points s waiting \<le> card P"
    by (rule at_points_le) (use assms(1) in \<open>force simp: accounted_def\<close>)
  then show *: "unat (sy_wait s) + sy_sem s + at_points s posting \<le> SEM_VALUE_MAX"
    using assms unfolding accounted_def by linarith
  then show "unat (sy_wait s) < 2 ^ 63" by (simp add: SEM_VALUE_MAX_def)
  show "sy_sem s < SEM_VALUE_MAX" if "sy_pc s p = WakePost"
    using * at_points_pos [of posting s p] that by simp
qed

lemma act_accounted:
  assumes "accounted P s" "p \<in> P" "p \<noteq> 0" "card P \<le> SEM_VALUE_MAX" "act cfg p a s = Some s'" "calm_action a"
    "sy_pc s p \<noteq> WaitSub" "\<not> self_blocked s'"
  shows "accounted P s'"
proof -
  note upd = act_upd [OF assms(5)]
  note counts = at_points_upd [OF upd, of waiting] at_points_upd [OF upd, of posting]
  have sum: "unat (sy_wait s) + sy_sem s + at_points s posting = at_points s waiting"
    using assms(1) by (simp add: accounted_def)
  have post: "sy_pc s p = WakePost \<longrightarrow> sy_sem s < SEM_VALUE_MAX" using accounted_small(3) [OF assms(1,4)] by blast
  have cas: "sy_pc s p \<noteq> WakeCas 0" using assms(1) by (simp add: accounted_def)
  have "unat (sy_wait s) < 2 ^ 63" using accounted_small(2) [OF assms(1,4)] .
  then have inc: "unat (sy_wait s + 1) = unat (sy_wait s) + 1" by (subst unat_plus_no_wrap) simp_all
  have "unat (sy_wait s') + sy_sem s' + at_points s' posting = at_points s' waiting"
    using act_accounts [OF assms(5,6,3,7) cas assms(8) post]
  proof (elim disjE conjE)
    assume w: "sy_wait s \<noteq> 0" "sy_wait s' = sy_wait s - 1" "sy_sem s' = sy_sem s"
      "waiting (sy_pc s' p) = waiting (sy_pc s p)" "posting (sy_pc s' p)" "\<not> posting (sy_pc s p)"
    then show ?thesis using counts sum unat_minus_1 [OF w(1)] w(1) unat_gt_0 [of "sy_wait s"] by simp
  qed (use counts sum inc in simp_all)
  moreover have "sy_pc s' p \<noteq> WakeCas 0"
    using assms(5) cas by (cases a; cases "sy_pc s p") (auto simp: lock_ops Let_def split: if_splits)
  ultimately show ?thesis
    using assms(1,2) upd unfolding accounted_def by (metis fun_upd_apply)
qed

text \<open>
  A process that is on its way to the lock or to wake another stays so, or takes the lock, or
  has posted the semaphore, or has seen that nobody waits.
\<close>

lemma act_sleeps:
  assumes "act cfg p a s = Some s'" "calm_action a" "p \<noteq> 0" "sy_pc s p \<noteq> WaitSub"
    "cf_semaphore cfg \<noteq> 0" "sy_lock s' = 0" "\<not> awake s' p"
  shows "sy_pc s p = WakePost \<and> 0 < sy_sem s'
    \<or> sy_pc s p = WakeRead \<and> sy_pc s' p = Idle \<and> sint (sy_wait s) \<le> 0 \<and> sy_sem s' = sy_sem s
    \<or> \<not> awake s p \<and> sy_sem s' = sy_sem s \<and> sy_lock s = 0 \<and> (sy_pc s' p = SemWait \<longrightarrow> sy_pc s p = SemWait)"
proof (cases a)
  case Go
  then have "go cfg p (sy_pc s p) s = Some s'" using assms(1) by simp
  then show ?thesis using assms(3-7)
    by (cases "sy_pc s p") (simp_all add: awake_def SEM_VALUE_MAX_def lock_ops Let_def split: if_splits, auto)
qed (use assms in \<open>auto simp: awake_def goto_def split: if_splits\<close>)

lemma act_no_sleep:
  assumes "no_sleep s" "accounted P s" "card P \<le> SEM_VALUE_MAX" "act cfg p a s = Some s'" "calm_action a"
    "p \<noteq> 0" "sy_pc s p \<noteq> WaitSub" "cf_semaphore cfg \<noteq> 0"
  shows "no_sleep s'"
proof (cases "sy_lock s' = 0 \<and> (\<exists>q. sy_pc s' q = SemWait) \<and> \<not> awake s' p")
  case True
  then obtain q where q: "sy_lock s' = 0" "sy_pc s' q = SemWait" "\<not> awake s' p" by blast
  have same: "sy_pc s' r = sy_pc s r" if "r \<noteq> p" for r using act_upd [OF assms(4)] that by (metis fun_upd_other)
  have small: "unat (sy_wait s) < 2 ^ 63" using accounted_small(2) [OF assms(2,3)] .
  have woken: "0 < sy_sem s \<or> (\<exists>r. posting (sy_pc s r))"
    if "sint (sy_wait s) \<le> 0" "sy_pc s q = SemWait"
  proof -
    have "sy_wait s = 0" using that(1) small by (rule sint_nonpos_small)
    moreover have "0 < at_points s waiting" by (rule at_points_pos [of _ _ q]) (simp add: that(2))
    ultimately have "0 < sy_sem s \<or> 0 < at_points s posting" using assms(2) unfolding accounted_def by (simp, linarith)
    then show ?thesis unfolding at_points_def by (auto simp: card_gt_0_iff)
  qed
  consider "0 < sy_sem s'"
    | "sy_pc s p = WakeRead" "sy_pc s' p = Idle" "sint (sy_wait s) \<le> 0" "sy_sem s' = sy_sem s"
    | "\<not> awake s p" "sy_sem s' = sy_sem s" "sy_lock s = 0" "sy_pc s' p = SemWait \<longrightarrow> sy_pc s p = SemWait"
    using act_sleeps [OF assms(4-8) q(1,3)] by argo
  then have "0 < sy_sem s' \<or> (\<exists>r. awake s' r)"
  proof cases
    case 2
    then have "sy_pc s q = SemWait" using q(2) same by (metis pc.distinct)
    with woken 2 consider "0 < sy_sem s'" | r where "posting (sy_pc s r)" by auto
    then show ?thesis
    proof cases
      case (2 r)
      then have "sy_pc s r = WakePost" by (cases "sy_pc s r") simp_all
      moreover from this have "r \<noteq> p" using \<open>sy_pc s p = WakeRead\<close> by auto
      ultimately show ?thesis using same by (auto simp: awake_def intro!: exI [of _ r])
    qed simp
  next
    case 3
    then have "sy_pc s q = SemWait" using q(2) same by metis
    then have "0 < sy_sem s \<or> (\<exists>r. awake s r)" using assms(1) 3(3) unfolding no_sleep_def by blast
    then show ?thesis using 3(1,2) same unfolding awake_def by metis
  qed simp
  then show ?thesis by (simp add: no_sleep_def)
qed (auto simp: no_sleep_def)

lemma act_wait_inv:
  assumes "wait_inv P s" "act cfg p a s = Some s'" "calm_action a" "p \<in> P" "p \<noteq> 0"
    "card P \<le> SEM_VALUE_MAX" "cf_semaphore cfg \<noteq> 0"
  shows "wait_inv P s'"
proof -
  have ex: "exclusive s" and alive: "\<forall>p. sy_pc s p \<noteq> Dead" using assms(1) by (simp_all add: wait_inv_def)
  have "sy_pc s' p \<noteq> Dead"
    using assms(2,3) alive by (cases a; cases "sy_pc s p") (auto simp: lock_ops Let_def split: if_splits)
  then have "\<forall>q. sy_pc s' q \<noteq> Dead" using act_upd [OF assms(2)] alive by (metis fun_upd_apply)
  moreover have "self_blocked s' \<or> accounted P s' \<and> no_sleep s'"
  proof (cases "self_blocked s \<or> self_blocked s'")
    case True
    then show ?thesis using act_self_blocked [OF assms(2,3,5) _ ex alive] by blast
  next
    case False
    then have acc: "accounted P s" "no_sleep s" using assms(1) by (simp_all add: wait_inv_def)
    have "sy_pc s p \<noteq> WaitSub"
    proof
      assume w: "sy_pc s p = WaitSub"
      then have "sy_lock s = p" using ex assms(5) unfolding exclusive_def by blast
      then show False using w False assms(5) by (simp add: self_blocked_def)
    qed
    then show ?thesis
      using act_accounted [OF acc(1) assms(4-6,2,3)] act_no_sleep [OF acc(2,1) assms(6,2,3,5)] False assms(7)
      by blast
  qed
  moreover have "\<forall>q. a = Call_force_unlock q \<longrightarrow> sy_pc s q = Dead" using assms(3) by auto
  ultimately show ?thesis using act_exclusive [OF ex assms(5,2)] unfolding wait_inv_def by blast
qed

lemma init_wait_inv: "wait_inv P shmtx_init"
  by (simp add: wait_inv_def init_exclusive accounted_def no_sleep_def at_points_def)
    (simp add: shmtx_init_def)

lemma runs_wait_inv:
  assumes "runs cfg shmtx_init as s" "undisturbed as" "cf_semaphore cfg \<noteq> 0" "card (fst ` set as) \<le> SEM_VALUE_MAX"
  shows "wait_inv (fst ` set as) s"
  using assms(1) init_wait_inv
proof (rule runs_invariant [where I = "wait_inv (fst ` set as)"])
  fix p a s s' assume "p \<noteq> 0" "(p, a) \<in> set as" "wait_inv (fst ` set as) s" "act cfg p a s = Some s'"
  moreover from this have "p \<in> fst ` set as" by force
  moreover have "calm_action a" using assms(2) \<open>(p, a) \<in> set as\<close> by (auto simp: undisturbed_def)
  ultimately show "wait_inv (fst ` set as) s'" using act_wait_inv assms(3,4) by blast
qed

subsection \<open>Locking without the semaphore\<close>

fun sleepy :: "pc \<Rightarrow> bool" where
  "sleepy WaitAdd = True" | "sleepy WaitSub = True" | "sleepy c = waiting c"

lemma act_not_sleepy:
  assumes "act cfg p a s = Some s'" "cf_semaphore cfg = 0" "\<forall>q. \<not> sleepy (sy_pc s q)"
  shows "\<forall>q. \<not> sleepy (sy_pc s' q)"
proof -
  have "\<not> sleepy (sy_pc s p)" using assms(3) by blast
  then have "\<not> sleepy (sy_pc s' p)"
    using assms(1,2) by (cases a; cases "sy_pc s p") (auto simp: lock_ops Let_def split: if_splits)
  then show ?thesis using act_upd [OF assms(1)] assms(3) by (metis fun_upd_apply)
qed

lemma reachable_not_sleepy:
  assumes "reachable cfg s" "cf_semaphore cfg = 0"
  shows "\<not> sleepy (sy_pc s p)"
proof -
  obtain as where "runs cfg shmtx_init as s" using assms(1) unfolding reachable_def by blast
  then have "\<forall>q. \<not> sleepy (sy_pc s q)"
    by (rule runs_invariant [where I = "\<lambda>s. \<forall>q. \<not> sleepy (sy_pc s q)"])
      (simp add: shmtx_init_def, rule act_not_sleepy [OF _ assms(2)])
  then show ?thesis by blast
qed

text \<open>\<open>p\<close> running alone gets the lock.\<close>

definition gets_lock :: "shmtx_cfg \<Rightarrow> u64 \<Rightarrow> shmtx_sys \<Rightarrow> pc \<Rightarrow> bool" where
  "gets_lock cfg p s c \<longleftrightarrow> (\<exists>k. runs cfg (goto p c s) (alone p k) (goto p Held (s\<lparr>sy_lock := p\<rparr>)))"

lemma gets_lock_step:
  assumes "gets_lock cfg p s d" "p \<noteq> 0" "go cfg p c (goto p c s) = Some (goto p d s)"
  shows "gets_lock cfg p s c"
  using assms alone_step [OF assms(2), of cfg "goto p c s"] unfolding gets_lock_def by fastforce

lemma gets_lock_free:
  assumes "p \<noteq> 0" "sy_lock s = 0" "cf_semaphore cfg = 0" "locking c" "\<not> sleepy c"
  shows "gets_lock cfg p s c"
proof -
  have cas: "gets_lock cfg p s c" if "c = LockCas \<or> (\<exists>n. c = SpinCas n)" for c
    unfolding gets_lock_def using that assms(1,2) by (intro exI [of _ 1]) (auto simp: runs_Cons lock_ops)
  note step = gets_lock_step [OF _ assms(1)]
  have read: "gets_lock cfg p s c" if "c = LockRead \<or> (\<exists>n. c = SpinRead n)" for c
    using that
  proof (elim disjE exE)
    assume "c = LockRead"
    then show ?thesis using step [OF cas, of LockCas] assms(2) by (simp add: test_lock_def)
  next
    fix n assume "c = SpinRead n"
    then show ?thesis using step [OF cas, of "SpinCas n"] assms(2) by (simp add: test_lock_def)
  qed
  have yield: "gets_lock cfg p s Yield" by (rule step [OF read]) auto
  have slow: "gets_lock cfg p s Slow" by (rule step [OF yield]) (use assms(3) in simp)
  have pause: "gets_lock cfg p s (SpinPause n i)" for n i
  proof -
    obtain j where "runs cfg (goto p (SpinPause n i) s) (alone p j) (goto p (SpinRead n) s)"
      using pause_out [OF assms(1), of "goto p (SpinPause n i) s" n i] by auto
    then show ?thesis using read [of "SpinRead n"] alone_append unfolding gets_lock_def by blast
  qed
  have test: "gets_lock cfg p s (SpinTest n)" for n
    by (rule step [where d = "if n < cf_spin cfg then SpinPause n 0 else Slow"]) (simp_all add: pause slow)
  have start: "gets_lock cfg p s SpinStart"
    by (rule step [where d = "if cf_ncpu cfg > 1 then SpinTest 1 else Slow"]) (simp_all add: test slow)
  show ?thesis
    using assms(4,5) cas read yield slow pause test start by (cases c) auto
qed

lemma waiting_iff: "waiting c \<longleftrightarrow> c \<in> {WaitRead, WaitCas, SemWait}"
  by (cases c) simp_all

lemma posting_iff: "posting c \<longleftrightarrow> c = WakePost"
  by (cases c) simp_all

subsection \<open>Properties\<close>

text \<open>7 holds the lock, 9 goes to sleep, 7 unlocks: the lock is free and 7 has not yet posted.\<close>

abbreviation uni_cfg :: shmtx_cfg where
  "uni_cfg \<equiv> \<lparr>cf_ncpu = 1, cf_spin = 2048, cf_semaphore = 1\<rparr>"

abbreviation sleep_run :: "(u64 \<times> action) list" where
  "sleep_run \<equiv> [(7, Call_lock), (7, Go), (7, Go), (9, Call_lock), (9, Go), (9, Go), (9, Go), (9, Go), (9, Go),
     (7, Call_unlock), (7, Go)]"

abbreviation sleep_state :: shmtx_sys where
  "sleep_state \<equiv> goto 9 SemWait (goto 7 WakeTest (shmtx_init\<lparr>sy_wait := 1\<rparr>))"

lemma sleep_run: "runs uni_cfg shmtx_init sleep_run sleep_state" "undisturbed sleep_run"
  "card (fst ` set sleep_run) \<le> SEM_VALUE_MAX"
  by (simp add: runs_Cons shmtx_init_def lock_ops fun_upd_twist) (simp_all add: undisturbed_def card_insert_if SEM_VALUE_MAX_def)

text \<open>
  C24: the books of the waiters: with a semaphore, in every state that at most \<open>SEM_VALUE_MAX\<close> processes reach without
  crashes, forced unlocks and errors of \<^verbatim>\<open>sem_wait\<close> or \<^verbatim>\<open>sem_post\<close> (\<open>undisturbed\<close>; that the semaphore never
  overflows is then proved), and in which no process sits inside \<open>ngx_shmtx_lock\<close> while the
  lock word names it, the count of waiters, the value of the semaphore and the posts under way
  add up to the number of processes that have announced themselves as waiters.
\<close>

theorem shmtx_waiters_accounted:
  assumes "runs cfg shmtx_init as s" "undisturbed as" "cf_semaphore cfg \<noteq> 0" "card (fst ` set as) \<le> SEM_VALUE_MAX"
    "\<not> self_blocked s"
  shows "unat (sy_wait s) + sy_sem s + card {p. sy_pc s p = WakePost}
    = card {p. sy_pc s p \<in> {WaitRead, WaitCas, SemWait}}"
  using runs_wait_inv [OF assms(1-4)] assms(5)
  unfolding wait_inv_def accounted_def at_points_def waiting_iff posting_iff by blast

theorem shmtx_waiters_accounted_witness:
  "1 + card {p. sy_pc sleep_state p = WakePost} = card {p. sy_pc sleep_state p \<in> {WaitRead, WaitCas, SemWait}}"
proof -
  have "\<not> self_blocked sleep_state" by (simp add: self_blocked_def shmtx_init_def)
  then show ?thesis
    using shmtx_waiters_accounted [OF sleep_run(1,2) _ sleep_run(3)] by (simp add: shmtx_init_def)
qed

text \<open>
  C6: no wakeup is lost: with a semaphore, in every state that at most \<open>SEM_VALUE_MAX\<close> processes reach without crashes,
  forced unlocks and errors of \<^verbatim>\<open>sem_wait\<close> or \<^verbatim>\<open>sem_post\<close> (\<open>undisturbed\<close>), if the lock is free and a process sleeps, then a token of the semaphore is
  there to wake a sleeper, or another process is awake on its way to the lock or to the post.
\<close>

theorem shmtx_no_lost_wakeup:
  assumes "runs cfg shmtx_init as s" "undisturbed as" "cf_semaphore cfg \<noteq> 0" "card (fst ` set as) \<le> SEM_VALUE_MAX"
    "sy_lock s = 0" "sy_pc s q = SemWait"
  shows "0 < sy_sem s \<or> (\<exists>p. awake s p)"
  using runs_wait_inv [OF assms(1-4)] assms(5,6)
  unfolding wait_inv_def no_sleep_def self_blocked_def by blast

theorem shmtx_no_lost_wakeup_witness:
  "sy_lock sleep_state = 0 \<and> sy_pc sleep_state 9 = SemWait \<and> sy_sem sleep_state = 0 \<and> (\<exists>p. awake sleep_state p)"
  using shmtx_no_lost_wakeup [OF sleep_run(1,2) _ sleep_run(3), of 9] by (simp add: shmtx_init_def)

text \<open>
  C25: progress without the semaphore: in every reachable state in which the lock is free, a
  process that is anywhere inside \<open>ngx_shmtx_lock\<close> and that the others leave alone returns from it
  as the owner after finitely many accesses, having changed nothing but the lock word.
\<close>

theorem shmtx_lock_progress:
  assumes "reachable cfg s" "cf_semaphore cfg = 0" "p \<noteq> 0" "sy_lock s = 0" "locking (sy_pc s p)"
  shows "\<exists>k. runs cfg s (alone p k) (goto p Held (s\<lparr>sy_lock := p\<rparr>))"
proof -
  have "gets_lock cfg p s (sy_pc s p)"
    using gets_lock_free [OF assms(3,4,2,5)] reachable_not_sleepy [OF assms(1,2)] by blast
  moreover have "goto p (sy_pc s p) s = s" by (simp add: goto_def)
  ultimately show ?thesis by (simp add: gets_lock_def)
qed

theorem shmtx_lock_progress_witness:
  "\<exists>k. runs (demo_cfg\<lparr>cf_semaphore := 0\<rparr>) (goto 9 LockRead shmtx_init) (alone 9 k)
     (goto 9 Held (shmtx_init\<lparr>sy_lock := 9\<rparr>))"
proof -
  have "runs (demo_cfg\<lparr>cf_semaphore := 0\<rparr>) shmtx_init [(9, Call_lock)] (goto 9 LockRead shmtx_init)"
    by (simp add: runs_Cons shmtx_init_def)
  then have "reachable (demo_cfg\<lparr>cf_semaphore := 0\<rparr>) (goto 9 LockRead shmtx_init)"
    unfolding reachable_def by blast
  then show ?thesis
    using shmtx_lock_progress [of "demo_cfg\<lparr>cf_semaphore := 0\<rparr>" "goto 9 LockRead shmtx_init" 9]
    by (simp add: goto_def shmtx_init_def)
qed

end
