(* ===== verification/Ngx_Slab.thy ===== *)
theory Ngx_Slab
  imports Ngx_Prelude
begin

text \<open>
  \<^verbatim>\<open>src/core/ngx_slab.c\<close> and \<^verbatim>\<open>ngx_slab.h\<close>: the allocator inside a zone of shared memory. The zone
  starts with the pool's record; behind it lie an array of list heads (the slots), one of
  statistics, one of page headers, and the pages. The source is unfinished and is modelled as it
  stands: the empty branches do nothing, the loop in \<^verbatim>\<open>ngx_slab_alloc_locked\<close> does not change its
  condition, and values a path never sets are parameters. (The statement
  \<^verbatim>\<open>pool->stats[slot].reqs++\<close> lacks its semicolon; it is read as the statement it was meant to be.)

  Structures are kept by address; an access to memory outside of the zone is undefined.
\<close>

subsection \<open>Data\<close>

record ngx_slab_page_t =
  sp_slab :: u64
  sp_next :: addr
  sp_prev :: u64

record ngx_slab_stat_t =
  ss_total :: u64
  ss_used :: u64
  ss_reqs :: u64
  ss_fails :: u64

text \<open>
  The pool's record. The embedded list head \<open>free\<close> is the page header at offset 48; the fields \<open>lock\<close>,
  \<open>mutex\<close>, \<open>data\<close> and \<open>addr\<close>, which no function of the file reads or writes, are left out.
\<close>

record ngx_slab_pool_t =
  sl_min_size :: u64
  sl_min_shift :: u64
  sl_pages :: addr
  sl_last :: addr
  sl_stats :: addr
  sl_pfree :: u64
  sl_start :: addr
  sl_end :: addr
  sl_log_ctx :: addr
  sl_zero :: char
  sl_log_nomem :: bool

record slab =
  sb_pool :: ngx_slab_pool_t
  sb_pages :: "addr \<Rightarrow> ngx_slab_page_t option"
  sb_stats :: "addr \<Rightarrow> ngx_slab_stat_t option"

text \<open>The global variables the code reads.\<close>

record slab_sizes =
  sz_pagesize :: u64
  sz_pagesize_shift :: u64
  sz_max_size :: u64
  sz_exact_size :: u64
  sz_exact_shift :: u64

definition sizeof_ngx_slab_pool_t :: u64 where "sizeof_ngx_slab_pool_t = 184"
definition sizeof_ngx_slab_page_t :: u64 where "sizeof_ngx_slab_page_t = 24"
definition sizeof_ngx_slab_stat_t :: u64 where "sizeof_ngx_slab_stat_t = 32"

lemmas slab_sizeof_defs = sizeof_ngx_slab_pool_t_def sizeof_ngx_slab_page_t_def sizeof_ngx_slab_stat_t_def

definition NGX_SLAB_PAGE :: u64 where "NGX_SLAB_PAGE = 0"
definition NGX_SLAB_BIG :: u64 where "NGX_SLAB_BIG = 1"
definition NGX_SLAB_PAGE_START :: u64 where "NGX_SLAB_PAGE_START = 0x8000000000000000"
definition NGX_SLAB_MAP_SHIFT :: nat where "NGX_SLAB_MAP_SHIFT = 32"
definition NGX_SLAB_MAP_MASK :: u64 where "NGX_SLAB_MAP_MASK = 0xffffffff00000000"

definition slab_free :: "addr \<Rightarrow> addr" where
  "slab_free pool = pool + 48"

definition ngx_slab_slots :: "addr \<Rightarrow> addr" where
  "ngx_slab_slots pool = pool + sizeof_ngx_slab_pool_t"

text \<open>\<open>page_at a i\<close> is \<^verbatim>\<open>&a[i]\<close> for an array of page headers.\<close>

definition page_at :: "addr \<Rightarrow> u64 \<Rightarrow> addr" where
  "page_at a i = a + i * sizeof_ngx_slab_page_t"

definition ngx_slab_page_addr :: "slab_sizes \<Rightarrow> slab \<Rightarrow> addr \<Rightarrow> addr" where
  "ngx_slab_page_addr cfg s page =
     push_bit (unat (sz_pagesize_shift cfg)) ((page - sl_pages (sb_pool s)) div sizeof_ngx_slab_page_t)
     + sl_start (sb_pool s)"

definition in_zone :: "addr \<Rightarrow> slab \<Rightarrow> addr \<Rightarrow> nat \<Rightarrow> bool" where
  "in_zone pool s a n \<longleftrightarrow> unat pool \<le> unat a \<and> unat a + n \<le> unat (sl_end (sb_pool s))"

definition put_page :: "addr \<Rightarrow> slab \<Rightarrow> addr \<Rightarrow> ngx_slab_page_t \<Rightarrow> slab option" where
  "put_page pool s a r = (if in_zone pool s a 24 then Some (s\<lparr>sb_pages := (sb_pages s)(a \<mapsto> r)\<rparr>) else None)"

definition put_stat :: "addr \<Rightarrow> slab \<Rightarrow> addr \<Rightarrow> ngx_slab_stat_t \<Rightarrow> slab option" where
  "put_stat pool s a r = (if in_zone pool s a 32 then Some (s\<lparr>sb_stats := (sb_stats s)(a \<mapsto> r)\<rparr>) else None)"

subsection \<open>Sizes\<close>

function exact_shift_loop :: "u64 \<Rightarrow> u64 \<Rightarrow> u64" where
  "exact_shift_loop n k = (let n = drop_bit 1 n in if n = 0 then k else exact_shift_loop n (k + 1))"
  by pat_completeness auto
termination
proof (relation "measure (\<lambda>(n, k). unat n)")
  show "wf (measure (\<lambda>(n :: u64, k :: u64). unat n))" by simp
next
  fix n k x :: u64
  assume x: "x = drop_bit 1 n" "x \<noteq> 0"
  have "unat x = unat n div 2" using x(1) by (simp add: drop_bit_eq_div unat_div)
  moreover have "unat x \<noteq> 0" using x(2) by (simp only: unat_eq_0 not_False_eq_True)
  ultimately show "((x, k + 1), n, k) \<in> measure (\<lambda>(n, k). unat n)" by simp
qed

declare exact_shift_loop.simps [simp del]

text \<open>The loop starts from whatever \<open>ngx_slab_exact_shift\<close> holds; its first value is 0.\<close>

definition ngx_slab_sizes_init :: "slab_sizes \<Rightarrow> slab_sizes" where
  "ngx_slab_sizes_init cfg =
     (let cfg = cfg\<lparr>sz_max_size := sz_pagesize cfg div 2, sz_exact_size := sz_pagesize cfg div (8 * 8)\<rparr>
      in cfg\<lparr>sz_exact_shift := exact_shift_loop (sz_exact_size cfg) (sz_exact_shift cfg)\<rparr>)"

subsection \<open>Initialisation\<close>

fun init_slots :: "addr \<Rightarrow> addr \<Rightarrow> nat \<Rightarrow> u64 \<Rightarrow> slab \<Rightarrow> slab option" where
  "init_slots pool slots 0 i s = Some s"
| "init_slots pool slots (Suc k) i s = do {
     s \<leftarrow> put_page pool s (page_at slots i) \<lparr>sp_slab = 0, sp_next = page_at slots i, sp_prev = 0\<rparr>;
     init_slots pool slots k (i + 1) s }"

definition zero_page :: ngx_slab_page_t where
  "zero_page = \<lparr>sp_slab = 0, sp_next = NULL, sp_prev = 0\<rparr>"

definition zero_stat :: ngx_slab_stat_t where
  "zero_stat = \<lparr>ss_total = 0, ss_used = 0, ss_reqs = 0, ss_fails = 0\<rparr>"

text \<open>\<^verbatim>\<open>ngx_memzero\<close> of \<open>n\<close> elements of an array of structures of \<open>m\<close> bytes.\<close>

definition zero_array :: "u64 \<Rightarrow> addr \<Rightarrow> u64 \<Rightarrow> 'a \<Rightarrow> (addr \<Rightarrow> 'a option) \<Rightarrow> addr \<Rightarrow> 'a option" where
  "zero_array m p n z f a = (if a - p < n * m \<and> (a - p) mod m = 0 then Some z else f a)"

definition zero_pages :: "addr \<Rightarrow> slab \<Rightarrow> addr \<Rightarrow> u64 \<Rightarrow> slab option" where
  "zero_pages pool s p n = (if in_zone pool s p (unat (n * sizeof_ngx_slab_page_t))
     then Some (s\<lparr>sb_pages := zero_array sizeof_ngx_slab_page_t p n zero_page (sb_pages s)\<rparr>) else None)"

definition zero_stats :: "addr \<Rightarrow> slab \<Rightarrow> addr \<Rightarrow> u64 \<Rightarrow> slab option" where
  "zero_stats pool s p n = (if in_zone pool s p (unat (n * sizeof_ngx_slab_stat_t))
     then Some (s\<lparr>sb_stats := zero_array sizeof_ngx_slab_stat_t p n zero_stat (sb_stats s)\<rparr>) else None)"

text \<open>The end of \<^verbatim>\<open>ngx_slab_init\<close>: the single run of free pages and the bounds of the pages.\<close>

definition init_pages :: "slab_sizes \<Rightarrow> addr \<Rightarrow> addr \<Rightarrow> u64 \<Rightarrow> slab \<Rightarrow> slab option" where
  "init_pages cfg pool p pages s = do {
     let s = s\<lparr>sb_pool := (sb_pool s)\<lparr>sl_pages := p\<rparr>\<rparr>;
     s \<leftarrow> zero_pages pool s p pages;
     s \<leftarrow> put_page pool s (slab_free pool) \<lparr>sp_slab = 0, sp_next = p, sp_prev = 0\<rparr>;
     s \<leftarrow> put_page pool s p \<lparr>sp_slab = pages, sp_next = slab_free pool, sp_prev = slab_free pool\<rparr>;
     let start = ngx_align_ptr (page_at p pages) (sz_pagesize cfg);
     let m = pages - (sl_end (sb_pool s) - start) div sz_pagesize cfg;
     let n = (if 0 < sint m then pages - m else pages);
     s \<leftarrow> put_page pool s p \<lparr>sp_slab = n, sp_next = slab_free pool, sp_prev = slab_free pool\<rparr>;
     Some (s\<lparr>sb_pool := (sb_pool s)\<lparr>sl_start := start, sl_last := page_at p n, sl_pfree := n,
       sl_log_nomem := True, sl_log_ctx := pool + 160, sl_zero := NUL\<rparr>\<rparr>) }"

definition ngx_slab_init :: "slab_sizes \<Rightarrow> addr \<Rightarrow> slab \<Rightarrow> slab option" where
  "ngx_slab_init cfg pool s = (let shift = sl_min_shift (sb_pool s) in if 64 \<le> unat shift then None else do {
     let s = s\<lparr>sb_pool := (sb_pool s)\<lparr>sl_min_size := push_bit (unat shift) 1\<rparr>\<rparr>;
     let slots = ngx_slab_slots pool;
     let sz = sl_end (sb_pool s) - slots;
     let n = sz_pagesize_shift cfg - shift;
     s \<leftarrow> init_slots pool slots (unat n) 0 s;
     let p = slots + n * sizeof_ngx_slab_page_t;
     let s = s\<lparr>sb_pool := (sb_pool s)\<lparr>sl_stats := p\<rparr>\<rparr>;
     s \<leftarrow> zero_stats pool s p n;
     let p = p + n * sizeof_ngx_slab_stat_t;
     let sz = sz - n * (sizeof_ngx_slab_page_t + sizeof_ngx_slab_stat_t);
     let pages = sz div (sz_pagesize cfg + sizeof_ngx_slab_page_t);
     init_pages cfg pool p pages s })"

subsection \<open>Pages\<close>

definition upd_page :: "addr \<Rightarrow> slab \<Rightarrow> addr \<Rightarrow> (ngx_slab_page_t \<Rightarrow> ngx_slab_page_t) \<Rightarrow> slab option" where
  "upd_page pool s a f = do { r \<leftarrow> sb_pages s a; put_page pool s a (f r) }"

text \<open>
  The body of the loop for a run of at least \<open>pages\<close> pages. A longer run is split: its rest gets
  a header of its own, but the list is linked past it. A run of exactly that length stays linked.
\<close>

definition split_run :: "addr \<Rightarrow> addr \<Rightarrow> u64 \<Rightarrow> slab \<Rightarrow> slab option" where
  "split_run pool page pages s = do {
     r \<leftarrow> sb_pages s page;
     s \<leftarrow> upd_page pool s (page_at page (sp_slab r - 1)) (\<lambda>q. q\<lparr>sp_prev := page_at page pages\<rparr>);
     r \<leftarrow> sb_pages s page;
     s \<leftarrow> upd_page pool s (page_at page pages) (\<lambda>q. q\<lparr>sp_slab := sp_slab r - pages\<rparr>);
     r \<leftarrow> sb_pages s page;
     s \<leftarrow> upd_page pool s (page_at page pages) (\<lambda>q. q\<lparr>sp_next := sp_next r\<rparr>);
     r \<leftarrow> sb_pages s page;
     s \<leftarrow> upd_page pool s (page_at page pages) (\<lambda>q. q\<lparr>sp_prev := sp_prev r\<rparr>);
     r \<leftarrow> sb_pages s page;
     s \<leftarrow> upd_page pool s (sp_prev r) (\<lambda>q. q\<lparr>sp_next := sp_next r\<rparr>);
     r \<leftarrow> sb_pages s page;
     upd_page pool s (sp_next r) (\<lambda>q. q\<lparr>sp_prev := sp_prev r\<rparr>) }"

definition take_run :: "addr \<Rightarrow> addr \<Rightarrow> u64 \<Rightarrow> slab \<Rightarrow> slab option" where
  "take_run pool page pages s = do {
     r \<leftarrow> sb_pages s page;
     s \<leftarrow> (if pages < sp_slab r then split_run pool page pages s else Some s);
     s \<leftarrow> upd_page pool s page (\<lambda>q. q\<lparr>sp_slab := pages OR NGX_SLAB_PAGE_START, sp_next := NULL, sp_prev := NGX_SLAB_PAGE\<rparr>);
     Some (s\<lparr>sb_pool := (sb_pool s)\<lparr>sl_pfree := sl_pfree (sb_pool s) - pages\<rparr>\<rparr>) }"

text \<open>
  The loop over the free list. At its end the function has no \<^verbatim>\<open>return\<close>, and its caller tests the
  value: undefined.
\<close>

partial_function (option) alloc_pages_scan :: "addr \<Rightarrow> addr \<Rightarrow> u64 \<Rightarrow> slab \<Rightarrow> (addr \<times> slab) option" where
  "alloc_pages_scan pool page pages s =
     (if page = slab_free pool then None else do {
        r \<leftarrow> sb_pages s page;
        if pages \<le> sp_slab r then do {
          s \<leftarrow> take_run pool page pages s;
          if pages - 1 = 0 then Some (page, s) else do {
            r \<leftarrow> sb_pages s page;
            alloc_pages_scan pool (sp_next r) (pages - 1) s } }
        else alloc_pages_scan pool (sp_next r) pages s })"

definition ngx_slab_alloc_pages :: "addr \<Rightarrow> u64 \<Rightarrow> slab \<Rightarrow> (addr \<times> slab) option" where
  "ngx_slab_alloc_pages pool pages s = do {
     h \<leftarrow> sb_pages s (slab_free pool);
     alloc_pages_scan pool (sp_next h) pages s }"

subsection \<open>Chunks\<close>

text \<open>The loop that should compute the size class never changes \<^verbatim>\<open>s\<close>.\<close>

partial_function (option) shift_loop :: "u64 \<Rightarrow> u64 \<Rightarrow> u64 option" where
  "shift_loop s shift = (if drop_bit 1 s \<noteq> 0 then shift_loop s (shift + 1) else Some shift)"

text \<open>The size class; the second branch leaves \<^verbatim>\<open>slot\<close> with the value it happened to have.\<close>

definition size_class :: "slab \<Rightarrow> u64 \<Rightarrow> u64 \<Rightarrow> (u64 \<times> u64) option" where
  "size_class s sz slot =
     (if sl_min_size (sb_pool s) < sz
      then do { shift \<leftarrow> shift_loop (sz - 1) 1; Some (shift, shift - sl_min_shift (sb_pool s)) }
      else Some (sl_min_size (sb_pool s), slot))"

definition stat_at :: "slab \<Rightarrow> u64 \<Rightarrow> addr" where
  "stat_at s i = sl_stats (sb_pool s) + i * sizeof_ngx_slab_stat_t"

definition upd_stat :: "addr \<Rightarrow> slab \<Rightarrow> addr \<Rightarrow> (ngx_slab_stat_t \<Rightarrow> ngx_slab_stat_t) \<Rightarrow> slab option" where
  "upd_stat pool s a f = do { r \<leftarrow> sb_stats s a; put_stat pool s a (f r) }"

text \<open>
  The search for a free chunk in a page of large chunks. Its mask is not shifted (the statement
  \<^verbatim>\<open>mask << NGX_SLAB_MAP_SHIFT\<close> has no effect), and neither is \<open>m\<close>, so the loop either
  does not start, or ends in its first round, or does not end.
\<close>

partial_function (option) chunk_loop :: "u64 \<Rightarrow> u64 \<Rightarrow> u64 \<Rightarrow> u64 \<Rightarrow> u64 option option" where
  "chunk_loop bits m msk i =
     (if m AND msk = 0 then Some None
      else if bits AND m \<noteq> 0 then chunk_loop bits m msk (i + 1)
      else Some (Some i))"

definition alloc_chunk :: "slab_sizes \<Rightarrow> addr \<Rightarrow> addr \<Rightarrow> u64 \<Rightarrow> u64 \<Rightarrow> slab \<Rightarrow> (u64 option \<times> slab) option" where
  "alloc_chunk cfg pool page slot shift s =
     (if 64 \<le> unat shift \<or> 64 \<le> unat (drop_bit (unat shift) (sz_pagesize cfg)) then None
      else do {
        r \<leftarrow> sb_pages s page;
        let msk = push_bit (unat (drop_bit (unat shift) (sz_pagesize cfg))) 1 - 1;
        let m = push_bit NGX_SLAB_MAP_SHIFT 1;
        c \<leftarrow> chunk_loop (sp_slab r) m msk 0;
        case c of
          None \<Rightarrow> Some (None, s)
        | Some i \<Rightarrow> do {
            s \<leftarrow> upd_page pool s page (\<lambda>q. q\<lparr>sp_slab := sp_slab q OR m\<rparr>);
            let p = ngx_slab_page_addr cfg s page + push_bit (unat shift) i;
            s \<leftarrow> upd_stat pool s (stat_at s slot) (\<lambda>t. t\<lparr>ss_used := ss_used t + 1\<rparr>);
            Some (Some p, s) } })"

text \<open>A page for a new size class; only the class of large chunks is written. \<open>p\<close> is the value the
  variable holds before.\<close>

definition alloc_page_chunk :: "slab_sizes \<Rightarrow> addr \<Rightarrow> u64 \<Rightarrow> u64 \<Rightarrow> u64 \<Rightarrow> slab \<Rightarrow> (u64 \<times> slab) option" where
  "alloc_page_chunk cfg pool slot shift p s = do {
     (page, s) \<leftarrow> ngx_slab_alloc_pages pool 1 s;
     if page \<noteq> NULL \<and> sz_exact_shift cfg < shift then
       if 64 \<le> unat shift then None else do {
         let slots = ngx_slab_slots pool;
         s \<leftarrow> upd_page pool s page (\<lambda>q. q\<lparr>sp_slab := push_bit NGX_SLAB_MAP_SHIFT 1 OR shift,
           sp_next := page_at slots slot, sp_prev := page_at slots slot OR NGX_SLAB_BIG\<rparr>);
         s \<leftarrow> upd_page pool s (page_at slots slot) (\<lambda>q. q\<lparr>sp_next := page\<rparr>);
         s \<leftarrow> upd_stat pool s (stat_at s slot) (\<lambda>t. t\<lparr>ss_total := ss_total t + drop_bit (unat shift) (sz_pagesize cfg)\<rparr>);
         let p = ngx_slab_page_addr cfg s page;
         s \<leftarrow> upd_stat pool s (stat_at s slot) (\<lambda>t. t\<lparr>ss_used := ss_used t + 1\<rparr>);
         Some (p, s) }
     else Some (p, s) }"

text \<open>\<open>slot\<close> and \<open>p\<close> are the values of the uninitialised variables of these names.\<close>

definition ngx_slab_alloc_locked :: "slab_sizes \<Rightarrow> addr \<Rightarrow> u64 \<Rightarrow> u64 \<Rightarrow> u64 \<Rightarrow> slab \<Rightarrow> (u64 \<times> slab) option" where
  "ngx_slab_alloc_locked cfg pool slot p sz s = do {
     (shift, slot) \<leftarrow> size_class s sz slot;
     s \<leftarrow> upd_stat pool s (stat_at s slot) (\<lambda>t. t\<lparr>ss_reqs := ss_reqs t + 1\<rparr>);
     h \<leftarrow> sb_pages s (page_at (ngx_slab_slots pool) slot);
     let page = sp_next h;
     r \<leftarrow> sb_pages s page;
     (c, s) \<leftarrow> (if sp_next r \<noteq> page \<and> sz_exact_shift cfg < shift
                then alloc_chunk cfg pool page slot shift s else Some (None, s));
     case c of
       Some p \<Rightarrow> Some (p, s)
     | None \<Rightarrow> alloc_page_chunk cfg pool slot shift p s }"

subsection \<open>Sizes, continued\<close>

lemma drop_push_bit_one: "Suc k < 64 \<Longrightarrow> drop_bit 1 (push_bit (Suc k) (1 :: u64)) = push_bit k 1"
  by (rule bit_eqI) (auto simp: bit_simps)

lemma push_bit_one_neq_0: "k < 64 \<Longrightarrow> push_bit k (1 :: u64) \<noteq> 0"
proof
  assume k: "k < 64" and "push_bit k (1 :: u64) = 0"
  then have "bit (push_bit k (1 :: u64)) k = bit (0 :: u64) k" by simp
  with k show False by (simp add: bit_simps)
qed

lemma exact_shift_loop_pow: "k < 64 \<Longrightarrow> exact_shift_loop (push_bit k 1) e = e + of_nat k"
proof (induction k arbitrary: e)
  case 0
  then show ?case by (subst exact_shift_loop.simps) simp
next
  case (Suc k)
  then have "exact_shift_loop (push_bit (Suc k) 1) e = exact_shift_loop (push_bit k 1) (e + 1)"
    by (subst exact_shift_loop.simps) (simp only: Let_def drop_push_bit_one push_bit_one_neq_0 if_False Suc_lessD)
  then show ?case using Suc by simp
qed

lemma shift_loop_diverges: "drop_bit 1 s \<noteq> 0 \<Longrightarrow> shift_loop s k = None"
proof (rule ccontr)
  assume s: "drop_bit 1 s \<noteq> 0" and "shift_loop s k \<noteq> None"
  then obtain y where y: "shift_loop s k = Some y" by auto
  have "drop_bit 1 s = 0"
    by (rule shift_loop.raw_induct [OF _ y, where P = "\<lambda>s k y. drop_bit 1 s = 0"]) (auto split: if_splits)
  then show False using s by simp
qed

lemma large_shift_loop:
  assumes "2 < sz"
  shows "shift_loop (sz - 1) 1 = None"
proof -
  have "unat (sz - 1) = unat sz - 1" using assms by (subst unat_minus_1) auto
  then have "unat (drop_bit 1 (sz - 1)) \<noteq> 0"
    using assms by (simp add: drop_bit_eq_div unat_div word_less_nat_alt)
  then have "drop_bit 1 (sz - 1) \<noteq> 0" by (simp only: unat_eq_0 not_False_eq_True)
  then show ?thesis by (rule shift_loop_diverges)
qed

subsection \<open>Addresses inside the zone\<close>

lemma unat_mult_no_wrap: "unat (a :: u64) * unat b < 2 ^ 64 \<Longrightarrow> unat (a * b) = unat a * unat b"
  by (simp add: unat_word_ariths)

lemma unat_page_at:
  assumes "unat a + 24 * unat i < 2 ^ 64"
  shows "unat (page_at a i) = unat a + 24 * unat i"
proof -
  have i: "unat (i * 24) = unat i * 24" using assms unat_mult_no_wrap [of i 24] by simp
  then show ?thesis using assms unat_plus_no_wrap [of a "i * 24"]
    by (simp add: page_at_def sizeof_ngx_slab_page_t_def)
qed

lemma unat_stat_at:
  assumes "unat (sl_stats (sb_pool s)) + 32 * unat i < 2 ^ 64"
  shows "unat (stat_at s i) = unat (sl_stats (sb_pool s)) + 32 * unat i"
proof -
  have i: "unat (i * 32) = unat i * 32" using assms unat_mult_no_wrap [of i 32] by simp
  then show ?thesis using assms unat_plus_no_wrap [of "sl_stats (sb_pool s)" "i * 32"]
    by (simp add: stat_at_def sizeof_ngx_slab_stat_t_def)
qed

lemma zero_array_at:
  assumes "unat i < unat n" "unat n * unat m < 2 ^ 64" "m \<noteq> 0"
  shows "zero_array m p n z f (p + i * m) = Some z"
proof -
  have le: "unat i * unat m \<le> unat n * unat m" using assms(1) by (intro mult_le_mono1) simp
  have n: "unat (n * m) = unat n * unat m" using assms(2) by (rule unat_mult_no_wrap)
  have i: "unat (i * m) = unat i * unat m" using assms(2) le by (intro unat_mult_no_wrap) linarith
  have pos: "0 < unat m" using assms(3) by (simp add: unat_gt_0)
  have "i * m < n * m" unfolding word_less_nat_alt n i using assms(1) pos by simp
  moreover have "i * m mod m = 0"
  proof -
    have "unat (i * m mod m) = 0" unfolding unat_mod i by simp
    then show ?thesis by (simp only: unat_eq_0)
  qed
  ultimately show ?thesis by (simp add: zero_array_def)
qed

lemma zero_array_below:
  assumes "unat a < unat p" "unat p + unat (n * m) < 2 ^ 64"
  shows "zero_array m p n z f a = f a"
proof -
  have "unat (a - p) = 2 ^ 64 - (unat p - unat a)"
    using assms(1) by (simp add: unat_sub_if_size word_size) 
  then have "unat (n * m) \<le> unat (a - p)" using assms by linarith
  then show ?thesis by (simp add: zero_array_def word_less_nat_alt)
qed

lemma sint_minus_small:
  assumes "unat (a :: u64) < 2 ^ 62" "unat b < 2 ^ 62"
  shows "sint (a - b) = int (unat a) - int (unat b)"
proof -
  let ?z = "int (unat a) - int (unat b)"
  have "unat a < 4611686018427387904" "unat b < 4611686018427387904" using assms by simp_all
  then have "- 9223372036854775808 \<le> ?z" "?z < 9223372036854775808" by linarith+
  then have "sint (word_of_int ?z :: u64) = ?z"
    by (simp only: signed_of_int) (simp add: signed_take_bit_int_eq_self)
  moreover have "a - b = word_of_int ?z" by simp
  ultimately show ?thesis by (simp only:)
qed

subsection \<open>The state after initialisation\<close>

text \<open>
  A fresh pool of \<open>k\<close> pages: the zone holds, in this order, the record, \<open>n\<close> slots, \<open>n\<close> statistics,
  the headers and the pages; every slot is empty, every statistic 0, and the free list is one run.
\<close>

definition slab_layout :: "slab_sizes \<Rightarrow> addr \<Rightarrow> nat \<Rightarrow> nat \<Rightarrow> slab \<Rightarrow> bool" where
  "slab_layout cfg pool n k s \<longleftrightarrow>
     (let sp = sb_pool s; p = unat (sl_stats sp) + 32 * n in
        unat (sl_stats sp) = unat pool + 184 + 24 * n \<and>
        unat (sl_pages sp) = p \<and>
        p + 24 * k \<le> unat (sl_start sp) \<and>
        unat (sl_start sp) + k * unat (sz_pagesize cfg) \<le> unat (sl_end sp) \<and>
        unat (sl_start sp) mod unat (sz_pagesize cfg) = 0)"

definition slab_one_run :: "slab_sizes \<Rightarrow> addr \<Rightarrow> nat \<Rightarrow> nat \<Rightarrow> slab \<Rightarrow> bool" where
  "slab_one_run cfg pool n k s \<longleftrightarrow>
     slab_layout cfg pool n k s \<and>
     unat (sl_pfree (sb_pool s)) = k \<and>
     (\<forall>i. unat i < n \<longrightarrow> sb_pages s (page_at (ngx_slab_slots pool) i)
            = Some \<lparr>sp_slab = 0, sp_next = page_at (ngx_slab_slots pool) i, sp_prev = 0\<rparr>) \<and>
     sb_pages s (slab_free pool) = Some \<lparr>sp_slab = 0, sp_next = sl_pages (sb_pool s), sp_prev = 0\<rparr> \<and>
     sb_pages s (sl_pages (sb_pool s))
       = Some \<lparr>sp_slab = of_nat k, sp_next = slab_free pool, sp_prev = slab_free pool\<rparr> \<and>
     (\<forall>i. 0 < unat i \<and> unat i < k \<longrightarrow> sb_pages s (page_at (sl_pages (sb_pool s)) i) = Some zero_page)"

definition slab_fresh :: "slab_sizes \<Rightarrow> addr \<Rightarrow> nat \<Rightarrow> nat \<Rightarrow> slab \<Rightarrow> bool" where
  "slab_fresh cfg pool n k s \<longleftrightarrow> slab_one_run cfg pool n k s \<and>
     (\<forall>i. unat i < n \<longrightarrow> sb_stats s (stat_at s i) = Some zero_stat)"

lemma init_slots_run:
  assumes "unat pool \<le> unat slots" "unat slots + 24 * (unat i + k) \<le> unat (sl_end (sb_pool s))"
  shows "init_slots pool slots k i s = Some (s\<lparr>sb_pages := (\<lambda>a.
    if \<exists>j < k. a = page_at slots (i + of_nat j) then Some \<lparr>sp_slab = 0, sp_next = a, sp_prev = 0\<rparr> else sb_pages s a)\<rparr>)"
  using assms
proof (induction k arbitrary: i s)
  case 0
  then show ?case by simp
next
  case (Suc k)
  have e: "unat slots + 24 * unat i + 24 < 18446744073709551616"
    by (rule le_less_trans [OF _ unat_lt_64 [of "sl_end (sb_pool s)"]]) (use Suc.prems(2) in simp)
  have a: "unat (page_at slots i) = unat slots + 24 * unat i"
    by (rule unat_page_at) (use e in simp)
  have i: "unat (i + 1) = unat i + 1"
    by (subst unat_plus_no_wrap) (use e in simp_all)
  let ?s = "s\<lparr>sb_pages := (sb_pages s)(page_at slots i \<mapsto> \<lparr>sp_slab = 0, sp_next = page_at slots i, sp_prev = 0\<rparr>)\<rparr>"
  have put: "put_page pool s (page_at slots i) \<lparr>sp_slab = 0, sp_next = page_at slots i, sp_prev = 0\<rparr> = Some ?s"
    using Suc.prems a by (simp add: put_page_def in_zone_def)
  let ?f = "\<lambda>a. if \<exists>j < k. a = page_at slots (i + 1 + of_nat j)
      then Some \<lparr>sp_slab = 0, sp_next = a, sp_prev = 0\<rparr> else sb_pages ?s a"
  let ?g = "\<lambda>a. if \<exists>j < Suc k. a = page_at slots (i + of_nat j)
      then Some \<lparr>sp_slab = 0, sp_next = a, sp_prev = 0\<rparr> else sb_pages s a"
  have fg: "?f = ?g"
  proof
    fix a
    have "(\<exists>j < Suc k. a = page_at slots (i + of_nat j))
        \<longleftrightarrow> a = page_at slots i \<or> (\<exists>j < k. a = page_at slots (i + 1 + of_nat j))"
      by (subst Ex_less_Suc2) (simp add: add.assoc)
    then show "?f a = ?g a" by (cases "\<exists>j < k. a = page_at slots (i + 1 + of_nat j)"; cases "a = page_at slots i") auto
  qed
  have "init_slots pool slots k (i + 1) ?s = Some (?s\<lparr>sb_pages := ?f\<rparr>)"
    by (rule Suc.IH) (use Suc.prems i in simp_all)
  then have "init_slots pool slots (Suc k) i s = Some (s\<lparr>sb_pages := ?f\<rparr>)"
    using put by simp
  then show ?case by (simp only: fg)
qed

lemma unat_pow: "k < 64 \<Longrightarrow> unat (push_bit k (1 :: u64)) = 2 ^ k"
  unfolding unsigned_push_bit_eq by (simp add: push_bit_eq_mult take_bit_nat_eq_self)

lemma unat_align_pow:
  assumes "k < 64" "unat x + 2 ^ k \<le> 2 ^ 64"
  shows "unat (ngx_align_ptr x (push_bit k 1)) = (unat x + (2 ^ k - 1)) div 2 ^ k * 2 ^ k"
proof -
  have m: "push_bit k 1 - (1 :: u64) = mask k" by (simp add: mask_eq_decr_exp push_bit_eq_mult)
  have um: "unat (mask k :: u64) = 2 ^ k - 1"
    unfolding m [symmetric] using assms(1)
    by (subst unat_minus_one) (simp_all only: push_bit_one_neq_0 unat_pow not_False_eq_True)
  have "(1 :: nat) \<le> 2 ^ k" by simp
  then have "unat x + unat (mask k :: u64) < 2 ^ 64" using assms(2) unfolding um by linarith
  then have "unat (x + mask k) = unat x + (2 ^ k - 1)" by (subst unat_plus_no_wrap) (simp_all add: um)
  then show ?thesis unfolding ngx_align_ptr_def m using assms(1) by (simp add: unat_and_not_mask)
qed

lemma align_up_bounds:
  fixes x b :: nat
  assumes "0 < b"
  shows "x \<le> (x + (b - 1)) div b * b" "(x + (b - 1)) div b * b < x + b" "(x + (b - 1)) div b * b mod b = 0"
proof -
  have d: "(x + (b - 1)) div b * b + (x + (b - 1)) mod b = x + (b - 1)" by simp
  have "(x + (b - 1)) mod b < b" using assms by simp
  with d show "x \<le> (x + (b - 1)) div b * b" using assms by linarith
  from d show "(x + (b - 1)) div b * b < x + b" using assms by linarith
qed simp

text \<open>The pages that fit behind the headers, and the number the code settles on.\<close>

lemma pages_that_fit:
  fixes X C E b S :: nat
  assumes "X + C * b \<le> E" "0 < C" "0 < b" and S: "S = (X + (b - 1)) div b * b"
  shows "S \<le> E" "C - 1 \<le> (E - S) div b" "S + min C ((E - S) div b) * b \<le> E"
proof -
  have s: "S < X + b" unfolding S by (rule align_up_bounds) fact
  have c: "C * b = (C - 1) * b + b" using assms(2) by (cases C) simp_all
  show le: "S \<le> E" using s c assms(1) by linarith
  have "(C - 1) * b \<le> E - S" using s c assms(1) by linarith
  then show "C - 1 \<le> (E - S) div b" using assms(3) by (simp add: less_eq_div_iff_mult_less_eq)
  have "min C ((E - S) div b) * b \<le> (E - S) div b * b" by (intro mult_le_mono1) simp
  also have "\<dots> \<le> E - S" by simp
  finally show "S + min C ((E - S) div b) * b \<le> E" using le by linarith
qed

text \<open>
  \<open>j\<close> pages of \<open>b\<close> bytes fit between \<open>q\<close> and \<open>E\<close>: behind their \<open>j\<close> headers, from the next multiple of \<open>b\<close> on.
\<close>

definition pages_fit :: "nat \<Rightarrow> nat \<Rightarrow> nat \<Rightarrow> nat \<Rightarrow> bool" where
  "pages_fit q b E j \<longleftrightarrow> (q + 24 * j + (b - 1)) div b * b + j * b \<le> E"

lemma pages_maximum:
  assumes "C = (E - q) div (b + 24)" "q + (b + 24) \<le> E" "0 < b"
    and S: "S = (q + 24 * C + (b - 1)) div b * b" and N: "N = min C ((E - S) div b)"
  shows "pages_fit q b E N" "N < j \<Longrightarrow> \<not> pages_fit q b E j"
proof -
  have "C * (b + 24) \<le> E - q" using assms(1) by simp
  then have c: "q + 24 * C + C * b \<le> E" using assms(2) by (simp add: algebra_simps)
  have c0: "0 < C" using assms(1-3) by (simp add: div_greater_zero_iff)
  note fit = pages_that_fit [OF c c0 assms(3) S]
  have mono: "(q + 24 * i + (b - 1)) div b * b \<le> (q + 24 * j + (b - 1)) div b * b" if "i \<le> j" for i j
    using that by (intro mult_le_mono1 div_le_mono) simp
  have "(q + 24 * N + (b - 1)) div b * b \<le> S" unfolding S by (rule mono) (simp add: N)
  then show "pages_fit q b E N" using fit(3) unfolding pages_fit_def N [symmetric] by (rule le_trans [OF add_le_mono1])
  show "\<not> pages_fit q b E j" if j: "N < j"
  proof
    assume f: "pages_fit q b E j"
    show False
    proof (cases "N = C")
      case True
      have "q + 24 * j \<le> (q + 24 * j + (b - 1)) div b * b" by (rule align_up_bounds(1)) (rule assms(3))
      then have "j * (b + 24) \<le> E - q" using f unfolding pages_fit_def by (simp add: algebra_simps)
      then have "j \<le> C" using assms(1) by (simp add: less_eq_div_iff_mult_less_eq)
      then show False using j True by simp
    next
      case False
      then have n: "N = (E - S) div b" "C \<le> j" using N fit(2) j by auto
      have "S \<le> (q + 24 * j + (b - 1)) div b * b" unfolding S by (rule mono) (rule n(2))
      then have "j * b \<le> E - S" using f unfolding pages_fit_def by linarith
      then have "j \<le> N" using n(1) assms(3) by (simp add: less_eq_div_iff_mult_less_eq)
      then show False using j by simp
    qed
  qed
qed

lemma page_count:
  assumes "unat (C :: u64) < 2 ^ 62" "unat D < 2 ^ 62"
  shows "unat (if 0 < sint (C - D) then C - (C - D) else C) = min (unat C) (unat D)"
proof -
  have "0 < sint (C - D) \<longleftrightarrow> unat D < unat C"
    unfolding sint_minus_small [OF assms] by linarith
  then show ?thesis by (simp only: min_def diff_diff_eq2 add_diff_cancel_left') auto
qed

lemma le_unat_bound: "n \<le> unat (w :: u64) \<Longrightarrow> n < 2 ^ 64"
  by (rule le_less_trans [of _ "unat w"]) simp_all

lemma unat_plus_64: "unat (x :: u64) + unat y < 2 ^ 64 \<Longrightarrow> unat (x + y) = unat x + unat y"
  by (rule unat_plus_no_wrap) simp

lemma init_pages_run:
  assumes ps: "sz_pagesize cfg = push_bit k 1" "6 \<le> k" "k < 64"
    and zone: "unat pool + 184 \<le> unat p" "0 < unat C"
      "unat p + 24 * unat C + unat C * 2 ^ k \<le> unat (sl_end (sb_pool s))"
  defines "start \<equiv> ngx_align_ptr (page_at p C) (push_bit k 1)"
  defines "m \<equiv> C - (sl_end (sb_pool s) - start) div push_bit k 1"
  defines "n \<equiv> (if 0 < sint m then C - m else C)"
  shows "init_pages cfg pool p C s = Some (s\<lparr>
      sb_pool := (sb_pool s)\<lparr>sl_pages := p, sl_start := start, sl_last := page_at p n, sl_pfree := n,
        sl_log_nomem := True, sl_log_ctx := pool + 160, sl_zero := NUL\<rparr>,
      sb_pages := (zero_array sizeof_ngx_slab_page_t p C zero_page (sb_pages s))
        (slab_free pool \<mapsto> \<lparr>sp_slab = 0, sp_next = p, sp_prev = 0\<rparr>,
         p \<mapsto> \<lparr>sp_slab = n, sp_next = slab_free pool, sp_prev = slab_free pool\<rparr>)\<rparr>)"
    and "unat p + 24 * unat C \<le> unat start" "unat start mod 2 ^ k = 0"
    and "unat start + unat n * 2 ^ k \<le> unat (sl_end (sb_pool s))"
    and "unat n \<le> unat C"
    and "unat n = min (unat C) ((unat (sl_end (sb_pool s)) - (unat p + 24 * unat C + (2 ^ k - 1)) div 2 ^ k * 2 ^ k) div 2 ^ k)"
proof -
  let ?E = "unat (sl_end (sb_pool s))"
  note below = le_unat_bound [of _ "sl_end (sb_pool s)"]
  have k64: "(64 :: nat) \<le> 2 ^ k" using power_increasing [OF ps(2), of "2 :: nat"] by simp
  have ck: "unat C * 2 ^ k \<ge> 64 * unat C" using k64 by (simp add: mult.commute)
  have ck1: "unat C * 2 ^ k \<ge> 2 ^ k" using zone(2) by simp
  have cm: "unat (C * 24) = 24 * unat C"
    by (subst unat_mult_no_wrap, rule below) (use zone(3) ck in simp_all)
  have pc: "unat (page_at p C) = unat p + 24 * unat C"
    by (rule unat_page_at, rule below) (use zone(3) in simp)
  have fr: "unat (slab_free pool) = unat pool + 48"
    unfolding slab_free_def by (subst unat_plus_64, rule below) (use zone ck in simp_all)
  have st: "unat start = (unat p + 24 * unat C + (2 ^ k - 1)) div 2 ^ k * 2 ^ k"
    unfolding start_def pc [symmetric]
    by (rule unat_align_pow [OF ps(3)], rule less_imp_le, rule below) (use zone(3) ck1 pc in linarith)
  note up = align_up_bounds [of "2 ^ k" "unat p + 24 * unat C", folded st]
  note fit = pages_that_fit [of "unat p + 24 * unat C" "unat C" "2 ^ k" ?E, OF zone(3) zone(2) _ st]
  let ?D = "(sl_end (sb_pool s) - start) div push_bit k 1"
  have d: "unat ?D = (?E - unat start) div 2 ^ k"
    using fit(1) ps(3) by (simp only: unat_div unat_minus_le unat_pow zero_less_power zero_less_numeral)
  show "unat p + 24 * unat C \<le> unat start" using up(1) by simp
  show "unat start mod 2 ^ k = 0" using up(3) by simp
  have "4 * unat C < 2 ^ 64" by (rule below) (use zone(3) ck in simp)
  then have "unat C < 2 ^ 62" by simp
  moreover have "(?E - unat start) div 2 ^ k * 2 ^ k \<le> ?E" using div_times_less_eq_dividend [of "?E - unat start" "2 ^ k"] by linarith
  then have "(?E - unat start) div 2 ^ k * 64 \<le> ?E"
    by (rule le_trans [rotated]) (rule mult_le_mono2, rule k64)
  then have "(?E - unat start) div 2 ^ k * 64 < 2 ^ 64" by (rule below)
  then have "unat ?D < 2 ^ 62" unfolding d by simp
  ultimately have n: "unat n = min (unat C) ((?E - unat start) div 2 ^ k)"
    unfolding n_def m_def using page_count [of C ?D] unfolding d by blast
  show "unat start + unat n * 2 ^ k \<le> ?E" unfolding n using fit(3) by simp
  show "unat n \<le> unat C" unfolding n by simp
  show "unat n = min (unat C) ((?E - (unat p + 24 * unat C + (2 ^ k - 1)) div 2 ^ k * 2 ^ k) div 2 ^ k)" unfolding n st ..
  have cz: "in_zone pool t p (unat (C * sizeof_ngx_slab_page_t))" "in_zone pool t (slab_free pool) 24"
    "in_zone pool t p 24" if "sl_end (sb_pool t) = sl_end (sb_pool s)" for t
    unfolding in_zone_def that sizeof_ngx_slab_page_t_def cm fr using zone ck by simp_all
  show "init_pages cfg pool p C s = Some (s\<lparr>
      sb_pool := (sb_pool s)\<lparr>sl_pages := p, sl_start := start, sl_last := page_at p n, sl_pfree := n,
        sl_log_nomem := True, sl_log_ctx := pool + 160, sl_zero := NUL\<rparr>,
      sb_pages := (zero_array sizeof_ngx_slab_page_t p C zero_page (sb_pages s))
        (slab_free pool \<mapsto> \<lparr>sp_slab = 0, sp_next = p, sp_prev = 0\<rparr>,
         p \<mapsto> \<lparr>sp_slab = n, sp_next = slab_free pool, sp_prev = slab_free pool\<rparr>)\<rparr>)"
    by (simp add: init_pages_def zero_pages_def put_page_def cz ps start_def m_def n_def Let_def)
qed

lemma slab_init_geometry:
  assumes ps: "sz_pagesize cfg = push_bit k 1" "sz_pagesize_shift cfg = of_nat k" "6 \<le> k" "k < 64"
    and shift: "unat (sl_min_shift (sb_pool s)) \<le> k" "n = k - unat (sl_min_shift (sb_pool s))"
    and zone: "unat pool + 184 + 56 * n + (2 ^ k + 24) \<le> unat (sl_end (sb_pool s))"
    and fit: "c = (unat (sl_end (sb_pool s)) - (unat pool + 184 + 56 * n)) div (2 ^ k + 24)"
  defines "slots \<equiv> ngx_slab_slots pool"
  defines "nw \<equiv> sz_pagesize_shift cfg - sl_min_shift (sb_pool s)"
  defines "p \<equiv> slots + nw * sizeof_ngx_slab_page_t"
  defines "q \<equiv> p + nw * sizeof_ngx_slab_stat_t"
  defines "sz \<equiv> sl_end (sb_pool s) - slots - nw * (sizeof_ngx_slab_page_t + sizeof_ngx_slab_stat_t)"
  defines "C \<equiv> sz div (sz_pagesize cfg + sizeof_ngx_slab_page_t)"
  shows "unat nw = n" "unat slots = unat pool + 184" "unat p = unat pool + 184 + 24 * n"
    "unat q = unat pool + 184 + 56 * n" "unat (nw * 32) = 32 * n" "unat C = c" "0 < c"
    "unat q + 24 * unat C + unat C * 2 ^ k \<le> unat (sl_end (sb_pool s))"
proof -
  let ?E = "unat (sl_end (sb_pool s))"
  note below = le_unat_bound [of _ "sl_end (sb_pool s)"]
  have kw: "unat (of_nat k :: u64) = k" using ps(4) by (intro unat_of_nat_64) simp
  show n: "unat nw = n" unfolding nw_def using shift kw ps(2) by (simp add: unat_minus_le)
  show slots: "unat slots = unat pool + 184"
    unfolding slots_def ngx_slab_slots_def sizeof_ngx_slab_pool_t_def
    by (subst unat_plus_64, rule below) (use zone in simp_all)
  have n24: "unat (nw * 24) = 24 * n"
    by (subst unat_mult_no_wrap, rule below) (use zone n in simp_all)
  show n32: "unat (nw * 32) = 32 * n"
    by (subst unat_mult_no_wrap, rule below) (use zone n in simp_all)
  have n56: "unat (nw * (sizeof_ngx_slab_page_t + sizeof_ngx_slab_stat_t)) = 56 * n"
    unfolding slab_sizeof_defs by (subst unat_mult_no_wrap, rule below) (use zone n in simp_all)
  show p: "unat p = unat pool + 184 + 24 * n"
    unfolding p_def slab_sizeof_defs by (subst unat_plus_64, rule below) (use zone n24 slots in simp_all)
  show q: "unat q = unat pool + 184 + 56 * n"
    unfolding q_def slab_sizeof_defs by (subst unat_plus_64, rule below) (use zone n32 p in simp_all)
  have "unat (sl_end (sb_pool s) - slots) = ?E - unat slots"
    by (rule unat_minus_le) (use zone slots in simp)
  then have sz: "unat sz = ?E - unat q"
    unfolding sz_def using zone slots n56 q by (subst unat_minus_le) simp_all
  have "unat (sz_pagesize cfg + sizeof_ngx_slab_page_t) = 2 ^ k + 24"
    unfolding slab_sizeof_defs ps(1)
    by (subst unat_plus_64, rule below) (use zone ps(4) unat_pow in simp_all)
  then show C: "unat C = c" unfolding C_def fit unat_div sz q by simp
  have "c * (2 ^ k + 24) \<le> ?E - unat q" unfolding fit q by simp
  moreover show c: "0 < c" unfolding fit using zone by (simp add: div_greater_zero_iff)
  ultimately show "unat q + 24 * unat C + unat C * 2 ^ k \<le> ?E"
    using zone unfolding C q by (simp add: algebra_simps)
qed

lemma slab_fresh_built:
  assumes n: "unat nw = n" and slots: "unat (ngx_slab_slots pool) = unat pool + 184"
    and p: "unat p = unat pool + 184 + 24 * n" and q: "unat q = unat pool + 184 + 56 * n"
    and n32: "unat (nw * 32) = 32 * n"
    and room: "unat q + 24 * unat C \<le> unat start" "unat start mod unat (sz_pagesize cfg) = 0"
      "unat start + unat N * unat (sz_pagesize cfg) \<le> unat (sl_end (sb_pool t))" "unat N \<le> unat C"
    and pages: "sb_pages t = (zero_array sizeof_ngx_slab_page_t q C zero_page F)
        (slab_free pool \<mapsto> \<lparr>sp_slab = 0, sp_next = q, sp_prev = 0\<rparr>,
         q \<mapsto> \<lparr>sp_slab = N, sp_next = slab_free pool, sp_prev = slab_free pool\<rparr>)"
    and F: "\<And>i. unat i < n \<Longrightarrow> F (page_at (ngx_slab_slots pool) i)
        = Some \<lparr>sp_slab = 0, sp_next = page_at (ngx_slab_slots pool) i, sp_prev = 0\<rparr>"
    and stats: "sb_stats t = zero_array sizeof_ngx_slab_stat_t p nw zero_stat f"
    and pool: "sl_stats (sb_pool t) = p" "sl_pages (sb_pool t) = q" "sl_start (sb_pool t) = start"
      "sl_pfree (sb_pool t) = N"
  shows "slab_fresh cfg pool n (unat N) t"
proof -
  note below = le_unat_bound [of _ "sl_end (sb_pool t)"]
  have fr: "unat (slab_free pool) = unat pool + 48"
    unfolding slab_free_def by (subst unat_plus_64, rule below) (use room q in simp_all)
  have c24: "unat (C * 24) = 24 * unat C"
    by (subst unat_mult_no_wrap, rule below) (use room q in simp_all)
  have slot: "unat (page_at (ngx_slab_slots pool) i) = unat pool + 184 + 24 * unat i" if "unat i < n" for i
    unfolding slots [symmetric] by (rule unat_page_at, rule below) (use that room q slots in simp)
  have page: "unat (page_at q i) = unat q + 24 * unat i" if "unat i < unat N" for i
    by (rule unat_page_at, rule below) (use that room in simp)
  have "sb_pages t (page_at (ngx_slab_slots pool) i)
      = Some \<lparr>sp_slab = 0, sp_next = page_at (ngx_slab_slots pool) i, sp_prev = 0\<rparr>" if i: "unat i < n" for i
  proof -
    have "page_at (ngx_slab_slots pool) i \<noteq> slab_free pool" "page_at (ngx_slab_slots pool) i \<noteq> q"
      using slot [OF i] i fr q by (auto dest: arg_cong [of _ _ unat])
    moreover have "zero_array sizeof_ngx_slab_page_t q C zero_page F (page_at (ngx_slab_slots pool) i)
        = F (page_at (ngx_slab_slots pool) i)"
      by (rule zero_array_below, simp add: slot [OF i] q, use i in linarith,
        rule below, unfold slab_sizeof_defs c24) (use room in simp)
    ultimately show ?thesis using F [OF i] by (simp add: pages)
  qed
  moreover have "sb_stats t (stat_at t i) = Some zero_stat" if i: "unat i < n" for i
    unfolding stats stat_at_def pool
    by (rule zero_array_at, use i n in simp, rule below, unfold n slab_sizeof_defs) (use room q in simp_all)
  moreover have "sb_pages t (page_at q i) = Some zero_page" if i: "0 < unat i" "unat i < unat N" for i
  proof -
    have "page_at q i \<noteq> slab_free pool" "page_at q i \<noteq> q"
      using page [OF i(2)] i fr q by (auto dest: arg_cong [of _ _ unat])
    moreover have "zero_array sizeof_ngx_slab_page_t q C zero_page F (page_at q i) = Some zero_page"
      unfolding page_at_def
      by (rule zero_array_at, use i room in simp, rule below, unfold slab_sizeof_defs) (use room in simp_all)
    ultimately show ?thesis by (simp add: pages)
  qed
  moreover have "slab_free pool \<noteq> q" using fr q by (auto dest: arg_cong [of _ _ unat])
  moreover have "slab_layout cfg pool n (unat N) t"
    using p q room by (simp add: slab_layout_def pool Let_def)
  ultimately show ?thesis by (simp add: slab_fresh_def slab_one_run_def pool pages)
qed

subsection \<open>Properties\<close>

text \<open>The steps up to the headers of the pages.\<close>

lemma slab_init_front:
  assumes ps: "sz_pagesize cfg = push_bit k 1" "sz_pagesize_shift cfg = of_nat k" "6 \<le> k" "k < 64"
    and shift: "unat (sl_min_shift (sb_pool s)) \<le> k" "n = k - unat (sl_min_shift (sb_pool s))"
    and zone: "unat pool + 184 + 56 * n + (2 ^ k + 24) \<le> unat (sl_end (sb_pool s))"
    and fit: "c = (unat (sl_end (sb_pool s)) - (unat pool + 184 + 56 * n)) div (2 ^ k + 24)"
  defines "slots \<equiv> ngx_slab_slots pool"
  defines "nw \<equiv> sz_pagesize_shift cfg - sl_min_shift (sb_pool s)"
  defines "p \<equiv> slots + nw * sizeof_ngx_slab_page_t"
  defines "q \<equiv> p + nw * sizeof_ngx_slab_stat_t"
  defines "C \<equiv> (sl_end (sb_pool s) - slots - nw * (sizeof_ngx_slab_page_t + sizeof_ngx_slab_stat_t))
    div (sz_pagesize cfg + sizeof_ngx_slab_page_t)"
  shows "\<exists>t. ngx_slab_init cfg pool s = init_pages cfg pool q C t \<and> sl_end (sb_pool t) = sl_end (sb_pool s)
    \<and> sl_stats (sb_pool t) = p \<and> sl_min_size (sb_pool t) = push_bit (unat (sl_min_shift (sb_pool s))) 1
    \<and> (\<exists>f. sb_stats t = zero_array sizeof_ngx_slab_stat_t p nw zero_stat f)
    \<and> (\<forall>i. unat i < n \<longrightarrow>
          sb_pages t (page_at slots i) = Some \<lparr>sp_slab = 0, sp_next = page_at slots i, sp_prev = 0\<rparr>)"
proof -
  note g = slab_init_geometry [OF assms(1-8), folded slots_def nw_def, folded p_def, folded q_def, folded C_def]
  have sh: "\<not> 64 \<le> unat (sl_min_shift (sb_pool s))" using shift(1) ps(4) by linarith
  define s1 where "s1 = s\<lparr>sb_pool := (sb_pool s)\<lparr>sl_min_size := push_bit (unat (sl_min_shift (sb_pool s))) 1\<rparr>\<rparr>"
  define F where "F = (\<lambda>a. if \<exists>j < n. a = page_at slots (0 + of_nat j)
    then Some \<lparr>sp_slab = 0, sp_next = a, sp_prev = 0\<rparr> else sb_pages s1 a)"
  define s2 where "s2 = s1\<lparr>sb_pages := F\<rparr>\<lparr>sb_pool := (sb_pool (s1\<lparr>sb_pages := F\<rparr>))\<lparr>sl_stats := p\<rparr>\<rparr>"
  define s3 where "s3 = s2\<lparr>sb_stats := zero_array sizeof_ngx_slab_stat_t p nw zero_stat (sb_stats s2)\<rparr>"
  have e: "sl_end (sb_pool s1) = sl_end (sb_pool s)" "sl_end (sb_pool s2) = sl_end (sb_pool s)"
    "sl_end (sb_pool s3) = sl_end (sb_pool s)" by (simp_all add: s1_def s2_def s3_def)
  have run1: "init_slots pool slots (unat nw) 0 s1 = Some (s1\<lparr>sb_pages := F\<rparr>)"
    unfolding F_def g(1) by (rule init_slots_run) (use g zone e in simp_all)
  have run2: "zero_stats pool s2 p nw = Some s3"
    using g zone by (simp add: zero_stats_def in_zone_def e s3_def slab_sizeof_defs)
  have init: "ngx_slab_init cfg pool s = init_pages cfg pool q C s3"
    by (simp only: ngx_slab_init_def Let_def s1_def [symmetric] sh if_False e slots_def [symmetric]
        nw_def [symmetric] p_def [symmetric] run1 run2 s2_def [symmetric] q_def [symmetric]
        C_def [symmetric] Option.bind_lunit)
  have slot: "F (page_at slots i) = Some \<lparr>sp_slab = 0, sp_next = page_at slots i, sp_prev = 0\<rparr>"
    if "unat i < n" for i
    unfolding F_def using that by (auto intro!: exI [of _ "unat i"])
  show ?thesis
    by (rule exI [of _ s3]) (use init slot in \<open>auto simp: s3_def s2_def s1_def\<close>)
qed

lemma slab_init_fresh:
  assumes ps: "sz_pagesize cfg = push_bit k 1" "sz_pagesize_shift cfg = of_nat k" "6 \<le> k" "k < 64"
    and shift: "unat (sl_min_shift (sb_pool s)) \<le> k" "n = k - unat (sl_min_shift (sb_pool s))"
    and zone: "unat pool + 184 + 56 * n + (2 ^ k + 24) \<le> unat (sl_end (sb_pool s))"
  shows "\<exists>s' N. ngx_slab_init cfg pool s = Some s' \<and> slab_fresh cfg pool n N s'
    \<and> pages_fit (unat pool + 184 + 56 * n) (2 ^ k) (unat (sl_end (sb_pool s))) N
    \<and> (\<forall>j > N. \<not> pages_fit (unat pool + 184 + 56 * n) (2 ^ k) (unat (sl_end (sb_pool s))) j)
    \<and> unat (sl_min_size (sb_pool s')) = 2 ^ unat (sl_min_shift (sb_pool s))"
proof -
  define slots where "slots = ngx_slab_slots pool"
  define nw where "nw = sz_pagesize_shift cfg - sl_min_shift (sb_pool s)"
  define p where "p = slots + nw * sizeof_ngx_slab_page_t"
  define q where "q = p + nw * sizeof_ngx_slab_stat_t"
  define C where "C = (sl_end (sb_pool s) - slots - nw * (sizeof_ngx_slab_page_t + sizeof_ngx_slab_stat_t))
    div (sz_pagesize cfg + sizeof_ngx_slab_page_t)"
  note g = slab_init_geometry [OF assms refl, folded slots_def nw_def, folded p_def, folded q_def, folded C_def]
  obtain s3 f where init: "ngx_slab_init cfg pool s = init_pages cfg pool q C s3"
    and s3: "sl_end (sb_pool s3) = sl_end (sb_pool s)" "sl_stats (sb_pool s3) = p"
      "sl_min_size (sb_pool s3) = push_bit (unat (sl_min_shift (sb_pool s))) 1"
      "sb_stats s3 = zero_array sizeof_ngx_slab_stat_t p nw zero_stat f"
    and slot: "\<And>i. unat i < n \<Longrightarrow> sb_pages s3 (page_at slots i)
      = Some \<lparr>sp_slab = 0, sp_next = page_at slots i, sp_prev = 0\<rparr>"
    using slab_init_front [OF assms refl, folded slots_def nw_def, folded p_def, folded q_def, folded C_def] by blast
  have c: "unat pool + 184 \<le> unat q" "0 < unat C"
    "unat q + 24 * unat C + unat C * 2 ^ k \<le> unat (sl_end (sb_pool s3))"
    using g zone unfolding s3(1) by simp_all
  define start where "start = ngx_align_ptr (page_at q C) (push_bit k 1)"
  define N where "N = (let m = C - (sl_end (sb_pool s3) - start) div push_bit k 1 in if 0 < sint m then C - m else C)"
  note i = init_pages_run [OF ps(1,3,4) c, folded start_def, folded N_def [unfolded Let_def]]
  obtain t where run: "init_pages cfg pool q C s3 = Some t"
    and pages: "sb_pages t = (zero_array sizeof_ngx_slab_page_t q C zero_page (sb_pages s3))
        (slab_free pool \<mapsto> \<lparr>sp_slab = 0, sp_next = q, sp_prev = 0\<rparr>,
         q \<mapsto> \<lparr>sp_slab = N, sp_next = slab_free pool, sp_prev = slab_free pool\<rparr>)"
    and stats: "sb_stats t = zero_array sizeof_ngx_slab_stat_t p nw zero_stat f"
    and t: "sl_stats (sb_pool t) = p" "sl_pages (sb_pool t) = q" "sl_start (sb_pool t) = start"
      "sl_pfree (sb_pool t) = N" "sl_end (sb_pool t) = sl_end (sb_pool s3)"
      "sl_min_size (sb_pool t) = push_bit (unat (sl_min_shift (sb_pool s))) 1"
    using i(1) by (simp add: s3)
  have pw: "unat (sz_pagesize cfg) = 2 ^ k" unfolding ps(1) using ps(4) by (rule unat_pow)
  have "slab_fresh cfg pool n (unat N) t"
    by (rule slab_fresh_built [OF g(1) _ g(3,4,5) i(2) _ _ i(5) pages _ stats t(1-4), folded slots_def])
      (use g(2) i(3,4) t(5) slot pw in simp_all)
  moreover have "unat (sl_min_size (sb_pool t)) = 2 ^ unat (sl_min_shift (sb_pool s))"
    unfolding t using shift(1) ps(4) by (intro unat_pow) linarith
  moreover note pages_maximum [OF g(6) _ _ _ i(6) [unfolded s3(1)], unfolded g(4), OF zone _ refl]
  ultimately show ?thesis using run init by auto
qed

definition demo_slab_sizes :: slab_sizes where
  "demo_slab_sizes = \<lparr>sz_pagesize = 4096, sz_pagesize_shift = 12, sz_max_size = 2048, sz_exact_size = 64, sz_exact_shift = 6\<rparr>"

definition demo_zone :: slab where
  "demo_zone = \<lparr>sb_pool = \<lparr>sl_min_size = 0, sl_min_shift = 3, sl_pages = NULL, sl_last = NULL, sl_stats = NULL,
     sl_pfree = 0, sl_start = NULL, sl_end = 20480, sl_log_ctx = NULL, sl_zero = NUL, sl_log_nomem = False\<rparr>,
     sb_pages = (\<lambda>a. None), sb_stats = (\<lambda>a. None)\<rparr>"

text \<open>
  C11: on a zone that holds at least one page with its header, \<^verbatim>\<open>ngx_slab_init\<close> stays inside the
  zone and lays it out as a fresh pool: empty slots, cleared statistics, and one free run of exactly as
  many page-aligned pages as fit behind their headers: that many do, and no greater number does.
\<close>

theorem ngx_slab_init_correct:
  assumes "sz_pagesize cfg = push_bit k 1" "sz_pagesize_shift cfg = of_nat k" "6 \<le> k" "k < 64"
    and "unat (sl_min_shift (sb_pool s)) \<le> k" "n = k - unat (sl_min_shift (sb_pool s))"
    and "unat pool + 184 + 56 * n + (2 ^ k + 24) \<le> unat (sl_end (sb_pool s))"
  shows "\<exists>s' N. ngx_slab_init cfg pool s = Some s' \<and> slab_fresh cfg pool n N s'
    \<and> pages_fit (unat pool + 184 + 56 * n) (2 ^ k) (unat (sl_end (sb_pool s))) N
    \<and> (\<forall>j > N. \<not> pages_fit (unat pool + 184 + 56 * n) (2 ^ k) (unat (sl_end (sb_pool s))) j)
    \<and> unat (sl_min_size (sb_pool s')) = 2 ^ unat (sl_min_shift (sb_pool s))"
  using assms by (rule slab_init_fresh)

lemma demo_slab_values:
  "sz_pagesize demo_slab_sizes = push_bit 12 1" "sz_pagesize_shift demo_slab_sizes = of_nat 12"
  "unat (sl_min_shift (sb_pool demo_zone)) = 3" "unat (sl_end (sb_pool demo_zone)) = 20480"
  by (simp_all add: demo_slab_sizes_def push_bit_eq_mult demo_zone_def)

lemma demo_pages: "pages_fit (4096 + 184 + 56 * 9) (2 ^ 12) 20480 N \<Longrightarrow>
  \<forall>j > N. \<not> pages_fit (4096 + 184 + 56 * 9) (2 ^ 12) 20480 j \<Longrightarrow> N = 3"
proof -
  have f: "pages_fit (4096 + 184 + 56 * 9) (2 ^ 12) 20480 3" by (simp add: pages_fit_def)
  assume "pages_fit (4096 + 184 + 56 * 9) (2 ^ 12) 20480 N" "\<forall>j > N. \<not> pages_fit (4096 + 184 + 56 * 9) (2 ^ 12) 20480 j"
  then have "N * 2 ^ 12 + 4784 \<le> 20480" "3 \<le> N"
    using f align_up_bounds(1) [of "2 ^ 12" "4784 + 24 * N"] by (auto simp: pages_fit_def not_less [symmetric])
  then show ?thesis by simp
qed

theorem ngx_slab_init_correct_witness:
  "\<exists>s. ngx_slab_init demo_slab_sizes 4096 demo_zone = Some s \<and> slab_fresh demo_slab_sizes 4096 9 3 s
    \<and> unat (sl_min_size (sb_pool s)) = 8"
proof -
  have "\<exists>s N. ngx_slab_init demo_slab_sizes 4096 demo_zone = Some s \<and> slab_fresh demo_slab_sizes 4096 9 N s
    \<and> pages_fit (unat (4096 :: u64) + 184 + 56 * 9) (2 ^ 12) (unat (sl_end (sb_pool demo_zone))) N
    \<and> (\<forall>j > N. \<not> pages_fit (unat (4096 :: u64) + 184 + 56 * 9) (2 ^ 12) (unat (sl_end (sb_pool demo_zone))) j)
    \<and> unat (sl_min_size (sb_pool s)) = 2 ^ unat (sl_min_shift (sb_pool demo_zone))"
    by (rule ngx_slab_init_correct [OF demo_slab_values(1,2)]) (simp_all add: demo_slab_values)
  then show ?thesis using demo_pages by (fastforce simp: demo_slab_values)
qed

text \<open>The free list of a pool with a single free run, and what taking its first page does to it.\<close>

lemma one_run_addresses:
  assumes "slab_one_run cfg pool n k s" "0 < k"
  shows "unat (slab_free pool) = unat pool + 48" "in_zone pool s (slab_free pool) 24"
    and "\<And>i. unat i < k \<Longrightarrow> unat (page_at (sl_pages (sb_pool s)) i) = unat (sl_pages (sb_pool s)) + 24 * unat i"
    and "\<And>i. unat i < k \<Longrightarrow> in_zone pool s (page_at (sl_pages (sb_pool s)) i) 24"
    and "\<And>i. unat i < k \<Longrightarrow> page_at (sl_pages (sb_pool s)) i \<noteq> slab_free pool"
    and "\<And>i. unat i < k \<Longrightarrow> 0 < unat i \<Longrightarrow> page_at (sl_pages (sb_pool s)) i \<noteq> sl_pages (sb_pool s)"
    and "unat (of_nat k :: u64) = k" "sl_pages (sb_pool s) \<noteq> slab_free pool" "in_zone pool s (sl_pages (sb_pool s)) 24"
proof -
  let ?p = "unat (sl_pages (sb_pool s))"
  have l: "?p = unat pool + 184 + 56 * n" "?p + 24 * k \<le> unat (sl_end (sb_pool s))"
    using assms(1) unfolding slab_one_run_def slab_layout_def Let_def by linarith+
  note below = le_unat_bound [of _ "sl_end (sb_pool s)"]
  show f: "unat (slab_free pool) = unat pool + 48"
    unfolding slab_free_def by (subst unat_plus_64, rule below) (use l in simp_all)
  show "in_zone pool s (slab_free pool) 24" using l by (simp add: in_zone_def f)
  show p: "unat (page_at (sl_pages (sb_pool s)) i) = ?p + 24 * unat i" if "unat i < k" for i
    by (rule unat_page_at, rule below) (use that l in simp)
  show "in_zone pool s (page_at (sl_pages (sb_pool s)) i) 24" if "unat i < k" for i
    using that l by (simp add: in_zone_def p)
  show "page_at (sl_pages (sb_pool s)) i \<noteq> slab_free pool" if "unat i < k" for i
    using p [OF that] f l by (auto dest: arg_cong [of _ _ unat])
  show "page_at (sl_pages (sb_pool s)) i \<noteq> sl_pages (sb_pool s)" if "unat i < k" "0 < unat i" for i
    using p [OF that(1)] that(2) by (auto dest: arg_cong [of _ _ unat])
  show "unat (of_nat k :: u64) = k" by (rule unat_of_nat_64, rule below) (use l in simp)
  show "sl_pages (sb_pool s) \<noteq> slab_free pool" using f l by (auto dest: arg_cong [of _ _ unat])
  show "in_zone pool s (sl_pages (sb_pool s)) 24" using l assms(2) by (simp add: in_zone_def)
qed

lemma in_zone_update [simp]: "in_zone pool (s\<lparr>sb_pages := f\<rparr>) a m = in_zone pool s a m"
  by (simp add: in_zone_def)

lemma split_run_one:
  assumes fresh: "slab_one_run cfg pool n k s" and k: "2 \<le> k"
  shows "\<exists>f. split_run pool (sl_pages (sb_pool s)) 1 s = Some (s\<lparr>sb_pages := f\<rparr>)
    \<and> f (sl_pages (sb_pool s)) = Some \<lparr>sp_slab = of_nat k, sp_next = slab_free pool, sp_prev = slab_free pool\<rparr>
    \<and> f (page_at (sl_pages (sb_pool s)) 1) = Some \<lparr>sp_slab = of_nat k - 1, sp_next = slab_free pool, sp_prev = slab_free pool\<rparr>
    \<and> f (slab_free pool) = Some \<lparr>sp_slab = 0, sp_next = slab_free pool, sp_prev = slab_free pool\<rparr>
    \<and> (\<forall>a. unat pool + 184 \<le> unat a \<longrightarrow> unat a < unat (sl_pages (sb_pool s)) \<longrightarrow> f a = sb_pages s a)"
proof -
  have k0: "0 < k" using k by simp
  note ad = one_run_addresses [OF fresh k0]
  have last: "unat (of_nat k - 1 :: u64) = k - 1" using ad(7) k by (subst unat_minus_1) auto
  have "0 < unat (of_nat k - 1 :: u64)" "unat (of_nat k - 1 :: u64) < k" using last k by simp_all
  moreover have "a \<noteq> slab_free pool" "a \<noteq> sl_pages (sb_pool s)" "a \<noteq> page_at (sl_pages (sb_pool s)) 1"
      "a \<noteq> page_at (sl_pages (sb_pool s)) (of_nat k - 1)"
    if "unat pool + 184 \<le> unat a" "unat a < unat (sl_pages (sb_pool s))" for a
    using that ad(1) ad(3) [of 1] ad(3) [of "of_nat k - 1"] last k by auto
  ultimately show ?thesis
    using fresh k ad(1,2,8,9) ad(4,5,6) [of 1] ad(4,5,6) [of "of_nat k - 1"] unfolding slab_one_run_def
    by (auto simp: split_run_def upd_page_def put_page_def zero_page_def)
qed

lemma take_run_one:
  assumes fresh: "slab_one_run cfg pool n k s" and k: "2 \<le> k"
  shows "\<exists>s'. take_run pool (sl_pages (sb_pool s)) 1 s = Some s'
    \<and> sb_pages s' (sl_pages (sb_pool s)) = Some \<lparr>sp_slab = 1 OR NGX_SLAB_PAGE_START, sp_next = NULL, sp_prev = NGX_SLAB_PAGE\<rparr>
    \<and> sb_pages s' (page_at (sl_pages (sb_pool s)) 1) = Some \<lparr>sp_slab = of_nat k - 1, sp_next = slab_free pool, sp_prev = slab_free pool\<rparr>
    \<and> sb_pages s' (slab_free pool) = Some \<lparr>sp_slab = 0, sp_next = slab_free pool, sp_prev = slab_free pool\<rparr>
    \<and> sb_pool s' = (sb_pool s)\<lparr>sl_pfree := sl_pfree (sb_pool s) - 1\<rparr> \<and> sb_stats s' = sb_stats s
    \<and> (\<forall>a. unat pool + 184 \<le> unat a \<longrightarrow> unat a < unat (sl_pages (sb_pool s)) \<longrightarrow> sb_pages s' a = sb_pages s a)"
proof -
  have k0: "0 < k" using k by simp
  note ad = one_run_addresses [OF fresh k0]
  obtain f where f: "split_run pool (sl_pages (sb_pool s)) 1 s = Some (s\<lparr>sb_pages := f\<rparr>)"
    "f (sl_pages (sb_pool s)) = Some \<lparr>sp_slab = of_nat k, sp_next = slab_free pool, sp_prev = slab_free pool\<rparr>"
    "f (page_at (sl_pages (sb_pool s)) 1) = Some \<lparr>sp_slab = of_nat k - 1, sp_next = slab_free pool, sp_prev = slab_free pool\<rparr>"
    "f (slab_free pool) = Some \<lparr>sp_slab = 0, sp_next = slab_free pool, sp_prev = slab_free pool\<rparr>"
    "\<forall>a. unat pool + 184 \<le> unat a \<longrightarrow> unat a < unat (sl_pages (sb_pool s)) \<longrightarrow> f a = sb_pages s a"
    using split_run_one [OF assms] by blast
  have "(1 :: u64) < of_nat k" using ad(7) k by (simp add: word_less_nat_alt)
  then show ?thesis
    using fresh f k ad(8,9) ad(6) [of 1] unfolding slab_one_run_def
    by (auto simp: take_run_def upd_page_def put_page_def)
qed

lemma alloc_pages_empty:
  "sb_pages s (slab_free pool) = Some h \<Longrightarrow> sp_next h = slab_free pool \<Longrightarrow> ngx_slab_alloc_pages pool m s = None"
  by (simp add: ngx_slab_alloc_pages_def, subst alloc_pages_scan.simps) simp

lemma alloc_pages_one_run:
  assumes "slab_one_run cfg pool n k s" "2 \<le> k"
  shows "\<exists>s'. ngx_slab_alloc_pages pool 1 s = Some (sl_pages (sb_pool s), s')
    \<and> sb_pages s' (sl_pages (sb_pool s)) = Some \<lparr>sp_slab = 1 OR NGX_SLAB_PAGE_START, sp_next = NULL, sp_prev = NGX_SLAB_PAGE\<rparr>
    \<and> unat (sl_pfree (sb_pool s')) = k - 1
    \<and> sb_pages s' (page_at (sl_pages (sb_pool s)) 1) = Some \<lparr>sp_slab = of_nat k - 1, sp_next = slab_free pool, sp_prev = slab_free pool\<rparr>
    \<and> sb_pool s' = (sb_pool s)\<lparr>sl_pfree := sl_pfree (sb_pool s) - 1\<rparr> \<and> sb_stats s' = sb_stats s
    \<and> (\<forall>a. unat pool + 184 \<le> unat a \<longrightarrow> unat a < unat (sl_pages (sb_pool s)) \<longrightarrow> sb_pages s' a = sb_pages s a)
    \<and> sb_pages s' (slab_free pool) = Some \<lparr>sp_slab = 0, sp_next = slab_free pool, sp_prev = slab_free pool\<rparr>
    \<and> (\<forall>m. ngx_slab_alloc_pages pool m s' = None)"
proof -
  have k0: "0 < k" using assms(2) by simp
  note ad = one_run_addresses [OF assms(1) k0]
  obtain s' where s': "take_run pool (sl_pages (sb_pool s)) 1 s = Some s'"
    "sb_pages s' (sl_pages (sb_pool s)) = Some \<lparr>sp_slab = 1 OR NGX_SLAB_PAGE_START, sp_next = NULL, sp_prev = NGX_SLAB_PAGE\<rparr>"
    "sb_pages s' (page_at (sl_pages (sb_pool s)) 1) = Some \<lparr>sp_slab = of_nat k - 1, sp_next = slab_free pool, sp_prev = slab_free pool\<rparr>"
    "sb_pages s' (slab_free pool) = Some \<lparr>sp_slab = 0, sp_next = slab_free pool, sp_prev = slab_free pool\<rparr>"
    "sb_pool s' = (sb_pool s)\<lparr>sl_pfree := sl_pfree (sb_pool s) - 1\<rparr>" "sb_stats s' = sb_stats s"
    "\<forall>a. unat pool + 184 \<le> unat a \<longrightarrow> unat a < unat (sl_pages (sb_pool s)) \<longrightarrow> sb_pages s' a = sb_pages s a"
    using take_run_one [OF assms] by blast
  have pf: "unat (sl_pfree (sb_pool s)) = k" using assms(1) by (simp add: slab_one_run_def)
  then have "unat (sl_pfree (sb_pool s')) = k - 1" using k0 s'(5) by (simp, subst unat_minus_1) auto
  moreover have "(1 :: u64) \<le> of_nat k" using ad(7) k0 by (simp add: word_le_nat_alt)
  then have "ngx_slab_alloc_pages pool 1 s = Some (sl_pages (sb_pool s), s')"
    using assms(1) ad(8) s'(1) unfolding slab_one_run_def ngx_slab_alloc_pages_def
    by (simp, subst alloc_pages_scan.simps) simp
  ultimately show ?thesis using s' alloc_pages_empty [OF s'(4)] by simp
qed

text \<open>
  The first page a fresh pool of \<open>k \<ge> 2\<close> pages hands out is its page 0, marked as the start of
  a run of one page. The count of free pages drops to \<open>k - 1\<close>, and page 1 becomes the header of the
  remaining run, but the free list is left empty, so every later request for pages finds nothing
  and runs off the end of the function.
\<close>

theorem ngx_slab_alloc_pages_first:
  assumes "slab_fresh cfg pool n k s" "2 \<le> k"
  shows "\<exists>s'. ngx_slab_alloc_pages pool 1 s = Some (sl_pages (sb_pool s), s')
    \<and> sb_pages s' (sl_pages (sb_pool s)) = Some \<lparr>sp_slab = 1 OR NGX_SLAB_PAGE_START, sp_next = NULL, sp_prev = NGX_SLAB_PAGE\<rparr>
    \<and> unat (sl_pfree (sb_pool s')) = k - 1
    \<and> sb_pages s' (page_at (sl_pages (sb_pool s)) 1) = Some \<lparr>sp_slab = of_nat k - 1, sp_next = slab_free pool, sp_prev = slab_free pool\<rparr>
    \<and> (\<forall>m. ngx_slab_alloc_pages pool m s' = None)"
  using alloc_pages_one_run [of cfg pool n k s] assms by (auto simp: slab_fresh_def)

lemma demo_slab_fresh:
  "\<exists>s. ngx_slab_init demo_slab_sizes 4096 demo_zone = Some s \<and> slab_fresh demo_slab_sizes 4096 9 3 s
    \<and> unat (sl_min_size (sb_pool s)) = 8"
proof -
  have "\<exists>s N. ngx_slab_init demo_slab_sizes 4096 demo_zone = Some s \<and> slab_fresh demo_slab_sizes 4096 9 N s
    \<and> pages_fit (unat (4096 :: u64) + 184 + 56 * 9) (2 ^ 12) (unat (sl_end (sb_pool demo_zone))) N
    \<and> (\<forall>j > N. \<not> pages_fit (unat (4096 :: u64) + 184 + 56 * 9) (2 ^ 12) (unat (sl_end (sb_pool demo_zone))) j)
    \<and> unat (sl_min_size (sb_pool s)) = 2 ^ unat (sl_min_shift (sb_pool demo_zone))"
    by (rule slab_init_fresh [OF demo_slab_values(1,2)]) (simp_all add: demo_slab_values)
  then show ?thesis using demo_pages by (fastforce simp: demo_slab_values)
qed

theorem ngx_slab_alloc_pages_first_witness:
  "\<exists>s s'. ngx_slab_init demo_slab_sizes 4096 demo_zone = Some s
    \<and> ngx_slab_alloc_pages 4096 1 s = Some (sl_pages (sb_pool s), s') \<and> ngx_slab_alloc_pages 4096 1 s' = None"
proof -
  obtain s where s: "ngx_slab_init demo_slab_sizes 4096 demo_zone = Some s"
    and fresh: "slab_fresh demo_slab_sizes 4096 9 3 s"
    using demo_slab_fresh by blast
  show ?thesis using s ngx_slab_alloc_pages_first [OF fresh] by fastforce
qed

text \<open>
  C38: a request that needs a size class, one above the pool's smallest chunk and above 2 bytes,
  never returns: the loop that computes the class does not change its condition, and its
  unfolding, which has no other way to fail, gives no result.
\<close>

theorem ngx_slab_alloc_locked_diverges:
  assumes "sl_min_size (sb_pool s) < sz" "2 < sz"
  shows "shift_loop (sz - 1) 1 = None \<and> ngx_slab_alloc_locked cfg pool slot p sz s = None"
  using assms large_shift_loop [of sz] by (simp add: ngx_slab_alloc_locked_def size_class_def)

theorem ngx_slab_alloc_locked_diverges_witness:
  "ngx_slab_alloc_locked demo_slab_sizes 4096 0 0 1024 demo_zone = None"
  using ngx_slab_alloc_locked_diverges [of demo_zone 1024 demo_slab_sizes 4096 0 0] by (simp add: demo_zone_def)

text \<open>
  For a page of \<open>2 ^ k\<close> bytes the largest chunk is half a page, and the exact size, at which one
  word has a bit for every chunk of a page, is \<open>2 ^ (k - 6)\<close>; the loop ends and adds \<open>k - 6\<close> to the
  exact shift, so 4096-byte pages give 6.
\<close>

theorem ngx_slab_sizes_init_correct:
  assumes "sz_pagesize cfg = push_bit k 1" "6 \<le> k" "k < 64"
  shows "sz_max_size (ngx_slab_sizes_init cfg) = push_bit (k - 1) 1
    \<and> sz_exact_size (ngx_slab_sizes_init cfg) = push_bit (k - 6) 1
    \<and> sz_exact_shift (ngx_slab_sizes_init cfg) = sz_exact_shift cfg + of_nat (k - 6)"
proof -
  have d: "push_bit k 1 div 2 ^ j = push_bit (k - j) (1 :: u64)" if "j \<le> k" for j
  proof -
    have "drop_bit j (push_bit k (1 :: u64)) = push_bit (k - j) 1"
      using that assms(3) by (intro bit_eqI) (auto simp: bit_simps)
    then show ?thesis by (simp only: drop_bit_eq_div)
  qed
  have "push_bit k (1 :: u64) div 2 = push_bit (k - 1) 1" "push_bit k (1 :: u64) div (8 * 8) = push_bit (k - 6) 1"
    using d [of 1] d [of 6] assms(2) by simp_all
  moreover have "exact_shift_loop (push_bit (k - 6) 1) e = e + of_nat (k - 6)" for e
    by (rule exact_shift_loop_pow) (use assms(3) in simp)
  ultimately show ?thesis
    by (simp only: ngx_slab_sizes_init_def Let_def assms(1)) simp
qed

theorem ngx_slab_sizes_init_correct_witness:
  "sz_exact_shift (ngx_slab_sizes_init (demo_slab_sizes\<lparr>sz_exact_shift := 0\<rparr>)) = 6"
  using ngx_slab_sizes_init_correct [of "demo_slab_sizes\<lparr>sz_exact_shift := 0\<rparr>" 12]
  by (simp add: demo_slab_sizes_def)

end
