(* ===== verification/Ngx_Slab_Alloc.thy ===== *)
theory Ngx_Slab_Alloc
  imports Ngx_Slab
begin

text \<open>
  Serving requests from a fresh slab pool (\<^verbatim>\<open>ngx_slab_alloc_locked\<close> of \<^verbatim>\<open>src/core/ngx_slab.c\<close>): what the first
  small request does to the zone, and what is left for the requests after it.
\<close>

subsection \<open>The first small request\<close>

lemma one_run_slots:
  assumes "slab_one_run cfg pool n k s" "unat i < n"
  shows "unat (page_at (ngx_slab_slots pool) i) = unat pool + 184 + 24 * unat i"
    and "in_zone pool s (page_at (ngx_slab_slots pool) i) 24" "in_zone pool s (stat_at s i) 32"
    and "page_at (ngx_slab_slots pool) i \<noteq> sl_pages (sb_pool s)"
    and "unat (page_at (ngx_slab_slots pool) i) < unat (sl_pages (sb_pool s))"
proof -
  let ?p = "unat (sl_stats (sb_pool s))"
  have l: "?p = unat pool + 184 + 24 * n" "?p + 32 * n \<le> unat (sl_end (sb_pool s))"
    "unat (sl_pages (sb_pool s)) = ?p + 32 * n"
    using assms(1) unfolding slab_one_run_def slab_layout_def Let_def by linarith+
  note below = le_unat_bound [of _ "sl_end (sb_pool s)"]
  have b: "unat (ngx_slab_slots pool) = unat pool + 184"
    unfolding ngx_slab_slots_def slab_sizeof_defs by (subst unat_plus_64, rule below) (use l in simp_all)
  show slot: "unat (page_at (ngx_slab_slots pool) i) = unat pool + 184 + 24 * unat i"
    unfolding b [symmetric] by (rule unat_page_at, rule below) (use b l assms(2) in simp)
  have st: "unat (stat_at s i) = ?p + 32 * unat i"
    by (rule unat_stat_at, rule below) (use l assms(2) in simp)
  show "in_zone pool s (page_at (ngx_slab_slots pool) i) 24" "in_zone pool s (stat_at s i) 32"
    using slot st l assms(2) by (simp_all add: in_zone_def)
  show "unat (page_at (ngx_slab_slots pool) i) < unat (sl_pages (sb_pool s))" using slot l assms(2) by simp
  then show "page_at (ngx_slab_slots pool) i \<noteq> sl_pages (sb_pool s)" by auto
qed

lemma upd_page_some:
  "sb_pages s a = Some r \<Longrightarrow> in_zone pool s a 24 \<Longrightarrow> upd_page pool s a f = Some (s\<lparr>sb_pages := (sb_pages s)(a \<mapsto> f r)\<rparr>)"
  by (simp add: upd_page_def put_page_def)

lemma upd_stat_some:
  "sb_stats s a = Some r \<Longrightarrow> in_zone pool s a 32 \<Longrightarrow> upd_stat pool s a f = Some (s\<lparr>sb_stats := (sb_stats s)(a \<mapsto> f r)\<rparr>)"
  by (simp add: upd_stat_def put_stat_def)

text \<open>The header of a page of large chunks, the first of them taken, in the list of a slot.\<close>

definition chunk_page :: "addr \<Rightarrow> u64 \<Rightarrow> u64 \<Rightarrow> ngx_slab_page_t" where
  "chunk_page pool slot shift = \<lparr>sp_slab = push_bit NGX_SLAB_MAP_SHIFT 1 OR shift,
     sp_next = page_at (ngx_slab_slots pool) slot, sp_prev = page_at (ngx_slab_slots pool) slot OR NGX_SLAB_BIG\<rparr>"

text \<open>What filling in a page of large chunks does, once the page is taken.\<close>

lemma alloc_page_chunk_run:
  assumes page: "ngx_slab_alloc_pages pool 1 s = Some (page, t)" "page \<noteq> NULL" "sb_pages t page = Some r"
    and shift: "sz_exact_shift cfg < shift" "unat shift < 64"
    and slot: "sb_pages t (page_at (ngx_slab_slots pool) slot) = Some h" "page_at (ngx_slab_slots pool) slot \<noteq> page"
    and stat: "sb_stats t (stat_at t slot) = Some u"
    and zone: "in_zone pool t page 24" "in_zone pool t (page_at (ngx_slab_slots pool) slot) 24"
      "in_zone pool t (stat_at t slot) 32"
  shows "alloc_page_chunk cfg pool slot shift p s = Some (ngx_slab_page_addr cfg t page,
      t\<lparr>sb_pages := (sb_pages t)(page \<mapsto> chunk_page pool slot shift,
            page_at (ngx_slab_slots pool) slot \<mapsto> h\<lparr>sp_next := page\<rparr>),
        sb_stats := (sb_stats t)(stat_at t slot \<mapsto> u\<lparr>ss_total := ss_total u + drop_bit (unat shift) (sz_pagesize cfg),
            ss_used := ss_used u + 1\<rparr>)\<rparr>)"
proof -
  let ?S = "page_at (ngx_slab_slots pool) slot"
  define t1 where "t1 = t\<lparr>sb_pages := (sb_pages t)(page \<mapsto> chunk_page pool slot shift)\<rparr>"
  define t2 where "t2 = t1\<lparr>sb_pages := (sb_pages t1)(?S \<mapsto> h\<lparr>sp_next := page\<rparr>)\<rparr>"
  define u1 where "u1 = u\<lparr>ss_total := ss_total u + drop_bit (unat shift) (sz_pagesize cfg)\<rparr>"
  define t3 where "t3 = t2\<lparr>sb_stats := (sb_stats t2)(stat_at t slot \<mapsto> u1)\<rparr>"
  define t4 where "t4 = t3\<lparr>sb_stats := (sb_stats t3)(stat_at t slot \<mapsto> u1\<lparr>ss_used := ss_used u1 + 1\<rparr>)\<rparr>"
  have pool: "sb_pool t1 = sb_pool t" "sb_pool t2 = sb_pool t" "sb_pool t3 = sb_pool t"
    by (simp_all add: t1_def t2_def t3_def)
  have st: "stat_at t2 slot = stat_at t slot" "stat_at t3 slot = stat_at t slot"
    by (simp_all add: stat_at_def pool)
  have z: "in_zone pool t1 x m = in_zone pool t x m" "in_zone pool t2 x m = in_zone pool t x m"
    "in_zone pool t3 x m = in_zone pool t x m" for x m by (simp_all add: in_zone_def pool)
  have "upd_page pool t page (\<lambda>q. q\<lparr>sp_slab := push_bit NGX_SLAB_MAP_SHIFT 1 OR shift,
      sp_next := ?S, sp_prev := ?S OR NGX_SLAB_BIG\<rparr>) = Some t1"
    by (subst upd_page_some [OF page(3) zone(1)], cases r) (simp add: t1_def chunk_page_def)
  moreover have "upd_page pool t1 ?S (\<lambda>q. q\<lparr>sp_next := page\<rparr>) = Some t2"
    unfolding t2_def by (rule upd_page_some) (use slot zone(2) z in \<open>simp_all add: t1_def\<close>)
  moreover have "upd_stat pool t2 (stat_at t slot) (\<lambda>v. v\<lparr>ss_total := ss_total v + drop_bit (unat shift) (sz_pagesize cfg)\<rparr>) = Some t3"
    unfolding t3_def u1_def by (rule upd_stat_some) (use stat zone(3) z in \<open>simp_all add: t1_def t2_def\<close>)
  moreover have "upd_stat pool t3 (stat_at t slot) (\<lambda>v. v\<lparr>ss_used := ss_used v + 1\<rparr>) = Some t4"
    unfolding t4_def by (rule upd_stat_some) (use zone(3) z in \<open>simp_all add: t3_def\<close>)
  moreover have "ngx_slab_page_addr cfg t3 page = ngx_slab_page_addr cfg t page"
    by (simp add: ngx_slab_page_addr_def pool)
  moreover have sh: "\<not> 64 \<le> unat shift" using shift(2) by simp
  ultimately have "alloc_page_chunk cfg pool slot shift p s = Some (ngx_slab_page_addr cfg t page, t4)"
    using page(2) shift(1)
    by (simp only: alloc_page_chunk_def page(1) Option.bind_lunit prod.case Let_def simp_thms if_True if_False st)
  then show ?thesis by (simp add: t1_def t2_def t3_def t4_def u1_def)
qed


lemma alloc_locked_small_run:
  assumes fresh: "slab_fresh cfg pool n k s" and k: "2 \<le> k" and slot: "unat slot < n"
    and size: "\<not> sl_min_size (sb_pool s) < sz" "sz_exact_shift cfg < sl_min_size (sb_pool s)"
      "unat (sl_min_size (sb_pool s)) < 64"
  shows "\<exists>t. ngx_slab_alloc_locked cfg pool slot p sz s = Some (sl_start (sb_pool s),
      t\<lparr>sb_pages := (sb_pages t)(sl_pages (sb_pool s) \<mapsto> chunk_page pool slot (sl_min_size (sb_pool s)),
            page_at (ngx_slab_slots pool) slot \<mapsto> \<lparr>sp_slab = 0, sp_next = sl_pages (sb_pool s), sp_prev = 0\<rparr>),
        sb_stats := (sb_stats s)(stat_at s slot \<mapsto> \<lparr>ss_total = drop_bit (unat (sl_min_size (sb_pool s))) (sz_pagesize cfg),
            ss_used = 1, ss_reqs = 1, ss_fails = 0\<rparr>)\<rparr>)
    \<and> sb_pool t = (sb_pool s)\<lparr>sl_pfree := sl_pfree (sb_pool s) - 1\<rparr> \<and> unat (sl_pfree (sb_pool t)) = k - 1
    \<and> sb_pages t (slab_free pool) = Some \<lparr>sp_slab = 0, sp_next = slab_free pool, sp_prev = slab_free pool\<rparr>
    \<and> (\<forall>i. unat i < n \<longrightarrow> sb_pages t (page_at (ngx_slab_slots pool) i) = sb_pages s (page_at (ngx_slab_slots pool) i))"
proof -
  let ?P = "sl_pages (sb_pool s)" and ?S = "page_at (ngx_slab_slots pool) slot" and ?m = "sl_min_size (sb_pool s)"
  define s1 where "s1 = s\<lparr>sb_stats := (sb_stats s)(stat_at s slot \<mapsto> zero_stat\<lparr>ss_reqs := 1\<rparr>)\<rparr>"
  have one: "slab_one_run cfg pool n k s" and z: "sb_stats s (stat_at s slot) = Some zero_stat"
    using fresh slot by (simp_all add: slab_fresh_def)
  have one1: "slab_one_run cfg pool n k s1"
    using one by (simp add: s1_def slab_one_run_def slab_layout_def)
  note sl = one_run_slots [OF one slot]
  have k0: "0 < k" using k by simp
  note ad = one_run_addresses [OF one k0]
  have h: "sb_pages s1 ?S = Some \<lparr>sp_slab = 0, sp_next = ?S, sp_prev = 0\<rparr>"
    using one slot by (simp add: slab_one_run_def s1_def)
  have req: "upd_stat pool s (stat_at s slot) (\<lambda>t. t\<lparr>ss_reqs := ss_reqs t + 1\<rparr>) = Some s1"
    using z sl(3) by (simp add: upd_stat_def put_stat_def s1_def zero_stat_def)
  obtain t where t: "ngx_slab_alloc_pages pool 1 s1 = Some (?P, t)"
    "sb_pages t ?P = Some \<lparr>sp_slab = 1 OR NGX_SLAB_PAGE_START, sp_next = NULL, sp_prev = NGX_SLAB_PAGE\<rparr>"
    "sb_pool t = (sb_pool s)\<lparr>sl_pfree := sl_pfree (sb_pool s) - 1\<rparr>" "sb_stats t = sb_stats s1"
    "unat (sl_pfree (sb_pool t)) = k - 1"
    "sb_pages t (slab_free pool) = Some \<lparr>sp_slab = 0, sp_next = slab_free pool, sp_prev = slab_free pool\<rparr>"
    "\<forall>a. unat pool + 184 \<le> unat a \<longrightarrow> unat a < unat ?P \<longrightarrow> sb_pages t a = sb_pages s a"
    using alloc_pages_one_run [OF one1 k] by (auto simp: s1_def)
  have keep: "sb_pages t (page_at (ngx_slab_slots pool) i) = sb_pages s (page_at (ngx_slab_slots pool) i)" if "unat i < n" for i
    using t(7) one_run_slots(1,5) [OF one that] by simp
  have nn: "?P \<noteq> NULL" using sl(5) by auto
  have zn: "in_zone pool t ?S 24" "in_zone pool t (stat_at s slot) 32" "in_zone pool t ?P 24"
    using sl(2,3) ad(9) by (simp_all add: in_zone_def t(3))
  have st: "stat_at t slot = stat_at s slot" by (simp add: stat_at_def t(3))
  have start: "ngx_slab_page_addr cfg t ?P = sl_start (sb_pool s)" by (simp add: ngx_slab_page_addr_def t(3))
  have stat: "sb_stats t (stat_at t slot) = Some (zero_stat\<lparr>ss_reqs := 1\<rparr>)"
    unfolding st t(4) by (simp add: s1_def)
  have slot2: "sb_pages t ?S = Some \<lparr>sp_slab = 0, sp_next = ?S, sp_prev = 0\<rparr>"
    using keep [OF slot] h by (simp add: s1_def)
  note run = alloc_page_chunk_run [OF t(1) nn t(2) size(2,3) slot2 sl(4) stat zn(3,1) zn(2) [folded st], of p, unfolded start st]
  have "ngx_slab_alloc_locked cfg pool slot p sz s = alloc_page_chunk cfg pool slot ?m p s1"
    using size(1) req h by (simp add: ngx_slab_alloc_locked_def size_class_def Let_def)
  with run t(3-6) keep show ?thesis by (intro exI [of _ t]) (simp add: zero_stat_def s1_def)
qed

text \<open>
  A request of at most the smallest chunk, where the smallest size, which the code takes for a
  shift, is above the exact shift, and the slot it never sets happens to be a valid one: a fresh
  pool answers with its first page, enters it in that slot as a page of large
  chunks with one chunk taken, and counts the request.
\<close>

theorem ngx_slab_alloc_locked_small:
  assumes "slab_fresh cfg pool n k s" "2 \<le> k" "unat slot < n"
    and "\<not> sl_min_size (sb_pool s) < sz" "sz_exact_shift cfg < sl_min_size (sb_pool s)"
      "unat (sl_min_size (sb_pool s)) < 64"
  shows "\<exists>s'. ngx_slab_alloc_locked cfg pool slot p sz s = Some (sl_start (sb_pool s), s')
    \<and> sb_pages s' (page_at (ngx_slab_slots pool) slot) = Some \<lparr>sp_slab = 0, sp_next = sl_pages (sb_pool s), sp_prev = 0\<rparr>
    \<and> sb_pages s' (sl_pages (sb_pool s)) = Some \<lparr>sp_slab = push_bit NGX_SLAB_MAP_SHIFT 1 OR sl_min_size (sb_pool s),
        sp_next = page_at (ngx_slab_slots pool) slot, sp_prev = page_at (ngx_slab_slots pool) slot OR NGX_SLAB_BIG\<rparr>
    \<and> sb_stats s' (stat_at s slot) = Some \<lparr>ss_total = drop_bit (unat (sl_min_size (sb_pool s))) (sz_pagesize cfg),
        ss_used = 1, ss_reqs = 1, ss_fails = 0\<rparr>
    \<and> unat (sl_pfree (sb_pool s')) = k - 1"
proof -
  have "slab_one_run cfg pool n k s" using assms(1) by (simp add: slab_fresh_def)
  from one_run_slots(4) [OF this assms(3)] show ?thesis
    using alloc_locked_small_run [OF assms, of p] by (auto simp: chunk_page_def)
qed

lemma demo_slab_min:
  "\<exists>s. ngx_slab_init demo_slab_sizes 4096 demo_zone = Some s \<and> slab_fresh demo_slab_sizes 4096 9 3 s
    \<and> sl_min_size (sb_pool s) = 8"
proof -
  have "x = 8" if "unat x = 8" for x :: u64
  proof -
    have "x = of_nat (unat x)" by simp
    then show ?thesis unfolding that by simp
  qed
  then show ?thesis using demo_slab_fresh by blast
qed

theorem ngx_slab_alloc_locked_small_witness:
  "\<exists>s s'. ngx_slab_init demo_slab_sizes 4096 demo_zone = Some s
    \<and> ngx_slab_alloc_locked demo_slab_sizes 4096 2 0 8 s = Some (sl_start (sb_pool s), s')
    \<and> sb_stats s' (stat_at s 2) = Some \<lparr>ss_total = 16, ss_used = 1, ss_reqs = 1, ss_fails = 0\<rparr>"
proof -
  obtain s where s: "ngx_slab_init demo_slab_sizes 4096 demo_zone = Some s"
    and fresh: "slab_fresh demo_slab_sizes 4096 9 3 s" "(2 :: nat) \<le> 3" and m8: "sl_min_size (sb_pool s) = 8"
    using demo_slab_min by auto
  have d: "drop_bit 8 (4096 :: u64) = 16" by (simp add: drop_bit_eq_div)
  show ?thesis
    using s ngx_slab_alloc_locked_small [OF fresh, of 2 8 0] m8 d by (auto simp: demo_slab_sizes_def)
qed

subsection \<open>After the first request\<close>

text \<open>
  A pool that has served a request from \<open>slot\<close>: no free page is listed, the page in that slot has its only
  visible chunk taken, and the other slots are empty.
\<close>

definition slab_spent :: "addr \<Rightarrow> nat \<Rightarrow> u64 \<Rightarrow> slab \<Rightarrow> bool" where
  "slab_spent pool n slot s \<longleftrightarrow>
     (\<exists>h. sb_pages s (slab_free pool) = Some h \<and> sp_next h = slab_free pool) \<and>
     (\<exists>h r. sb_pages s (page_at (ngx_slab_slots pool) slot) = Some h \<and> sb_pages s (sp_next h) = Some r
        \<and> sp_slab r AND push_bit NGX_SLAB_MAP_SHIFT 1 \<noteq> 0) \<and>
     (\<forall>i. unat i < n \<longrightarrow> in_zone pool s (stat_at s i) 32 \<and> sb_stats s (stat_at s i) \<noteq> None) \<and>
     (\<forall>i. unat i < n \<longrightarrow> i \<noteq> slot \<longrightarrow> (\<exists>h. sb_pages s (page_at (ngx_slab_slots pool) i) = Some h
        \<and> sp_next h = page_at (ngx_slab_slots pool) i))"

lemma chunk_loop_diverges:
  assumes "m AND msk \<noteq> 0" "bits AND m \<noteq> 0"
  shows "chunk_loop bits m msk i = None"
proof (cases "chunk_loop bits m msk i")
  case (Some y)
  have "m AND msk \<noteq> 0 \<longrightarrow> bits AND m \<noteq> 0 \<longrightarrow> False"
    using Some
    by (rule chunk_loop.raw_induct [where P = "\<lambda>bits m msk i y. m AND msk \<noteq> 0 \<longrightarrow> bits AND m \<noteq> 0 \<longrightarrow> False", rotated])
      (metis option.distinct(1))
  then show ?thesis using assms by blast
qed

lemma alloc_chunk_full:
  assumes "sb_pages s page = Some r" "sp_slab r AND push_bit NGX_SLAB_MAP_SHIFT 1 \<noteq> 0"
  shows "alloc_chunk cfg pool page slot shift s \<in> {None, Some (None, s)}"
proof -
  let ?m = "push_bit NGX_SLAB_MAP_SHIFT (1 :: u64)"
  let ?k = "push_bit (unat (drop_bit (unat shift) (sz_pagesize cfg))) 1 - 1 :: u64"
  have "chunk_loop (sp_slab r) ?m ?k 0 \<in> {None, Some None}"
    using chunk_loop_diverges [OF _ assms(2)] by (cases "?m AND ?k = 0") (auto simp: chunk_loop.simps)
  then show ?thesis using assms(1) by (auto simp: alloc_chunk_def Let_def)
qed

lemma alloc_page_chunk_empty:
  "sb_pages s (slab_free pool) = Some h \<Longrightarrow> sp_next h = slab_free pool \<Longrightarrow> alloc_page_chunk cfg pool slot shift p s = None"
  using alloc_pages_empty [of s pool h 1] by (simp add: alloc_page_chunk_def)

lemma spent_alloc_none:
  assumes spent: "slab_spent pool n slot s" and i: "unat i < n" and sz: "2 < sz \<or> \<not> sl_min_size (sb_pool s) < sz"
  shows "ngx_slab_alloc_locked cfg pool i p sz s = None"
proof (cases "sl_min_size (sb_pool s) < sz")
  case True
  then have "shift_loop (sz - 1) 1 = None" using sz large_shift_loop by simp
  then show ?thesis using True by (simp add: ngx_slab_alloc_locked_def size_class_def)
next
  case False
  let ?S = "page_at (ngx_slab_slots pool) i"
  obtain u where u: "sb_stats s (stat_at s i) = Some u" "in_zone pool s (stat_at s i) 32"
    using spent i unfolding slab_spent_def by blast
  define s1 where "s1 = s\<lparr>sb_stats := (sb_stats s)(stat_at s i \<mapsto> u\<lparr>ss_reqs := ss_reqs u + 1\<rparr>)\<rparr>"
  have req: "upd_stat pool s (stat_at s i) (\<lambda>t. t\<lparr>ss_reqs := ss_reqs t + 1\<rparr>) = Some s1"
    unfolding s1_def by (rule upd_stat_some [OF u])
  have pages: "sb_pages s1 = sb_pages s" by (simp add: s1_def)
  have none: "alloc_page_chunk cfg pool i shift p s1 = None" for shift
    using spent alloc_page_chunk_empty [of s1] unfolding pages slab_spent_def by blast
  obtain h r where h: "sb_pages s ?S = Some h" "sb_pages s (sp_next h) = Some r"
    "sp_next h = ?S \<and> r = h \<or> sp_slab r AND push_bit NGX_SLAB_MAP_SHIFT 1 \<noteq> 0"
    using spent i unfolding slab_spent_def by (cases "i = slot") force+
  have "(if sp_next r \<noteq> sp_next h \<and> sz_exact_shift cfg < sl_min_size (sb_pool s)
      then alloc_chunk cfg pool (sp_next h) i (sl_min_size (sb_pool s)) s1 else Some (None, s1)) \<in> {None, Some (None, s1)}"
    using h(3) alloc_chunk_full [of s1 "sp_next h" r cfg pool i "sl_min_size (sb_pool s)"] h(2) by (auto simp: pages)
  then show ?thesis
    using False h(1,2) none req by (auto simp: ngx_slab_alloc_locked_def size_class_def Let_def pages)
qed

lemma alloc_locked_small_spent:
  assumes fresh: "slab_fresh cfg pool n k s" and k: "2 \<le> k" and slot: "unat slot < n"
    and size: "\<not> sl_min_size (sb_pool s) < sz" "sz_exact_shift cfg < sl_min_size (sb_pool s)"
      "unat (sl_min_size (sb_pool s)) < 64"
    and run: "ngx_slab_alloc_locked cfg pool slot p sz s = Some (a, s')"
  shows "a = sl_start (sb_pool s) \<and> slab_spent pool n slot s' \<and> sl_min_size (sb_pool s') = sl_min_size (sb_pool s)"
proof -
  let ?P = "sl_pages (sb_pool s)" and ?S = "page_at (ngx_slab_slots pool)" and ?m = "sl_min_size (sb_pool s)"
  have one: "slab_one_run cfg pool n k s" using fresh by (simp add: slab_fresh_def)
  have k0: "0 < k" using k by simp
  note ad = one_run_addresses [OF one k0]
  note sl = one_run_slots [OF one]
  obtain t where t: "(a, s') = (sl_start (sb_pool s),
      t\<lparr>sb_pages := (sb_pages t)(?P \<mapsto> chunk_page pool slot ?m, ?S slot \<mapsto> \<lparr>sp_slab = 0, sp_next = ?P, sp_prev = 0\<rparr>),
        sb_stats := (sb_stats s)(stat_at s slot \<mapsto> \<lparr>ss_total = drop_bit (unat ?m) (sz_pagesize cfg), ss_used = 1, ss_reqs = 1, ss_fails = 0\<rparr>)\<rparr>)"
    "sb_pool t = (sb_pool s)\<lparr>sl_pfree := sl_pfree (sb_pool s) - 1\<rparr>"
    "sb_pages t (slab_free pool) = Some \<lparr>sp_slab = 0, sp_next = slab_free pool, sp_prev = slab_free pool\<rparr>"
    "\<forall>i. unat i < n \<longrightarrow> sb_pages t (?S i) = sb_pages s (?S i)"
    using alloc_locked_small_run [OF fresh k slot size, of p] run by auto
  have free: "slab_free pool \<noteq> ?S slot" "slab_free pool \<noteq> ?P"
    using ad(1,8) sl(1) [OF slot] by (auto dest: arg_cong [of _ _ unat])
  have "?S i \<noteq> ?S slot" if "unat i < n" "i \<noteq> slot" for i
    using sl(1) [OF that(1)] sl(1) [OF slot] that(2) by (auto simp: word_eq_iff_unsigned [where ?'a = nat])
  then have others: "sb_pages s' (?S i) = Some \<lparr>sp_slab = 0, sp_next = ?S i, sp_prev = 0\<rparr>"
    if "unat i < n" "i \<noteq> slot" for i
    using that t(1,4) one sl(4) [OF that(1)] by (simp add: slab_one_run_def)
  have "(push_bit NGX_SLAB_MAP_SHIFT 1 OR ?m) AND push_bit NGX_SLAB_MAP_SHIFT 1 \<noteq> 0"
    using push_bit_one_neq_0 [of NGX_SLAB_MAP_SHIFT]
    by (simp add: bit.conj_disj_distrib2 NGX_SLAB_MAP_SHIFT_def)
  moreover have "stat_at s' i = stat_at s i" "in_zone pool s' b m = in_zone pool s b m" for i b m
    using t(1,2) by (simp_all add: stat_at_def in_zone_def)
  moreover have "sb_stats s (stat_at s i) = Some zero_stat" if "unat i < n" for i
    using that fresh by (simp add: slab_fresh_def)
  ultimately have "slab_spent pool n slot s'"
    unfolding slab_spent_def using t(1,3) free sl(3) sl(4) [OF slot] slot others by (auto simp: chunk_page_def)
  then show ?thesis using t(1,2) by simp
qed

text \<open>
  C12: a fresh slab pool of at least two pages serves one small request: one of at most the smallest chunk size, where that
  size, which the code takes for a shift, lies between the exact shift and 64 and is not below 2, and the slot, which the code
  leaves unset, happens to be in range. The pool answers it with its first page. Every later request, of whatever size and
  with whatever slot in range, has no result: it finds no chunk and no free page and runs off
  the end of \<open>ngx_slab_alloc_pages\<close>, loops over the bits of the page, or loops over the size class.
\<close>

theorem ngx_slab_serves_once:
  assumes "slab_fresh cfg pool n k s" "2 \<le> k" "unat slot < n"
    and "\<not> sl_min_size (sb_pool s) < sz" "sz_exact_shift cfg < sl_min_size (sb_pool s)"
      "unat (sl_min_size (sb_pool s)) < 64" "2 \<le> sl_min_size (sb_pool s)"
  shows "\<exists>s'. ngx_slab_alloc_locked cfg pool slot p sz s = Some (sl_start (sb_pool s), s')
    \<and> (\<forall>i q m. unat i < n \<longrightarrow> ngx_slab_alloc_locked cfg pool i q m s' = None)"
proof -
  obtain s' where run: "ngx_slab_alloc_locked cfg pool slot p sz s = Some (sl_start (sb_pool s), s')"
    using alloc_locked_small_run [OF assms(1-6), of p] by blast
  have spent: "slab_spent pool n slot s'" "sl_min_size (sb_pool s') = sl_min_size (sb_pool s)"
    using alloc_locked_small_spent [OF assms(1-6) run] by simp_all
  have "ngx_slab_alloc_locked cfg pool i q m s' = None" if "unat i < n" for i q m
    using assms(7) spent(2) that by (intro spent_alloc_none [OF spent(1)]) (auto simp: not_less)
  with run show ?thesis by blast
qed

theorem ngx_slab_serves_once_witness:
  "\<exists>s s'. ngx_slab_init demo_slab_sizes 4096 demo_zone = Some s
    \<and> ngx_slab_alloc_locked demo_slab_sizes 4096 2 0 8 s = Some (sl_start (sb_pool s), s')
    \<and> ngx_slab_alloc_locked demo_slab_sizes 4096 5 0 8 s' = None"
proof -
  obtain s where s: "ngx_slab_init demo_slab_sizes 4096 demo_zone = Some s"
    and fresh: "slab_fresh demo_slab_sizes 4096 9 3 s" and m: "sl_min_size (sb_pool s) = 8"
    using demo_slab_min by blast
  have small: "(2 :: nat) \<le> 3" "unat (2 :: u64) < 9" "\<not> sl_min_size (sb_pool s) < 8" "sz_exact_shift demo_slab_sizes < sl_min_size (sb_pool s)"
    "unat (sl_min_size (sb_pool s)) < 64" "2 \<le> sl_min_size (sb_pool s)" by (simp_all add: m demo_slab_sizes_def)
  then show ?thesis using s ngx_slab_serves_once [OF fresh small, of 0] by fastforce
qed

end
