(* ===== verification/Ngx_Shmem.thy ===== *)
theory Ngx_Shmem
  imports Ngx_String
begin

text \<open>
  \<^verbatim>\<open>src/os/unix/ngx_shmem.c\<close>, the branch for \<^verbatim>\<open>MAP_ANON\<close>: a zone of shared memory is mapped and
  unmapped. The mappings of the process are a map from their address to their length; \<^verbatim>\<open>mmap\<close>
  and \<^verbatim>\<open>munmap\<close> are parameters.
\<close>

type_synonym mappings = "addr \<Rightarrow> u64 option"

record ngx_shm_t =
  sm_addr :: addr
  sm_size :: u64
  sm_name :: ngx_str_t
  sm_exists :: u64

text \<open>\<open>(void *) -1\<close>\<close>

definition MAP_FAILED :: addr where "MAP_FAILED = -1"

text \<open>\<open>mmap size ms\<close> is the address of the new mapping, or \<open>MAP_FAILED\<close>.\<close>

definition mmap_anon :: "(u64 \<Rightarrow> mappings \<Rightarrow> addr) \<Rightarrow> u64 \<Rightarrow> mappings \<Rightarrow> addr \<times> mappings" where
  "mmap_anon mmap sz ms = (let a = mmap sz ms in (a, if a = MAP_FAILED then ms else ms(a \<mapsto> sz)))"

text \<open>The condition assigns: its value is the pointer \<open>MAP_FAILED\<close>, which is not null.\<close>

definition ngx_shm_alloc :: "(u64 \<Rightarrow> mappings \<Rightarrow> addr) \<Rightarrow> ngx_shm_t \<Rightarrow> mappings \<Rightarrow> u64 \<times> ngx_shm_t \<times> mappings" where
  "ngx_shm_alloc mmap shm ms =
     (let (a, ms) = mmap_anon mmap (sm_size shm) ms;
          shm = shm\<lparr>sm_addr := a\<rparr>;
          shm = shm\<lparr>sm_addr := MAP_FAILED\<rparr>
      in if sm_addr shm \<noteq> NULL then (NGX_ERROR, shm, ms) else (NGX_OK, shm, ms))"

text \<open>\<open>munmap a n ms\<close> is whether the call succeeds, and the mappings after it; a failure is only logged.\<close>

definition ngx_shm_free :: "(addr \<Rightarrow> u64 \<Rightarrow> mappings \<Rightarrow> bool \<times> mappings) \<Rightarrow> ngx_shm_t \<Rightarrow> mappings \<Rightarrow> mappings" where
  "ngx_shm_free munmap shm ms = (let (ok, ms) = munmap (sm_addr shm) (sm_size shm) ms in ms)"

text \<open>\<^verbatim>\<open>munmap\<close> refuses an address that is not a multiple of the page size, and changes nothing then.\<close>

definition munmap_aligned :: "u64 \<Rightarrow> (addr \<Rightarrow> u64 \<Rightarrow> mappings \<Rightarrow> bool \<times> mappings) \<Rightarrow> bool" where
  "munmap_aligned pagesize munmap \<longleftrightarrow> (\<forall>a n ms. a mod pagesize \<noteq> 0 \<longrightarrow> munmap a n ms = (False, ms))"

text \<open>
  C39: \<^verbatim>\<open>ngx_shm_alloc\<close> fails whatever \<^verbatim>\<open>mmap\<close> answers, and leaves \<open>MAP_FAILED\<close> as the address of the zone.
  When \<^verbatim>\<open>mmap\<close> failed nothing is mapped; when the mapping was made, its address is lost, and giving the zone back
  with \<^verbatim>\<open>ngx_shm_free\<close> leaves it mapped.
\<close>

theorem ngx_shm_alloc_leaks:
  assumes "munmap_aligned 4096 munmap"
  shows "\<exists>shm' ms'. ngx_shm_alloc mmap shm ms = (NGX_ERROR, shm', ms') \<and> sm_addr shm' = MAP_FAILED
    \<and> ms' = (if mmap (sm_size shm) ms = MAP_FAILED then ms else ms(mmap (sm_size shm) ms \<mapsto> sm_size shm))
    \<and> ngx_shm_free munmap shm' ms' = ms'"
proof -
  have "munmap MAP_FAILED n m = (False, m)" for n m
    using assms by (simp add: munmap_aligned_def MAP_FAILED_def)
  then show ?thesis
    by (simp add: ngx_shm_alloc_def mmap_anon_def ngx_shm_free_def MAP_FAILED_def Let_def)
qed

definition demo_munmap :: "addr \<Rightarrow> u64 \<Rightarrow> mappings \<Rightarrow> bool \<times> mappings" where
  "demo_munmap a n ms = (if a mod 4096 = 0 then (True, ms(a := None)) else (False, ms))"

theorem ngx_shm_alloc_leaks_witness:
  "\<exists>shm' ms'. ngx_shm_alloc (\<lambda>sz ms. 8192) \<lparr>sm_addr = NULL, sm_size = 4096, sm_name = ngx_null_string, sm_exists = 0\<rparr>
      (\<lambda>a. None) = (NGX_ERROR, shm', ms') \<and> sm_addr shm' = MAP_FAILED
    \<and> ngx_shm_free demo_munmap shm' ms' 8192 = Some 4096"
proof -
  have "munmap_aligned 4096 demo_munmap" by (simp add: munmap_aligned_def demo_munmap_def)
  from ngx_shm_alloc_leaks [OF this, of "\<lambda>sz ms. 8192"
      "\<lparr>sm_addr = NULL, sm_size = 4096, sm_name = ngx_null_string, sm_exists = 0\<rparr>" "\<lambda>a. None"]
  show ?thesis by (auto simp: MAP_FAILED_def)
qed

subsection \<open>Without anonymous mappings\<close>

text \<open>
  The branch for \<^verbatim>\<open>MAP_DEVZERO\<close> maps the file \<^verbatim>\<open>/dev/zero\<close>. \<open>op fds\<close> is what \<^verbatim>\<open>open\<close> answers while the
  descriptors \<open>fds\<close> are in use, \<open>cl fd fds\<close> whether \<^verbatim>\<open>close\<close> succeeds, and the descriptors after it.
\<close>

record os =
  os_fds :: "u32 set"
  os_maps :: mappings

definition open_devzero :: "(u32 set \<Rightarrow> u32) \<Rightarrow> os \<Rightarrow> u32 \<times> os" where
  "open_devzero op os = (let fd = op (os_fds os) in
     (fd, if fd = -1 then os else os\<lparr>os_fds := insert fd (os_fds os)\<rparr>))"

definition ngx_shm_alloc_devzero ::
  "(u32 set \<Rightarrow> u32) \<Rightarrow> (u64 \<Rightarrow> mappings \<Rightarrow> addr) \<Rightarrow> (u32 \<Rightarrow> u32 set \<Rightarrow> bool \<times> u32 set) \<Rightarrow> ngx_shm_t \<Rightarrow> os
    \<Rightarrow> u64 \<times> ngx_shm_t \<times> os" where
  "ngx_shm_alloc_devzero op mmap cl shm os =
     (let (fd, os) = open_devzero op os in
      if fd = -1 then (NGX_ERROR, shm, os)
      else
        let (a, ms) = mmap_anon mmap (sm_size shm) (os_maps os);
            shm = shm\<lparr>sm_addr := a\<rparr>;
            (ok, fds) = cl fd (os_fds os);
            os = os\<lparr>os_fds := fds, os_maps := ms\<rparr>
        in (if sm_addr shm = MAP_FAILED then NGX_ERROR else NGX_OK, shm, os))"

definition ngx_shm_free_devzero :: "(addr \<Rightarrow> u64 \<Rightarrow> mappings \<Rightarrow> bool \<times> mappings) \<Rightarrow> ngx_shm_t \<Rightarrow> os \<Rightarrow> os" where
  "ngx_shm_free_devzero munmap shm os =
     (let (ok, ms) = munmap (sm_addr shm) (sm_size shm) (os_maps os) in os\<lparr>os_maps := ms\<rparr>)"

text \<open>The documented behaviour of the system calls; on Linux \<^verbatim>\<open>close\<close> releases the descriptor even when it fails.\<close>

definition open_fresh :: "(u32 set \<Rightarrow> u32) \<Rightarrow> bool" where
  "open_fresh op \<longleftrightarrow> (\<forall>fds. op fds \<noteq> -1 \<longrightarrow> op fds \<notin> fds)"

definition close_releases :: "(u32 \<Rightarrow> u32 set \<Rightarrow> bool \<times> u32 set) \<Rightarrow> bool" where
  "close_releases cl \<longleftrightarrow> (\<forall>fd fds. fd \<in> fds \<longrightarrow> snd (cl fd fds) = fds - {fd})"

definition mmap_fresh :: "(u64 \<Rightarrow> mappings \<Rightarrow> addr) \<Rightarrow> bool" where
  "mmap_fresh mmap \<longleftrightarrow> (\<forall>n ms. mmap n ms \<noteq> MAP_FAILED \<longrightarrow> ms (mmap n ms) = None)"

definition munmap_releases :: "(addr \<Rightarrow> u64 \<Rightarrow> mappings \<Rightarrow> bool \<times> mappings) \<Rightarrow> bool" where
  "munmap_releases munmap \<longleftrightarrow> (\<forall>a n ms. ms a = Some n \<longrightarrow> munmap a n ms = (True, ms(a := None)))"

text \<open>
  C40: \<^verbatim>\<open>ngx_shm_alloc\<close> over \<^verbatim>\<open>/dev/zero\<close> answers \<open>NGX_OK\<close> exactly when the file was opened and mapped. Then the
  zone is mapped with its size at an address that was free, and \<^verbatim>\<open>ngx_shm_free\<close> takes the system back
  to where it was; otherwise nothing is left behind. No descriptor outlives the call, even when \<^verbatim>\<open>close\<close>
  reports a failure.
\<close>

theorem ngx_shm_devzero_roundtrip:
  assumes "open_fresh op" "close_releases cl" "mmap_fresh mmap" "munmap_releases munmap"
    "ngx_shm_alloc_devzero op mmap cl shm os = (rc, shm', os')"
  shows "rc = (if op (os_fds os) \<noteq> -1 \<and> mmap (sm_size shm) (os_maps os) \<noteq> MAP_FAILED then NGX_OK else NGX_ERROR)
    \<and> os_fds os' = os_fds os \<and> sm_size shm' = sm_size shm
    \<and> (if rc = NGX_OK
       then sm_addr shm' \<noteq> MAP_FAILED \<and> os_maps os (sm_addr shm') = None \<and> os_maps os' (sm_addr shm') = Some (sm_size shm)
         \<and> ngx_shm_free_devzero munmap shm' os' = os
       else os' = os)"
proof (cases "op (os_fds os) = -1")
  case True
  then show ?thesis
    using assms(5) by (auto simp: ngx_shm_alloc_devzero_def open_devzero_def NGX_OK_def NGX_ERROR_def)
next
  case False
  let ?fd = "op (os_fds os)" and ?a = "mmap (sm_size shm) (os_maps os)"
  have "?fd \<notin> os_fds os" using assms(1) False by (simp add: open_fresh_def)
  then have fds: "snd (cl ?fd (insert ?fd (os_fds os))) = os_fds os"
    using assms(2) by (simp add: close_releases_def)
  have run: "rc = (if ?a = MAP_FAILED then NGX_ERROR else NGX_OK)" "shm' = shm\<lparr>sm_addr := ?a\<rparr>"
    "os' = os\<lparr>os_maps := if ?a = MAP_FAILED then os_maps os else (os_maps os)(?a \<mapsto> sm_size shm)\<rparr>"
    using assms(5) False fds
    by (auto simp: ngx_shm_alloc_devzero_def open_devzero_def mmap_anon_def Let_def split_beta)
  show ?thesis
  proof (cases "?a = MAP_FAILED")
    case True
    then show ?thesis using run False by (simp add: NGX_OK_def NGX_ERROR_def)
  next
    case mapped: False
    then have "os_maps os ?a = None" using assms(3) by (simp add: mmap_fresh_def)
    moreover from this have "ngx_shm_free_devzero munmap shm' os' = os"
      using assms(4) run mapped
      by (simp add: munmap_releases_def ngx_shm_free_devzero_def fun_upd_idem)
    ultimately show ?thesis using run False mapped by (simp add: NGX_OK_def)
  qed
qed

definition demo_os :: os where "demo_os = \<lparr>os_fds = {0, 1, 2}, os_maps = \<lambda>a. None\<rparr>"

definition demo_shm :: ngx_shm_t where
  "demo_shm = \<lparr>sm_addr = NULL, sm_size = 4096, sm_name = ngx_null_string, sm_exists = 0\<rparr>"

theorem ngx_shm_devzero_roundtrip_witness:
  "\<exists>shm' os'. ngx_shm_alloc_devzero (\<lambda>fds. if 3 \<in> fds then -1 else 3) (\<lambda>n ms. if ms 8192 = None then 8192 else MAP_FAILED)
      (\<lambda>fd fds. (False, fds - {fd})) demo_shm demo_os = (NGX_OK, shm', os')
    \<and> ngx_shm_free_devzero (\<lambda>a n ms. if ms a = None then (False, ms) else (True, ms(a := None))) shm' os' = demo_os"
proof -
  let ?op = "\<lambda>fds. if 3 \<in> fds then -1 else 3 :: u32"
  let ?mmap = "\<lambda>n ms. if ms 8192 = None then 8192 else MAP_FAILED"
  let ?cl = "\<lambda>fd fds. (False, fds - {fd})"
  let ?munmap = "\<lambda>a n ms. if ms a = None then (False, ms) else (True, ms(a := None))"
  obtain rc shm' os' where r: "ngx_shm_alloc_devzero ?op ?mmap ?cl demo_shm demo_os = (rc, shm', os')"
    by (metis prod_cases3)
  have "open_fresh ?op" "close_releases ?cl" "mmap_fresh ?mmap" "munmap_releases ?munmap"
    by (auto simp: open_fresh_def close_releases_def mmap_fresh_def munmap_releases_def MAP_FAILED_def)
  from ngx_shm_devzero_roundtrip [OF this r] r show ?thesis
    by (auto simp: demo_os_def MAP_FAILED_def)
qed

end
