(* ===== verification/Ngx_Files.thy ===== *)
theory Ngx_Files
  imports Ngx_String
begin

text \<open>
  \<^verbatim>\<open>src/os/unix/ngx_files.c\<close> and \<^verbatim>\<open>ngx_files.h\<close>: reading a file at an offset. The system call
  \<^verbatim>\<open>pread\<close> is a parameter: the bytes read, or \<open>None\<close> when it fails.
\<close>

record ngx_file_t =
  fi_fd :: u32
  fi_name :: ngx_str_t
  fi_offset :: u64
  fi_sys_offset :: u64

type_synonym pread = "u32 \<Rightarrow> u64 \<Rightarrow> u64 \<Rightarrow> char list option"

definition NGX_FILE_CREATE_OR_OPEN :: u32 where "NGX_FILE_CREATE_OR_OPEN = 0x40"
definition NGX_FILE_APPEND :: u32 where "NGX_FILE_APPEND = 1 OR 0x400"
definition NGX_FILE_DEFAULT_ACCESS :: u32 where "NGX_FILE_DEFAULT_ACCESS = 0x1a4"

text \<open>\<^verbatim>\<open>ngx_linefeed(p)\<close> for a position in the object \<open>mem\<close>.\<close>

definition ngx_linefeed :: "char list \<Rightarrow> nat \<Rightarrow> (char list \<times> nat) option" where
  "ngx_linefeed mem p = do { mem \<leftarrow> poke mem p LF; Some (mem, p + 1) }"

definition ngx_read_file ::
  "pread \<Rightarrow> ngx_file_t \<Rightarrow> char list \<Rightarrow> nat \<Rightarrow> u64 \<Rightarrow> u64 \<Rightarrow> (u64 \<times> ngx_file_t \<times> char list) option" where
  "ngx_read_file pread file mem buf sz offset =
     (case pread (fi_fd file) sz offset of
        None \<Rightarrow> Some (NGX_ERROR, file, mem)
      | Some bs \<Rightarrow>
          if buf + length bs \<le> length mem then
            let n = of_nat (length bs)
            in Some (n, file\<lparr>fi_offset := fi_offset file + n\<rparr>, patch mem buf bs)
          else None)"

text \<open>\<^verbatim>\<open>pread\<close> never reads more than it is asked for.\<close>

definition pread_bounded :: "pread \<Rightarrow> bool" where
  "pread_bounded pread \<longleftrightarrow> (\<forall>fd n off bs. pread fd n off = Some bs \<longrightarrow> length bs \<le> unat n)"

text \<open>\<^verbatim>\<open>pread\<close> of a regular file with the contents \<open>data\<close>.\<close>

definition pread_of :: "char list \<Rightarrow> pread" where
  "pread_of data fd n off = Some (take (unat n) (drop (unat off) data))"

lemma pread_of_bounded: "pread_bounded (pread_of data)"
  by (simp add: pread_bounded_def pread_of_def)

text \<open>
  With room for \<open>sz\<close> bytes at \<open>buf\<close>, \<^verbatim>\<open>ngx_read_file\<close> stays inside them. On an error it returns
  \<open>NGX_ERROR\<close> and changes nothing; otherwise it returns the number of bytes read, which stand at \<open>buf\<close>,
  with every other byte as it was, and advances the file's offset by that number.
\<close>

theorem ngx_read_file_correct:
  assumes "pread_bounded pread" "buf + unat sz \<le> length mem"
  shows "\<exists>n file' mem'. ngx_read_file pread file mem buf sz offset = Some (n, file', mem') \<and>
    (case pread (fi_fd file) sz offset of
       None \<Rightarrow> n = NGX_ERROR \<and> file' = file \<and> mem' = mem
     | Some bs \<Rightarrow> unat n = length bs \<and> n \<le> sz \<and> fi_offset file' = fi_offset file + n
         \<and> length mem' = length mem \<and> take (length bs) (drop buf mem') = bs
         \<and> take buf mem' = take buf mem \<and> drop (buf + length bs) mem' = drop (buf + length bs) mem)"
proof (cases "pread (fi_fd file) sz offset")
  case None
  then show ?thesis by (simp add: ngx_read_file_def)
next
  case (Some bs)
  then have le: "length bs \<le> unat sz" using assms(1) by (simp add: pread_bounded_def)
  then have b: "buf + length bs \<le> length mem" using assms(2) by simp
  have "unat (of_nat (length bs) :: u64) = length bs"
    by (rule unat_of_nat_64) (use le unat_lt_64 [of sz] in \<open>simp del: unat_lt_64\<close>)
  moreover from this have "(of_nat (length bs) :: u64) \<le> sz" using le by (simp add: word_le_nat_alt)
  ultimately show ?thesis
    using Some b by (simp add: ngx_read_file_def Let_def patch_def)
qed

theorem ngx_read_file_correct_witness:
  "\<exists>n file' mem'. ngx_read_file (pread_of ''hello'')
      \<lparr>fi_fd = 3, fi_name = ngx_null_string, fi_offset = 0, fi_sys_offset = 0\<rparr> ''........'' 1 4 2
    = Some (n, file', mem') \<and> unat n = 3 \<and> fi_offset file' = n \<and> take 3 (drop 1 mem') = ''llo''"
  using ngx_read_file_correct [of "pread_of ''hello''" 1 4 "''........''"
      "\<lparr>fi_fd = 3, fi_name = ngx_null_string, fi_offset = 0, fi_sys_offset = 0\<rparr>" 2]
  by (simp add: pread_of_bounded) (auto simp: pread_of_def numeral_3_eq_3)

end
