(* ===== verification/Spec2Isabelle.thy ===== *)
theory Spec2Isabelle
  imports Ngx_Log_Calls Ngx_Errlist Ngx_Buf Ngx_List Ngx_Array Ngx_Queue Ngx_Shmtx_Wait Ngx_Slab_Alloc Ngx_Shmem Ngx_Files
begin

text \<open>
  A verification development for the core library of the repository, the part of nginx under
  \<^verbatim>\<open>src/core\<close> and \<^verbatim>\<open>src/os/unix\<close>: formatted output, logging, memory pools with the arrays and lists on
  top of them, queues, the allocator of shared memory and the mutex that processes share.

  \<^bold>\<open>Configuration.\<close> The code is modelled as \<^verbatim>\<open>objs/ngx_auto_config.h\<close> compiles it: 64-bit words,
  GCC atomics, \<^verbatim>\<open>posix_memalign\<close>, POSIX semaphores, \<^verbatim>\<open>strerrordesc_np\<close>, no debug macros. The branches for other
  systems that have code of their own are modelled beside it: the table of error messages, \<^verbatim>\<open>memalign\<close> and the
  macro in its place, \<^verbatim>\<open>/dev/zero\<close>, and the \<^verbatim>\<open>NGX_DEBUG\<close> variants of the logging macros and of
  \<^verbatim>\<open>ngx_queue_remove\<close>. Machine integers are \<open>32 word\<close> and \<open>64 word\<close>, so they wrap as the C types do.

  \<^bold>\<open>Conventions.\<close> A function that can fail to be defined (a store outside of an object, a read of
  an argument of the wrong type, a double \<^verbatim>\<open>free\<close>, an access through a bad pointer) returns an
  \<open>option\<close>, and \<open>None\<close> is undefined behaviour. Loops whose end depends on the heap are
  \<^theory_text>\<open>partial_function (option)\<close>, so a theorem that says they return \<open>Some\<close> is a statement of
  termination. The C library and the system calls are parameters with named hypotheses
  (\<open>libc_ok\<close>, \<open>handlers_ok\<close>, \<open>desc_ok\<close>, \<open>strerror_ok\<close>, \<open>alloc_ok\<close>,
  \<open>munmap_aligned\<close>, \<open>open_fresh\<close>, \<open>close_releases\<close>, \<open>mmap_fresh\<close>, \<open>munmap_releases\<close>, \<open>pread_bounded\<close>). A variable the code never sets is a parameter. No loop is cut by fuel.

  \<^bold>\<open>Failing allocations.\<close> \<^verbatim>\<open>ngx_memalign\<close> returns a local without a value when \<^verbatim>\<open>posix_memalign\<close> fails. What the
  local holds is a parameter on which nothing is assumed. Where it is \<open>NULL\<close> the callers see the failure; where it
  is not, the call is \<open>wild\<close>, and every property of a function that allocates names this outcome beside the
  correct one (\<open>palloc_wild\<close>, \<open>pallocs_wild\<close>, \<open>serve_wild\<close>, \<open>grow_wild\<close>, \<open>push_wild\<close>, \<open>pushes_wild\<close> say which call it is).
  The lemmas behind the properties are proved for \<open>calm env\<close>, the library whose unset local is \<open>NULL\<close>,
  and carried over: as long as no call is wild, both libraries do the same.

  \<^bold>\<open>The theories.\<close>
  \<^item> \<open>Ngx_Prelude\<close>: constants and alignment macros (\<^verbatim>\<open>ngx_config.h\<close>, \<^verbatim>\<open>ngx_core.h\<close>), words, byte
    objects, chains of linked nodes.
  \<^item> \<open>Ngx_String\<close>: \<^verbatim>\<open>ngx_cpystrn\<close>, \<^verbatim>\<open>ngx_sprintf_num\<close>, \<^verbatim>\<open>ngx_sprintf_str\<close> of
    \<^verbatim>\<open>ngx_string.c\<close>, and the contract that every writer into a bounded buffer meets
    (locale \<open>bounded_writer\<close>, and \<open>writer_pair\<close> for two in a row).
  \<^item> \<open>Ngx_Double\<close>: the binary64 operations that \<^verbatim>\<open>%f\<close> uses.
  \<^item> \<open>Ngx_Format\<close>: \<^verbatim>\<open>ngx_vslprintf\<close> and \<^verbatim>\<open>ngx_slprintf\<close> of \<^verbatim>\<open>ngx_string.c\<close>, against the
    reference semantics \<open>fmt_pieces\<close> of a format as a list of pieces. The reference takes directives apart with the
    code's own scanner (\<open>parse_spec\<close>), and reads off \<^verbatim>\<open>%f\<close> with its arithmetic; the texts of numbers and strings are stated independently.
    The sign of the least 64-bit number is taken off by a negation that C leaves undefined and that wraps here.
  \<^item> \<open>Ngx_Format_Types\<close>: the kinds of the arguments a format takes, read off its characters: a run that
    leaves room was well typed, and a well-typed format of numbers and pointers never goes wrong, both without \<^verbatim>\<open>INT64_MIN\<close> among the arguments.
  \<^item> \<open>Ngx_Errno\<close>: \<^verbatim>\<open>ngx_strerror\<close> of \<^verbatim>\<open>ngx_errno.c\<close>.
  \<^item> \<open>Ngx_Errlist\<close>: the other branch of \<^verbatim>\<open>ngx_errno.c\<close>, which copies the messages of \<^verbatim>\<open>strerror\<close> into a
    table: the range of the error numbers, the table, its equivalence with the first branch within the range and the
    difference outside, and its failures
    (locale \<open>strerror_source\<close> is what the callers of \<open>ngx_strerror\<close> rely on in either).
  \<^item> \<open>Ngx_Log\<close>: levels, \<^verbatim>\<open>ngx_log_error_core\<close>, \<^verbatim>\<open>ngx_log_errno\<close>, \<^verbatim>\<open>ngx_log_stderr\<close> and
    \<^verbatim>\<open>ngx_log_init\<close> of \<^verbatim>\<open>ngx_log.c\<close>: what each composes, and that it stays within its buffer. The limit of
    \<^verbatim>\<open>ngx_log_error_core\<close> is cut to a byte, as its declaration does, so that it composes the time and nothing else.
  \<^item> \<open>Ngx_Log_Calls\<close>: the logging macros of \<^verbatim>\<open>ngx_log.h\<close> and every call that the modelled files make
    through them, with its level, format and argument kinds: the formats are well typed and print in any
    buffer, and what \<^verbatim>\<open>ngx_log_error_core\<close> makes of the calls.
  \<^item> \<open>Ngx_Alloc\<close>: the heap, the structures in it and \<^verbatim>\<open>ngx_alloc.c\<close> with the three variants of
    \<^verbatim>\<open>ngx_memalign\<close>, the documented allocator \<open>libc_ok\<close>, and the wild calls.
  \<^item> \<open>Ngx_Allocator\<close>: the contract of an allocator over a sequence of requests.
  \<^item> \<open>Ngx_Palloc\<close>, \<open>Ngx_Pool\<close>, \<open>Ngx_Pool_Props\<close>: \<^verbatim>\<open>ngx_palloc.c\<close>; its operations and the chain
    of blocks, the invariant of a pool with the lemmas of each operation and the interpretation
    of the contract, and the properties.
  \<^item> \<open>Ngx_List\<close>: \<^verbatim>\<open>ngx_list.c\<close> over the heap of the pools. The chain of parts refines a sequence of
    element addresses that grows at its end and never moves (locale \<open>appender\<close> of \<open>Ngx_Allocator\<close>).
  \<^item> \<open>Ngx_Array\<close>: \<^verbatim>\<open>ngx_array.c\<close> over the same heap: growing in place or by copying, giving the memory
    back, and what the missing increment of \<^verbatim>\<open>ngx_array_push\<close> and the missing pool of
    \<^verbatim>\<open>ngx_array_push_n\<close> do.
  \<^item> \<open>Ngx_Buf\<close>: \<^verbatim>\<open>ngx_buf_t\<close> of \<^verbatim>\<open>ngx_buf.h\<close> in the bytes of the heap, and its allocation from a pool.
  \<^item> \<open>Ngx_Queue\<close>: the macros of \<^verbatim>\<open>ngx_queue.h\<close>, the ring invariant and the contract of a
    double-ended queue.
  \<^item> \<open>Ngx_Shmtx\<close>: \<^verbatim>\<open>ngx_shmtx.c\<close> as interleaved steps of processes, one step for each access to the
    shared words. Calls are not guarded: a process may unlock a lock it does not hold and force any lock, it may die, and
    \<^verbatim>\<open>sem_wait\<close> and \<^verbatim>\<open>sem_post\<close> may fail, the latter also at \<^verbatim>\<open>SEM_VALUE_MAX\<close>. Mutual exclusion as long as only locks of
    dead processes are forced (and why it needs that), locking and unlocking, the end of the spin loop, and the lock
    that is kept by a sleeping process.
  \<^item> \<open>Ngx_Shmtx_Wait\<close>: the sleepers of the mutex: the books that the count of waiters, the semaphore and
    the control points keep, no lost wakeup (both in runs without crashes, forced unlocks and semaphore errors), and progress of a lone process without the semaphore.
  \<^item> \<open>Ngx_Slab\<close>: \<^verbatim>\<open>ngx_slab.c\<close>: the layout that \<^verbatim>\<open>ngx_slab_init\<close> gives a zone, with exactly as many pages as fit, the size classes, pages
    and chunks, as far as the unfinished source goes, with the requests that never return.
  \<^item> \<open>Ngx_Slab_Alloc\<close>: what the first request does to a fresh pool, and that no later one is answered.
  \<^item> \<open>Ngx_Shmem\<close>, \<open>Ngx_Files\<close>: \<^verbatim>\<open>ngx_shmem.c\<close> (the branches for \<^verbatim>\<open>MAP_ANON\<close> and \<^verbatim>\<open>/dev/zero\<close>) and
    \<^verbatim>\<open>ngx_files.c\<close> over the system calls as parameters.

  \<^bold>\<open>How the parts interact.\<close> \<^verbatim>\<open>ngx_log_stderr\<close> formats with \<^verbatim>\<open>ngx_vslprintf\<close> and appends the error
  text with \<^verbatim>\<open>ngx_log_errno\<close>, which calls \<^verbatim>\<open>ngx_slprintf\<close> and \<^verbatim>\<open>ngx_strerror\<close>: each is a bounded
  writer, and the contract composes. Pools take their blocks and their large allocations from
  \<^verbatim>\<open>ngx_alloc.c\<close> and hand out parts of them; lists and arrays are clients of \<^verbatim>\<open>ngx_palloc\<close>, and
  their proofs use its contract. A slab pool lies in a zone of shared memory and is guarded by a
  mutex; both are modelled on their own, because the source has no code yet that puts them together. Calls that only log (\<^verbatim>\<open>ngx_log_error\<close>,
  \<^verbatim>\<open>ngx_log_debug\<close>) do not change the state of their callers and are left out of the operations; what they
  print is the subject of \<open>Ngx_Log_Calls\<close>.

  \<^bold>\<open>Not modelled.\<close> Headers that only declare types or constants: cycles, modules, configuration, trees,
  times, processes. \<^verbatim>\<open>ngx_create_temp_buf\<close> and \<^verbatim>\<open>main\<close>, which have empty bodies, and the empty branches for
  System V shared memory and libatomic. The logging macros of compilers without variadic
  macros, which call a function that the source does not define, and the loop of \<^verbatim>\<open>ngx_destroy_pool\<close> that logs the
  blocks under \<^verbatim>\<open>NGX_DEBUG\<close>, which does not compile. The system calls behind \<^verbatim>\<open>ngx_open_file\<close> and \<^verbatim>\<open>ngx_write_fd\<close>.
\<close>

end
